(* ===== verification/Prelude.thy ===== *)
theory Prelude
  imports Main "HOL-Library.Word" "HOL-Library.AList"
begin

text \<open>
  The vocabulary every component of the Snowball engine is written in: machine integers and
  byte strings, computations that may return, panic or not return at all, the
  weakest-precondition calculus the component proofs use, two-element arrays with Rust's
  bounds check, and the generic facts on lists and association lists the components share.
\<close>

section \<open>Machine integers and byte strings\<close>

type_synonym u8 = "8 word"
type_synonym u64 = "64 word"
type_synonym u128 = "128 word"
type_synonym bytes = "u8 list"

text \<open>\<open>PeerId\<close> and \<open>BlockId\<close> of the Sawtooth SDK are both \<open>Vec<u8>\<close>.\<close>

type_synonym peer_id = bytes
type_synonym block_id = bytes

section \<open>Computations: results, panics, divergence\<close>

text \<open>
  A Rust function that takes \<open>&mut\<close> state is a function from the state to an outcome: it
  returns a value and the new state, or panics (the state at that moment is kept, because
  guards are dropped while the stack unwinds). \<open>None\<close> is a call that does not return.
  Panics are named after the Rust construct that raises them; the string is the text of the
  \<open>expect\<close> or \<open>panic!\<close>, shortened to what distinguishes it.
\<close>

datatype panic =
    UnwrapFailed string
  | ExpectFailed string
  | OutOfBounds string
  | ExplicitPanic string
  | LibraryPanic string

datatype ('a, 's) outcome = Return 'a 's | Panicked panic 's

type_synonym ('a, 's) comp = "'s \<Rightarrow> ('a, 's) outcome option"

definition returnM :: "'a \<Rightarrow> ('a, 's) comp" where
  "returnM a s = Some (Return a s)"

definition panicM :: "panic \<Rightarrow> ('a, 's) comp" where
  "panicM p s = Some (Panicked p s)"

definition bindM :: "('a, 's) comp \<Rightarrow> ('a \<Rightarrow> ('b, 's) comp) \<Rightarrow> ('b, 's) comp" where
  "bindM m k s = (case m s of
      None \<Rightarrow> None
    | Some (Panicked p s') \<Rightarrow> Some (Panicked p s')
    | Some (Return a s') \<Rightarrow> k a s')"

definition thenM :: "('a, 's) comp \<Rightarrow> ('b, 's) comp \<Rightarrow> ('b, 's) comp" where
  "thenM m n = bindM m (\<lambda>_. n)"

definition getM :: "('s \<Rightarrow> 'a) \<Rightarrow> ('a, 's) comp" where
  "getM f s = Some (Return (f s) s)"

definition modifyM :: "('s \<Rightarrow> 's) \<Rightarrow> (unit, 's) comp" where
  "modifyM f s = Some (Return () (f s))"

definition whenM :: "bool \<Rightarrow> (unit, 's) comp \<Rightarrow> (unit, 's) comp" where
  "whenM b m = (if b then m else returnM ())"

text \<open>\<open>Option::unwrap\<close>/\<open>expect\<close> and \<open>Result::expect\<close>, with the panic they raise.\<close>

definition unwrapM :: "panic \<Rightarrow> 'a option \<Rightarrow> ('a, 's) comp" where
  "unwrapM p x = (case x of None \<Rightarrow> panicM p | Some a \<Rightarrow> returnM a)"

definition expectM :: "panic \<Rightarrow> 'e + 'a \<Rightarrow> ('a, 's) comp" where
  "expectM p x = (case x of Inl e \<Rightarrow> panicM p | Inr a \<Rightarrow> returnM a)"

text \<open>A \<open>for\<close> loop over the items an iterator yields, and one that collects results.\<close>

primrec forM :: "'i list \<Rightarrow> ('i \<Rightarrow> (unit, 's) comp) \<Rightarrow> (unit, 's) comp" where
  "forM [] f = returnM ()"
| "forM (x # xs) f = thenM (f x) (forM xs f)"

primrec foldM :: "('i \<Rightarrow> 'a \<Rightarrow> ('a, 's) comp) \<Rightarrow> 'i list \<Rightarrow> 'a \<Rightarrow> ('a, 's) comp" where
  "foldM f [] a = returnM a"
| "foldM f (x # xs) a = bindM (f x a) (foldM f xs)"

text \<open>A computation on a part of the state, run on the whole of it.\<close>

definition zoomM :: "('t \<Rightarrow> 's) \<Rightarrow> ('s \<Rightarrow> 't \<Rightarrow> 't) \<Rightarrow> ('a, 's) comp \<Rightarrow> ('a, 't) comp" where
  "zoomM get_part put_part m t = (case m (get_part t) of
      None \<Rightarrow> None
    | Some (Panicked p s') \<Rightarrow> Some (Panicked p (put_part s' t))
    | Some (Return a s') \<Rightarrow> Some (Return a (put_part s' t)))"

lemma bindM_mono [partial_function_mono]:
  fixes B :: "('x \<Rightarrow> 'y option) \<Rightarrow> ('a, 's) comp"
    and C :: "('x \<Rightarrow> 'y option) \<Rightarrow> 'a \<Rightarrow> ('b, 's) comp"
  assumes "\<And>s. monotone (fun_ord option_ord) option_ord (\<lambda>f. B f s)"
    and "\<And>a s. monotone (fun_ord option_ord) option_ord (\<lambda>f. C f a s)"
  shows "monotone (fun_ord option_ord) option_ord (\<lambda>f. bindM (B f) (C f) s)"
proof (rule monotoneI)
  fix f g :: "'x \<Rightarrow> 'y option"
  assume fg: "fun_ord option_ord f g"
  have B: "option_ord (B f s) (B g s)"
    using assms(1) [of s] fg by (auto simp: monotone_on_def)
  have C: "option_ord (C f a t) (C g a t)" for a t
    using assms(2) [of a t] fg by (auto simp: monotone_on_def)
  show "option_ord (bindM (B f) (C f) s) (bindM (B g) (C g) s)"
  proof (cases "B f s")
    case None
    then show ?thesis by (simp add: bindM_def flat_ord_def)
  next
    case (Some r)
    with B have "B g s = Some r" by (auto simp: flat_ord_def)
    with Some C show ?thesis by (cases r) (auto simp: bindM_def flat_ord_def)
  qed
qed

lemma thenM_mono [partial_function_mono]:
  assumes "\<And>s. monotone (fun_ord option_ord) option_ord (\<lambda>f. B f s)"
    and "\<And>s. monotone (fun_ord option_ord) option_ord (\<lambda>f. C f s)"
  shows "monotone (fun_ord option_ord) option_ord (\<lambda>f. thenM (B f) (C f) s)"
  unfolding thenM_def by (intro bindM_mono assms)

lemma bindM_assoc: "bindM (bindM m k) l = bindM m (\<lambda>a. bindM (k a) l)"
  by (rule ext) (simp add: bindM_def split: option.splits outcome.splits)

lemma bindM_return [simp]: "bindM (returnM a) k = k a"
  by (rule ext) (simp add: bindM_def returnM_def)

lemma bindM_returnM [simp]: "bindM m returnM = m"
  by (rule ext) (simp add: bindM_def returnM_def split: option.splits outcome.splits)

section \<open>Weakest preconditions\<close>

text \<open>
  \<open>wpx D E m Q s\<close> says what \<open>m\<close> does from \<open>s\<close>: if it returns, the value and the new state
  satisfy \<open>Q\<close>; if it panics, the panic and the state satisfy \<open>E\<close>; if it does not return, \<open>D\<close>
  holds. The three readings used below: \<open>wlp\<close> (anything may go wrong, a result is right),
  \<open>safe\<close> (it never panics, a result is right) and \<open>wp\<close> (it returns and the result is right).
\<close>

definition wpx ::
  "bool \<Rightarrow> (panic \<Rightarrow> 's \<Rightarrow> bool) \<Rightarrow> ('a, 's) comp \<Rightarrow> ('a \<Rightarrow> 's \<Rightarrow> bool) \<Rightarrow> 's \<Rightarrow> bool" where
  "wpx D E m Q s = (case m s of
      None \<Rightarrow> D
    | Some (Panicked p s') \<Rightarrow> E p s'
    | Some (Return a s') \<Rightarrow> Q a s')"

abbreviation wlp :: "('a, 's) comp \<Rightarrow> ('a \<Rightarrow> 's \<Rightarrow> bool) \<Rightarrow> 's \<Rightarrow> bool" where
  "wlp \<equiv> wpx True (\<lambda>_ _. True)"

abbreviation safe :: "('a, 's) comp \<Rightarrow> ('a \<Rightarrow> 's \<Rightarrow> bool) \<Rightarrow> 's \<Rightarrow> bool" where
  "safe \<equiv> wpx True (\<lambda>_ _. False)"

abbreviation wp :: "('a, 's) comp \<Rightarrow> ('a \<Rightarrow> 's \<Rightarrow> bool) \<Rightarrow> 's \<Rightarrow> bool" where
  "wp \<equiv> wpx False (\<lambda>_ _. False)"

named_theorems wp_simps "rewrite rules of the weakest-precondition calculus"

lemma wlp_iff: "wlp m Q s \<longleftrightarrow> (\<forall>a s'. m s = Some (Return a s') \<longrightarrow> Q a s')"
  by (auto simp: wpx_def split: option.splits outcome.splits)

lemma wp_iff: "wp m Q s \<longleftrightarrow> (\<exists>a s'. m s = Some (Return a s') \<and> Q a s')"
  by (auto simp: wpx_def split: option.splits outcome.splits)

lemma wpx_returnM [wp_simps]: "wpx D E (returnM a) Q s = Q a s"
  by (simp add: wpx_def returnM_def)

lemma wpx_panicM [wp_simps]: "wpx D E (panicM p) Q s = E p s"
  by (simp add: wpx_def panicM_def)

lemma wpx_bindM [wp_simps]: "wpx D E (bindM m k) Q s = wpx D E m (\<lambda>a. wpx D E (k a) Q) s"
  by (simp add: wpx_def bindM_def split: option.splits outcome.splits)

lemma wpx_thenM [wp_simps]: "wpx D E (thenM m n) Q s = wpx D E m (\<lambda>_. wpx D E n Q) s"
  by (simp add: thenM_def wpx_bindM)

lemma wpx_getM [wp_simps]: "wpx D E (getM f) Q s = Q (f s) s"
  by (simp add: wpx_def getM_def)

lemma wpx_modifyM [wp_simps]: "wpx D E (modifyM f) Q s = Q () (f s)"
  by (simp add: wpx_def modifyM_def)

lemma wpx_whenM [wp_simps]:
  "wpx D E (whenM b m) Q s = (if b then wpx D E m Q s else Q () s)"
  by (simp add: whenM_def wpx_returnM)

lemma wpx_unwrapM [wp_simps]:
  "wpx D E (unwrapM p x) Q s = (case x of None \<Rightarrow> E p s | Some a \<Rightarrow> Q a s)"
  by (simp add: unwrapM_def wpx_returnM wpx_panicM split: option.splits)

lemma wpx_expectM [wp_simps]:
  "wpx D E (expectM p x) Q s = (case x of Inl e \<Rightarrow> E p s | Inr a \<Rightarrow> Q a s)"
  by (simp add: expectM_def wpx_returnM wpx_panicM split: sum.splits)

lemma wpx_if [wp_simps]:
  "wpx D E (if b then m else n) Q s = (if b then wpx D E m Q s else wpx D E n Q s)"
  by simp

lemma wpx_zoomM [wp_simps]:
  "wpx D E (zoomM g u m) Q t
     = wpx D (\<lambda>p s'. E p (u s' t)) m (\<lambda>a s'. Q a (u s' t)) (g t)"
  by (simp add: wpx_def zoomM_def split: option.splits outcome.splits)

text \<open>The same as equations between predicate transformers, for rewriting under a continuation.\<close>

lemma wpx_returnM_fun: "wpx D E (returnM a) Q = Q a"
  by (rule ext) (rule wpx_returnM)

lemma wpx_bindM_fun: "wpx D E (bindM m k) Q = wpx D E m (\<lambda>a. wpx D E (k a) Q)"
  by (rule ext) (rule wpx_bindM)

lemma wpx_thenM_fun: "wpx D E (thenM m n) Q = wpx D E m (\<lambda>_. wpx D E n Q)"
  by (rule ext) (rule wpx_thenM)

lemmas wpx_fun = wpx_returnM_fun wpx_bindM_fun wpx_thenM_fun

lemma wpx_mono:
  assumes "wpx D E m Q s" and "\<And>a s'. Q a s' \<Longrightarrow> Q' a s'" and "\<And>p s'. E p s' \<Longrightarrow> E' p s'"
    and "D \<Longrightarrow> D'"
  shows "wpx D' E' m Q' s"
  using assms by (auto simp: wpx_def split: option.splits outcome.splits)

lemma wpx_conseq: "wpx D E m Q s \<Longrightarrow> (\<And>a s'. Q a s' \<Longrightarrow> Q' a s') \<Longrightarrow> wpx D E m Q' s"
  by (erule wpx_mono)

lemma wpx_conj: "wpx D E m Q s \<Longrightarrow> wlp m Q' s \<Longrightarrow> wpx D E m (\<lambda>a s'. Q a s' \<and> Q' a s') s"
  by (auto simp: wpx_def split: option.splits outcome.splits)

lemma wp_imp_wpx: "wp m Q s \<Longrightarrow> wpx D E m Q s"
  by (auto simp: wpx_def split: option.splits outcome.splits)

lemma wlpD: "wlp m Q s \<Longrightarrow> m s = Some (Return a s') \<Longrightarrow> Q a s'"
  by (simp add: wpx_def)

lemma wpx_total: "wpx True E m Q s \<Longrightarrow> D \<or> m s \<noteq> None \<Longrightarrow> wpx D E m Q s"
  by (auto simp: wpx_def split: option.splits)

text \<open>The same on an outcome, for the induction rules of the loops.\<close>

definition outcome_ok ::
  "(panic \<Rightarrow> 's \<Rightarrow> bool) \<Rightarrow> ('a \<Rightarrow> 's \<Rightarrow> bool) \<Rightarrow> ('a, 's) outcome \<Rightarrow> bool" where
  "outcome_ok E Q r = (case r of Return a s' \<Rightarrow> Q a s' | Panicked p s' \<Rightarrow> E p s')"

lemma wpx_outcome: "wpx True E m Q s \<longleftrightarrow> (\<forall>r. m s = Some r \<longrightarrow> outcome_ok E Q r)"
  by (auto simp: wpx_def outcome_ok_def split: option.splits outcome.splits)

lemma wpx_forM:
  assumes "I 0 s"
    and "\<And>i s. i < length xs \<Longrightarrow> I i s \<Longrightarrow> wpx D E (f (xs ! i)) (\<lambda>_. I (Suc i)) s"
  shows "wpx D E (forM xs f) (\<lambda>_. I (length xs)) s"
  using assms
proof (induction xs arbitrary: I s)
  case Nil
  then show ?case by (simp add: wp_simps)
next
  case (Cons x xs)
  have "wpx D E (f x) (\<lambda>_. I 1) s"
    using Cons.prems(1) Cons.prems(2) [of 0] by simp
  moreover have "wpx D E (forM xs f) (\<lambda>_. I (length (x # xs))) t" if "I 1 t" for t
    using Cons.IH [of "\<lambda>i. I (Suc i)" t] Cons.prems(2) [of "Suc _"] that by simp
  ultimately show ?case
    by (auto simp: wp_simps elim: wpx_conseq)
qed

section \<open>Transition systems\<close>

text \<open>What holds initially and is kept by every step holds in every reachable state.\<close>

locale transition_system =
  fixes initial :: "'s \<Rightarrow> bool" and step :: "'s \<Rightarrow> 's \<Rightarrow> bool" and inv :: "'s \<Rightarrow> bool"
  assumes initial_inv: "initial s \<Longrightarrow> inv s"
    and step_inv: "inv s \<Longrightarrow> step s t \<Longrightarrow> inv t"
begin

lemma steps_inv: "step\<^sup>*\<^sup>* s t \<Longrightarrow> inv s \<Longrightarrow> inv t"
  by (induction rule: rtranclp_induct) (auto intro: step_inv)

lemma reachable_inv: "initial s \<Longrightarrow> step\<^sup>*\<^sup>* s t \<Longrightarrow> inv t"
  using initial_inv steps_inv by blast

end

section \<open>Arrays of two counters\<close>

text \<open>\<open>[u64; 2]\<close>; indexing outside it panics in Rust, so reads and writes may fail.\<close>

type_synonym u64x2 = "u64 \<times> u64"

definition at2 :: "u64x2 \<Rightarrow> nat \<Rightarrow> u64 option" where
  "at2 a i = (if i = 0 then Some (fst a) else if i = 1 then Some (snd a) else None)"

definition add2 :: "u64x2 \<Rightarrow> nat \<Rightarrow> u64 \<Rightarrow> u64x2 option" where
  "add2 a i d = (if i = 0 then Some (fst a + d, snd a)
     else if i = 1 then Some (fst a, snd a + d) else None)"

lemma at2_simps [simp]:
  "at2 (x, y) 0 = Some x" "at2 (x, y) (Suc 0) = Some y" "at2 (x, y) 1 = Some y"
  by (simp_all add: at2_def)

lemma add2_simps [simp]:
  "add2 (x, y) 0 d = Some (x + d, y)" "add2 (x, y) (Suc 0) d = Some (x, y + d)"
  "add2 (x, y) 1 d = Some (x, y + d)"
  by (simp_all add: add2_def)

section \<open>Lists\<close>

text \<open>\<open>iter().position(|x| x == &id)\<close>: the index of the first occurrence.\<close>

primrec position :: "'a \<Rightarrow> 'a list \<Rightarrow> nat option" where
  "position x [] = None"
| "position x (y # ys) = (if y = x then Some 0 else map_option Suc (position x ys))"

text \<open>\<open>Vec::remove(i)\<close>: the element at \<open>i\<close> leaves, the later ones move down.\<close>

definition remove_at :: "nat \<Rightarrow> 'a list \<Rightarrow> 'a list" where
  "remove_at i xs = take i xs @ drop (Suc i) xs"

lemma position_None [simp]: "position x xs = None \<longleftrightarrow> x \<notin> set xs"
  by (induction xs) auto

lemma position_Some:
  "position x xs = Some i \<Longrightarrow> i < length xs \<and> xs ! i = x \<and> (\<forall>j<i. xs ! j \<noteq> x)"
proof (induction xs arbitrary: i)
  case Nil
  then show ?case by simp
next
  case (Cons y ys)
  then show ?case
    by (fastforce split: if_splits simp: nth_Cons' less_Suc_eq_0_disj)
qed

lemma position_in_set: "x \<in> set xs \<Longrightarrow> \<exists>i. position x xs = Some i"
  by (cases "position x xs") auto

lemma position_append: "x \<in> set xs \<Longrightarrow> position x (xs @ ys) = position x xs"
  by (induction xs) auto

lemma position_distinct: "distinct xs \<Longrightarrow> i < length xs \<Longrightarrow> position (xs ! i) xs = Some i"
proof (induction xs arbitrary: i)
  case Nil
  then show ?case by simp
next
  case (Cons y ys)
  then show ?case by (cases i) auto
qed

lemma length_remove_at [simp]: "i < length xs \<Longrightarrow> length (remove_at i xs) = length xs - 1"
  by (simp add: remove_at_def)

lemma distinct_remove_at:
  assumes "distinct xs" and "i < length xs"
  shows "distinct (remove_at i xs)" and "set (remove_at i xs) = set xs - {xs ! i}"
proof -
  have xs: "xs = take i xs @ xs ! i # drop (Suc i) xs"
    using assms(2) by (simp add: id_take_nth_drop)
  have "distinct (take i xs @ xs ! i # drop (Suc i) xs)"
    using assms(1) xs by simp
  moreover have "set xs = set (take i xs) \<union> {xs ! i} \<union> set (drop (Suc i) xs)"
    by (subst xs) auto
  ultimately show "distinct (remove_at i xs)" and "set (remove_at i xs) = set xs - {xs ! i}"
    unfolding remove_at_def by auto
qed

lemma ex_le_Suc: "(\<exists>j\<le>Suc k. P j) \<longleftrightarrow> P 0 \<or> (\<exists>j\<le>k. P (Suc j))"
  by (metis Suc_le_mono le0 not0_implies_Suc)

end
