(* ===== verification/Interfaces.thy ===== *)
theory Interfaces
  imports Prelude
begin

text \<open>
  What the engine gets from outside its own sources: the Sawtooth SDK's \<open>Service\<close> and the
  structures it hands over, the clock, the random number generator, the nonce generator, the
  HTTP client, the file system and the codecs of the crates \<open>hex\<close> and \<open>serde_json\<close>. None of
  that code is in the repository, so it is one record of functions, \<open>env\<close>, over an abstract
  state of the outside world; every definition that calls it takes the record as an argument.
  Calls that act on the validator, the network or the disk are written to a trace, in the order
  they are made, so that theorems can speak about them; the trace is never read by the code.
\<close>

section \<open>Structures of the SDK\<close>

text \<open>Of \<open>sawtooth_sdk::consensus::engine::Error\<close> the code tells only \<open>BlockNotReady\<close> apart.\<close>

datatype sdk_error = BlockNotReady | OtherError string

text \<open>\<open>Block\<close>, with the fields the engine reads.\<close>

record block =
  block_id :: bytes
  previous_id :: bytes
  block_num :: u64

record peer_message =
  pm_message_type :: string
  pm_content :: bytes

datatype update =
    BlockNew block
  | BlockValid bytes
  | BlockInvalid bytes
  | BlockCommit bytes
  | PeerMessage peer_message peer_id
  | Shutdown
  | PeerConnected peer_id
  | PeerDisconnected peer_id

text \<open>What \<open>updates.recv_timeout\<close> yields.\<close>

datatype incoming = Update update | RecvTimeout | RecvDisconnected

record startup_state =
  chain_head_block :: block
  startup_peers :: "peer_id list"
  local_peer_id :: peer_id

section \<open>The outside world\<close>

text \<open>
  Time is counted in nanoseconds: an \<open>Instant\<close> and a \<open>Duration\<close> are natural numbers, and
  \<open>duration_max\<close> is the largest \<open>Duration\<close> (\<open>u64\<close> seconds, nanoseconds below one second).
\<close>

type_synonym instant = nat
type_synonym duration = nat

definition duration_max :: duration where
  "duration_max = (2 ^ 64 - 1) * 10 ^ 9 + 999999999"

definition from_millis :: "u64 \<Rightarrow> duration" where
  "from_millis n = unat n * 10 ^ 6"

definition from_secs :: "u64 \<Rightarrow> duration" where
  "from_secs n = unat n * 10 ^ 9"

definition as_millis :: "duration \<Rightarrow> nat" where
  "as_millis d = d div 10 ^ 6"

datatype file_contents = OpenFailed | ReadFailed string | Contents string

text \<open>
  \<open>ev_uniform n\<close> is \<open>Uniform::new(0, n)\<close> followed by one \<open>sample\<close>; \<open>None\<close> is the panic of
  \<open>Uniform::new\<close>. \<open>ev_unix_nanos\<close> is \<open>SystemTime::now().duration_since(UNIX_EPOCH)\<close> in
  nanoseconds, \<open>None\<close> when the clock is before the epoch. \<open>ev_iter_indices\<close> and
  \<open>ev_iter_peers\<close> are the order in which a \<open>HashSet<usize>\<close> and a \<open>HashMap\<close> keyed by peers
  are iterated, which the standard library leaves open. \<open>ev_http_client\<close> is \<open>Client::new()\<close> of
  \<open>reqwest\<close>, which panics when it is not \<open>True\<close> (no TLS backend); \<open>ev_post\<close> is the blocking \<open>send\<close> of
  a request, of which the code ignores the result: it ends with the answer or with the client's
  default timeout, and the time it takes is part of the new state of the world. \<open>ev_log_info\<close> says whether the level of
  the log lets \<open>info!\<close> through; only then are the arguments of such a line evaluated.
\<close>

record 'w env =
  ev_initialize_block :: "block_id option \<Rightarrow> 'w \<Rightarrow> (sdk_error + unit) \<times> 'w"
  ev_summarize_block :: "'w \<Rightarrow> (sdk_error + bytes) \<times> 'w"
  ev_finalize_block :: "bytes \<Rightarrow> 'w \<Rightarrow> (sdk_error + block_id) \<times> 'w"
  ev_cancel_block :: "'w \<Rightarrow> (sdk_error + unit) \<times> 'w"
  ev_check_blocks :: "block_id list \<Rightarrow> 'w \<Rightarrow> (sdk_error + unit) \<times> 'w"
  ev_commit_block :: "block_id \<Rightarrow> 'w \<Rightarrow> (sdk_error + unit) \<times> 'w"
  ev_fail_block :: "block_id \<Rightarrow> 'w \<Rightarrow> (sdk_error + unit) \<times> 'w"
  ev_get_chain_head :: "'w \<Rightarrow> (sdk_error + block) \<times> 'w"
  ev_get_settings :: "block_id \<Rightarrow> string list \<Rightarrow> 'w \<Rightarrow> (sdk_error + (string \<rightharpoonup> string)) \<times> 'w"
  ev_send_to :: "peer_id \<Rightarrow> string \<Rightarrow> bytes \<Rightarrow> 'w \<Rightarrow> (sdk_error + unit) \<times> 'w"
  ev_now :: "'w \<Rightarrow> instant \<times> 'w"
  ev_unix_nanos :: "'w \<Rightarrow> u128 option \<times> 'w"
  ev_sleep :: "duration \<Rightarrow> 'w \<Rightarrow> 'w"
  ev_uniform :: "nat \<Rightarrow> 'w \<Rightarrow> (nat \<times> 'w) option"
  ev_nonce :: "'w \<Rightarrow> bytes \<times> 'w"
  ev_http_client :: "'w \<Rightarrow> bool \<times> 'w"
  ev_post :: "string \<Rightarrow> string \<Rightarrow> 'w \<Rightarrow> 'w"
  ev_open_file :: "string \<Rightarrow> 'w \<Rightarrow> file_contents \<times> 'w"
  ev_write_file :: "string \<Rightarrow> string \<Rightarrow> 'w \<Rightarrow> (string + unit) \<times> 'w"
  ev_iter_indices :: "'w \<Rightarrow> nat list \<Rightarrow> nat list"
  ev_iter_peers :: "'w \<Rightarrow> peer_id list \<Rightarrow> peer_id list"
  ev_hex_encode :: "bytes \<Rightarrow> string"
  ev_hex_decode :: "string \<Rightarrow> string + bytes"
  ev_json_strings :: "string \<Rightarrow> string list option"
  ev_json_u64s :: "string \<Rightarrow> u64 list option"
  ev_log_info :: bool

datatype event =
    InitializeBlock "bytes option"
  | SummarizeBlock
  | FinalizeBlock bytes
  | CancelBlock
  | CheckBlocks "bytes list"
  | CommitBlock bytes
  | FailBlock bytes
  | GetChainHead
  | GetSettings bytes "string list"
  | SendTo peer_id string bytes
  | Slept duration
  | Posted string string
  | WroteFile string string

record 'w io =
  io_world :: 'w
  io_trace :: "event list"

section \<open>Calls\<close>

text \<open>A call that leaves a trace, and a question that does not.\<close>

definition call :: "event \<Rightarrow> ('w \<Rightarrow> 'r \<times> 'w) \<Rightarrow> ('r, 'w io) comp" where
  "call e f s = (let (r, w) = f (io_world s)
     in Some (Return r (s\<lparr>io_world := w, io_trace := io_trace s @ [e]\<rparr>)))"

definition ask :: "('w \<Rightarrow> 'r \<times> 'w) \<Rightarrow> ('r, 'w io) comp" where
  "ask f s = (let (r, w) = f (io_world s) in Some (Return r (s\<lparr>io_world := w\<rparr>)))"

definition now :: "('w, 'm) env_scheme \<Rightarrow> (instant, 'w io) comp" where
  "now env = ask (ev_now env)"

definition sleep :: "('w, 'm) env_scheme \<Rightarrow> duration \<Rightarrow> (unit, 'w io) comp" where
  "sleep env d = call (Slept d) (\<lambda>w. ((), ev_sleep env d w))"

definition initialize_block ::
  "('w, 'm) env_scheme \<Rightarrow> block_id option \<Rightarrow> (sdk_error + unit, 'w io) comp" where
  "initialize_block env b = call (InitializeBlock b) (ev_initialize_block env b)"

definition summarize_block :: "('w, 'm) env_scheme \<Rightarrow> (sdk_error + bytes, 'w io) comp" where
  "summarize_block env = call SummarizeBlock (ev_summarize_block env)"

definition finalize_block_svc ::
  "('w, 'm) env_scheme \<Rightarrow> bytes \<Rightarrow> (sdk_error + block_id, 'w io) comp" where
  "finalize_block_svc env c = call (FinalizeBlock c) (ev_finalize_block env c)"

definition cancel_block_svc :: "('w, 'm) env_scheme \<Rightarrow> (sdk_error + unit, 'w io) comp" where
  "cancel_block_svc env = call CancelBlock (ev_cancel_block env)"

definition check_blocks ::
  "('w, 'm) env_scheme \<Rightarrow> block_id list \<Rightarrow> (sdk_error + unit, 'w io) comp" where
  "check_blocks env bs = call (CheckBlocks bs) (ev_check_blocks env bs)"

definition commit_block ::
  "('w, 'm) env_scheme \<Rightarrow> block_id \<Rightarrow> (sdk_error + unit, 'w io) comp" where
  "commit_block env b = call (CommitBlock b) (ev_commit_block env b)"

definition fail_block :: "('w, 'm) env_scheme \<Rightarrow> block_id \<Rightarrow> (sdk_error + unit, 'w io) comp" where
  "fail_block env b = call (FailBlock b) (ev_fail_block env b)"

definition get_chain_head :: "('w, 'm) env_scheme \<Rightarrow> (sdk_error + block, 'w io) comp" where
  "get_chain_head env = call GetChainHead (ev_get_chain_head env)"

definition get_settings ::
  "('w, 'm) env_scheme \<Rightarrow> block_id \<Rightarrow> string list
     \<Rightarrow> (sdk_error + (string \<rightharpoonup> string), 'w io) comp" where
  "get_settings env b ks = call (GetSettings b ks) (ev_get_settings env b ks)"

definition send_to ::
  "('w, 'm) env_scheme \<Rightarrow> peer_id \<Rightarrow> string \<Rightarrow> bytes \<Rightarrow> (sdk_error + unit, 'w io) comp" where
  "send_to env p t c = call (SendTo p t c) (ev_send_to env p t c)"

definition post :: "('w, 'm) env_scheme \<Rightarrow> string \<Rightarrow> string \<Rightarrow> (unit, 'w io) comp" where
  "post env url body = call (Posted url body) (\<lambda>w. ((), ev_post env url body w))"

definition http_client :: "('w, 'm) env_scheme \<Rightarrow> (unit, 'w io) comp" where
  "http_client env = bindM (ask (ev_http_client env)) (\<lambda>ok.
     if ok then returnM () else panicM (LibraryPanic ''Client::new''))"

definition write_file ::
  "('w, 'm) env_scheme \<Rightarrow> string \<Rightarrow> string \<Rightarrow> (string + unit, 'w io) comp" where
  "write_file env path c = call (WroteFile path c) (ev_write_file env path c)"

lemma wpx_call [wp_simps]:
  "wpx D E (call e f) Q s
     = Q (fst (f (io_world s))) (s\<lparr>io_world := snd (f (io_world s)), io_trace := io_trace s @ [e]\<rparr>)"
  by (simp add: wpx_def call_def split: prod.splits)

lemma wpx_ask [wp_simps]:
  "wpx D E (ask f) Q s = Q (fst (f (io_world s))) (s\<lparr>io_world := snd (f (io_world s))\<rparr>)"
  by (simp add: wpx_def ask_def split: prod.splits)

section \<open>What the code relies on\<close>

text \<open>
  The documented behaviour the theorems name as hypotheses. \<open>Uniform::new\<close> panics on an
  empty range and otherwise a sample lies in the range; iterating a set visits each element
  once.
\<close>

definition lawful_uniform :: "('w, 'm) env_scheme \<Rightarrow> bool" where
  "lawful_uniform env \<longleftrightarrow>
     (\<forall>w. ev_uniform env 0 w = None) \<and>
     (\<forall>n w. 0 < n \<longrightarrow> (\<exists>i w'. ev_uniform env n w = Some (i, w') \<and> i < n))"

definition lawful_iteration :: "('w, 'm) env_scheme \<Rightarrow> bool" where
  "lawful_iteration env \<longleftrightarrow>
     (\<forall>w xs. distinct xs \<longrightarrow> distinct (ev_iter_indices env w xs) \<and> set (ev_iter_indices env w xs) = set xs) \<and>
     (\<forall>w xs. distinct xs \<longrightarrow> distinct (ev_iter_peers env w xs) \<and> set (ev_iter_peers env w xs) = set xs)"

lemma lawful_uniform_Some:
  "lawful_uniform env \<Longrightarrow> 0 < n \<Longrightarrow> \<exists>i w'. ev_uniform env n w = Some (i, w') \<and> i < n"
  by (simp add: lawful_uniform_def)

lemma lawful_uniform_less:
  assumes "lawful_uniform env" and "ev_uniform env n w = Some (i, w')"
  shows "i < n"
proof (cases "0 < n")
  case True
  then obtain i' w'' where "ev_uniform env n w = Some (i', w'')" "i' < n"
    using lawful_uniform_Some [OF assms(1)] by blast
  with assms(2) show ?thesis by simp
next
  case False
  with assms show ?thesis by (simp add: lawful_uniform_def)
qed

text \<open>
  Repeated sampling reaches every index sooner or later (with probability one); \<open>draw\<close> is
  the value of the \<open>j\<close>-th sample from a state of the world.
\<close>

fun draw :: "('w, 'm) env_scheme \<Rightarrow> nat \<Rightarrow> nat \<Rightarrow> 'w \<Rightarrow> nat option" where
  "draw env n 0 w = map_option fst (ev_uniform env n w)"
| "draw env n (Suc j) w = (case ev_uniform env n w of None \<Rightarrow> None | Some (_, w') \<Rightarrow> draw env n j w')"

definition fair_uniform :: "('w, 'm) env_scheme \<Rightarrow> bool" where
  "fair_uniform env \<longleftrightarrow> (\<forall>n w i. i < n \<longrightarrow> (\<exists>j. draw env n j w = Some i))"

text \<open>A validator and a network that accept every call, and a client for HTTP that can be made.\<close>

definition reliable_service :: "('w, 'm) env_scheme \<Rightarrow> bool" where
  "reliable_service env \<longleftrightarrow>
     (\<forall>p t c w. fst (ev_send_to env p t c w) = Inr ()) \<and>
     (\<forall>b w. fst (ev_commit_block env b w) = Inr ()) \<and>
     (\<forall>b w. fst (ev_fail_block env b w) = Inr ()) \<and>
     (\<forall>bs w. fst (ev_check_blocks env bs w) = Inr ()) \<and>
     (\<forall>w. \<exists>b. fst (ev_get_chain_head env w) = Inr b) \<and>
     (\<forall>w. \<exists>t. fst (ev_unix_nanos env w) = Some t) \<and>
     (\<forall>w. fst (ev_http_client env w))"

end
