(* ===== verification/Timing.thy ===== *)
theory Timing
  imports Interfaces
begin

text \<open>
  \<open>timing.rs\<close>: the ticker that paces block publishing, the timeout that guards a request to
  a peer, and \<open>retry_until_ok\<close>, the exponential backoff around the call that reads the
  on-chain settings.
\<close>

section \<open>Ticker\<close>

record ticker =
  tk_last :: instant
  tk_timeout :: duration

definition ticker_new :: "('w, 'm) env_scheme \<Rightarrow> duration \<Rightarrow> (ticker, 'w io) comp" where
  "ticker_new env period = bindM (now env) (\<lambda>t. returnM \<lparr>tk_last = t, tk_timeout = period\<rparr>)"

text \<open>The callback and the clock run on the caller's state, whatever that is.\<close>

definition ticker_tick ::
  "(instant, 's) comp \<Rightarrow> (unit, 's) comp \<Rightarrow> ticker \<Rightarrow> (ticker, 's) comp" where
  "ticker_tick clock callback tk =
     bindM clock (\<lambda>t.
     let elapsed = t - tk_last tk in
     if elapsed \<ge> tk_timeout tk then
       thenM callback
       (bindM clock (\<lambda>t'. returnM (tk\<lparr>tk_last := t'\<rparr>)))
     else returnM tk)"

section \<open>Timeout\<close>

datatype timeout_state = Active | Inactive | Expired

record timeout =
  tm_state :: timeout_state
  tm_duration :: duration
  tm_start :: instant

definition timeout_new :: "('w, 'm) env_scheme \<Rightarrow> duration \<Rightarrow> (timeout, 'w io) comp" where
  "timeout_new env d = bindM (now env)
     (\<lambda>t. returnM \<lparr>tm_state = Inactive, tm_duration = d, tm_start = t\<rparr>)"

text \<open>
  \<open>&&\<close> reads the clock only for an active timer. \<open>Instant\<close> is monotonic, and a difference
  that would be negative is zero, as truncating subtraction is.
\<close>

definition check_expired :: "('w, 'm) env_scheme \<Rightarrow> timeout \<Rightarrow> (bool \<times> timeout, 'w io) comp" where
  "check_expired env t =
     bindM (if tm_state t = Active
            then bindM (now env) (\<lambda>n. returnM (n - tm_start t > tm_duration t))
            else returnM False) (\<lambda>over.
     let t' = (if over then t\<lparr>tm_state := Expired\<rparr> else t) in
     returnM (case tm_state t' of
         Active \<Rightarrow> (False, t')
       | Inactive \<Rightarrow> (False, t')
       | Expired \<Rightarrow> (True, t')))"

definition timeout_start :: "('w, 'm) env_scheme \<Rightarrow> timeout \<Rightarrow> (timeout, 'w io) comp" where
  "timeout_start env t = bindM (now env) (\<lambda>n. returnM (t\<lparr>tm_state := Active, tm_start := n\<rparr>))"

definition timeout_stop :: "('w, 'm) env_scheme \<Rightarrow> timeout \<Rightarrow> (timeout, 'w io) comp" where
  "timeout_stop env t = bindM (now env) (\<lambda>n. returnM (t\<lparr>tm_state := Inactive, tm_start := n\<rparr>))"

definition is_active :: "timeout \<Rightarrow> bool" where
  "is_active t \<longleftrightarrow> tm_state t = Active"

section \<open>Exponential backoff\<close>

definition checked_mul2 :: "duration \<Rightarrow> duration option" where
  "checked_mul2 d = (if 2 * d \<le> duration_max then Some (2 * d) else None)"

definition next_delay :: "duration \<Rightarrow> duration \<Rightarrow> duration" where
  "next_delay mx delay =
     (if delay < mx then
        let d = (case checked_mul2 delay of Some d \<Rightarrow> d | None \<Rightarrow> from_millis (- 1))
        in if d > mx then mx else d
      else delay)"

partial_function (option) retry_loop ::
  "duration \<Rightarrow> ('e + 'a, 's) comp \<Rightarrow> (duration \<Rightarrow> (unit, 's) comp) \<Rightarrow> duration \<Rightarrow> ('a, 's) comp" where
  "retry_loop mx callback slp delay s = bindM callback (\<lambda>r. case r of
       Inr res \<Rightarrow> returnM res
     | Inl _ \<Rightarrow> thenM (slp delay) (retry_loop mx callback slp (next_delay mx delay))) s"

definition retry_until_ok ::
  "duration \<Rightarrow> duration \<Rightarrow> (duration \<Rightarrow> (unit, 's) comp) \<Rightarrow> ('e + 'a, 's) comp \<Rightarrow> ('a, 's) comp" where
  "retry_until_ok base mx slp callback = retry_loop mx callback slp base"

section \<open>The timer as an interface\<close>

text \<open>
  What the users of a timer rely on: starting arms it, and a check tells whether more than its
  duration has passed since then; a timer that has expired stays expired.
\<close>

locale timer =
  fixes start :: "instant \<Rightarrow> 't \<Rightarrow> 't"
    and expired :: "instant \<Rightarrow> 't \<Rightarrow> bool \<times> 't"
    and length_of :: "'t \<Rightarrow> duration"
  assumes expired_start: "fst (expired n (start t0 t)) \<longleftrightarrow> length_of t < n - t0"
    and expired_sticky: "fst (expired n t) \<Longrightarrow> fst (expired n' (snd (expired n t)))"
    and not_expired_keeps: "\<not> fst (expired n t) \<Longrightarrow> snd (expired n t) = t"
begin

text \<open>Polling: the instants at which a timer is checked, one after the other.\<close>

primrec polls :: "instant list \<Rightarrow> 't \<Rightarrow> bool list" where
  "polls [] t = []"
| "polls (n # ns) t = fst (expired n t) # polls ns (snd (expired n t))"

lemma polls_expired: "fst (expired n t) \<Longrightarrow> polls ns (snd (expired n t)) = replicate (length ns) True"
proof (induction ns arbitrary: n t)
  case Nil
  then show ?case by simp
next
  case (Cons m ns)
  then have "fst (expired m (snd (expired n t)))" by (intro expired_sticky)
  with Cons.IH show ?case by simp
qed

lemma polls_start:
  "polls ns (start t0 t) ! i \<longleftrightarrow> (\<exists>j\<le>i. length_of t < ns ! j - t0)" if "i < length ns"
  using that
proof (induction ns arbitrary: i)
  case Nil
  then show ?case by simp
next
  case (Cons n ns)
  show ?case
  proof (cases "length_of t < n - t0")
    case True
    then have e: "fst (expired n (start t0 t))" by (simp add: expired_start)
    have "polls (n # ns) (start t0 t) ! i"
      using Cons.prems e by (cases i) (simp_all add: polls_expired [OF e])
    with True show ?thesis by (auto intro: exI [where x = 0])
  next
    case False
    then have ne: "\<not> fst (expired n (start t0 t))" by (simp add: expired_start)
    show ?thesis
    proof (cases i)
      case 0
      with ne False show ?thesis by simp
    next
      case (Suc k)
      have "polls (n # ns) (start t0 t) ! i = polls ns (start t0 t) ! k"
        using Suc ne by (simp add: not_expired_keeps)
      also have "\<dots> = (\<exists>j\<le>k. length_of t < ns ! j - t0)"
        using Cons Suc by simp
      also have "\<dots> = (\<exists>j\<le>i. length_of t < (n # ns) ! j - t0)"
        using False Suc by (simp add: ex_le_Suc)
      finally show ?thesis .
    qed
  qed
qed

end

text \<open>The code's timeout, with the readings of the clock as arguments.\<close>

definition start_at :: "instant \<Rightarrow> timeout \<Rightarrow> timeout" where
  "start_at n t = t\<lparr>tm_state := Active, tm_start := n\<rparr>"

definition expired_at :: "instant \<Rightarrow> timeout \<Rightarrow> bool \<times> timeout" where
  "expired_at n t =
     (let t' = (if tm_state t = Active \<and> n - tm_start t > tm_duration t
                then t\<lparr>tm_state := Expired\<rparr> else t)
      in (tm_state t' = Expired, t'))"

interpretation tmo: timer start_at expired_at tm_duration
  by unfold_locales (auto simp: start_at_def expired_at_def Let_def split: if_splits)

lemma timeout_start_eq: "timeout_start env t = bindM (now env) (\<lambda>n. returnM (start_at n t))"
  by (simp add: timeout_start_def start_at_def)

section \<open>Properties of the timer\<close>

text \<open>
  C34: A timer that was started at \<open>t0\<close> and is checked at the instants \<open>ns\<close> reports expiry
  at the first check that comes more than its duration after the start, and at every later
  one, whatever the clock reads then.
\<close>

theorem started_timeout_polls:
  assumes "i < length ns"
  shows "tmo.polls ns (start_at t0 t) ! i \<longleftrightarrow> (\<exists>j\<le>i. tm_duration t < ns ! j - t0)"
  using assms by (rule tmo.polls_start)

text \<open>A timeout of 10 started at 100 and checked at 105, 111 and, the clock going back, at 90.\<close>

theorem started_timeout_polls_witness:
  "tmo.polls [105, 111, 90] (start_at 100 \<lparr>tm_state = Inactive, tm_duration = 10, tm_start = 0\<rparr>) ! 2"
proof -
  have "\<exists>j\<le>2. (10 :: nat) < [105, 111, 90] ! j - 100" by (rule exI [of _ 1]) simp
  then show ?thesis
    using started_timeout_polls [of 2 "[105, 111, 90]" 100 "\<lparr>tm_state = Inactive, tm_duration = 10, tm_start = 0\<rparr>"]
    by simp
qed

lemma check_expired_wp:
  "wpx D E (check_expired env t) Q s =
     (if tm_state t = Active
      then Q (expired_at (fst (ev_now env (io_world s))) t) (s\<lparr>io_world := snd (ev_now env (io_world s))\<rparr>)
      else Q (tm_state t = Expired, t) s)"
  by (cases "tm_state t") (auto simp: check_expired_def expired_at_def now_def Let_def wp_simps)

lemma timeout_start_wp [wp_simps]:
  "wpx D E (timeout_start env t) Q s =
     Q (start_at (fst (ev_now env (io_world s))) t) (s\<lparr>io_world := snd (ev_now env (io_world s))\<rparr>)"
  by (simp add: timeout_start_eq now_def wp_simps)

section \<open>Properties of the backoff\<close>

text \<open>The delay before the \<open>i\<close>-th retry, counted from 0.\<close>

definition backoff :: "duration \<Rightarrow> duration \<Rightarrow> nat \<Rightarrow> duration" where
  "backoff base mx i = (next_delay mx ^^ i) base"

lemma backoff_0 [simp]: "backoff base mx 0 = base"
  by (simp add: backoff_def)

lemma backoff_Suc: "backoff base mx (Suc i) = next_delay mx (backoff base mx i)"
  by (simp add: backoff_def)

lemma backoff_shift: "backoff (next_delay mx base) mx i = backoff base mx (Suc i)"
  by (simp add: backoff_def funpow_swap1)

lemma next_delay_le: "next_delay mx d \<le> max d mx"
  by (simp add: next_delay_def Let_def)

lemma next_delay_double:
  "d \<le> mx \<Longrightarrow> 2 * mx \<le> duration_max \<Longrightarrow> next_delay mx d = min mx (2 * d)"
  by (simp add: next_delay_def checked_mul2_def Let_def min_def)

lemma backoff_bounded: "backoff base mx i \<le> max base mx"
proof (induction i)
  case 0
  then show ?case by simp
next
  case (Suc i)
  then show ?case
    using next_delay_le [of mx "backoff base mx i"] by (simp add: backoff_Suc)
qed

text \<open>
  C33: The delays double up to the maximum: before the \<open>i\<close>-th retry \<open>retry_until_ok\<close> sleeps for the
  base delay times \<open>2 ^ i\<close>, or for the maximum when that is less, as long as twice the maximum is
  a \<open>Duration\<close>.
\<close>

theorem backoff_doubles_up_to_max:
  assumes "base \<le> mx" and "2 * mx \<le> duration_max"
  shows "backoff base mx i = min mx (base * 2 ^ i)"
proof (induction i)
  case 0
  then show ?case using assms(1) by simp
next
  case (Suc i)
  have "backoff base mx (Suc i) = min mx (2 * backoff base mx i)"
    using next_delay_double [OF _ assms(2)] backoff_bounded [of base mx i] assms(1)
    by (simp add: backoff_Suc)
  also have "\<dots> = min mx (base * 2 ^ Suc i)"
    using Suc.IH by (auto simp: min_def)
  finally show ?case .
qed

theorem backoff_doubles_up_to_max_witness:
  "backoff (from_millis 100) (from_millis 60000) 3 = from_millis 800"
  using backoff_doubles_up_to_max [of "from_millis 100" "from_millis 60000" 3]
  by (simp add: from_millis_def duration_max_def)

lemma retry_loop_step:
  "retry_loop mx callback slp d s = (case callback s of
      None \<Rightarrow> None
    | Some (Panicked p t) \<Rightarrow> Some (Panicked p t)
    | Some (Return (Inr r) t) \<Rightarrow> Some (Return r t)
    | Some (Return (Inl e) t) \<Rightarrow> thenM (slp d) (retry_loop mx callback slp (next_delay mx d)) t)"
  by (subst retry_loop.simps)
    (auto simp: bindM_def returnM_def split: option.splits outcome.splits sum.splits)

lemma retry_loop_returns:
  assumes "\<And>i. i < n \<Longrightarrow> callback (st i) = Some (Return (Inl (e i)) (mid i))"
    and "\<And>i. i < n \<Longrightarrow> slp (backoff base mx i) (mid i) = Some (Return () (st (Suc i)))"
    and "callback (st n) = Some (Return (Inr r) t)"
  shows "retry_loop mx callback slp base (st 0) = Some (Return r t)"
  using assms
proof (induction n arbitrary: base st mid e)
  case 0
  then show ?case by (subst retry_loop_step) simp
next
  case (Suc n)
  have "retry_loop mx callback slp (next_delay mx base) (st (Suc 0)) = Some (Return r t)"
    using Suc.prems Suc_mono
    by (intro Suc.IH [of "\<lambda>i. st (Suc i)" "\<lambda>i. e (Suc i)" "\<lambda>i. mid (Suc i)"])
      (simp_all add: backoff_shift)
  moreover have "slp base (mid 0) = Some (Return () (st (Suc 0)))"
    using Suc.prems(2) [of 0] by simp
  ultimately show ?case
    using Suc.prems(1) [of 0]
    by (subst retry_loop_step) (simp add: thenM_def bindM_def)
qed

text \<open>A callback that never succeeds is retried for ever.\<close>

lemma retry_until_ok_never_ok:
  assumes "\<forall>s. \<exists>e s'. callback s = Some (Return (Inl e) s')"
    and "\<forall>d s. \<exists>s'. slp d s = Some (Return () s')"
  shows "retry_until_ok base mx slp callback s = None"
proof -
  have "False" if "retry_loop mx callback slp base s = Some r" for r
  proof (rule retry_loop.raw_induct [where P = "\<lambda>mx cb sl base s r. cb = callback \<and> sl = slp \<longrightarrow> False",
        OF _ that, THEN mp])
    fix rec mx cb sl d s' y
    assume IH: "\<And>mx cb sl d s r. rec mx cb sl d s = Some r \<Longrightarrow> cb = callback \<and> sl = slp \<longrightarrow> False"
      and eq: "bindM cb (\<lambda>r. case r of Inl _ \<Rightarrow> thenM (sl d) (rec mx cb sl (next_delay mx d))
                | Inr res \<Rightarrow> returnM res) s' = Some y"
    show "cb = callback \<and> sl = slp \<longrightarrow> False"
    proof
      assume cs: "cb = callback \<and> sl = slp"
      obtain e t u where "callback s' = Some (Return (Inl e) t)" "slp d t = Some (Return () u)"
        using assms by metis
      with eq cs have "rec mx callback slp (next_delay mx d) u = Some y"
        by (simp add: bindM_def thenM_def)
      with IH show False by blast
    qed
  qed simp_all
  then show ?thesis
    unfolding retry_until_ok_def by (cases "retry_loop mx callback slp base s") auto
qed
section \<open>Properties of the ticker\<close>

text \<open>
  A clock read from a list of instants, and a callback that notes when it is called: between the
  last reading before it and the first one after it. \<open>pc_open\<close> is a call that no reading has ended yet.
\<close>

record paced =
  pc_readings :: "instant list"
  pc_now :: instant
  pc_open :: "instant option"
  pc_calls :: "(instant \<times> instant) list"

definition read_clock :: "(instant, paced) comp" where
  "read_clock s = (case pc_readings s of [] \<Rightarrow> None
     | t # ts \<Rightarrow> Some (Return t (s\<lparr>pc_readings := ts, pc_now := t, pc_open := None,
         pc_calls := pc_calls s @ (case pc_open s of None \<Rightarrow> [] | Some b \<Rightarrow> [(b, t)])\<rparr>)))"

definition note_call :: "(unit, paced) comp" where
  "note_call s = Some (Return () (s\<lparr>pc_open := Some (pc_now s)\<rparr>))"

primrec ticks :: "nat \<Rightarrow> ticker \<Rightarrow> (ticker, paced) comp" where
  "ticks 0 tk = returnM tk"
| "ticks (Suc n) tk = bindM (ticker_tick read_clock note_call tk) (ticks n)"

lemma wpx_read_clock:
  "pc_readings s = t # ts \<Longrightarrow> wpx D E read_clock Q s = Q t (s\<lparr>pc_readings := ts, pc_now := t, pc_open := None,
     pc_calls := pc_calls s @ (case pc_open s of None \<Rightarrow> [] | Some b \<Rightarrow> [(b, t)])\<rparr>)"
  by (simp add: wpx_def read_clock_def)

lemma wpx_note_call: "wpx D E note_call Q s = Q () (s\<lparr>pc_open := Some (pc_now s)\<rparr>)"
  by (simp add: wpx_def note_call_def)

lemma tick_paced:
  assumes "pc_readings s = t # t' # ts" and "pc_open s = None"
  shows "wpx D E (ticker_tick read_clock note_call tk) Q s =
    (if tk_timeout tk \<le> t - tk_last tk
     then Q (tk\<lparr>tk_last := t'\<rparr>) (s\<lparr>pc_readings := ts, pc_now := t', pc_open := None, pc_calls := pc_calls s @ [(t, t')]\<rparr>)
     else Q tk (s\<lparr>pc_readings := t' # ts, pc_now := t, pc_open := None\<rparr>))"
  using assms by (simp add: ticker_tick_def wp_simps wpx_read_clock wpx_note_call Let_def)

text \<open>
  What keeping the pace is: a call begins no sooner than the period after the end of the call before, and
  when a tick does not call, that time has not come. \<open>t0\<close> stands for a call that ends when the ticker is made.
\<close>

definition keeps_pace :: "duration \<Rightarrow> instant \<Rightarrow> paced \<Rightarrow> bool" where
  "keeps_pace period t0 s \<longleftrightarrow>
     successively (\<lambda>a b. snd a + period \<le> fst b) ((t0, t0) # pc_calls s) \<and> pc_open s = None
     \<and> (let end_of_last = snd (last ((t0, t0) # pc_calls s)) in
        pc_now s = end_of_last \<or> pc_now s < end_of_last + period)"

lemma keeps_pace_call:
  assumes "keeps_pace period t0 s" and "snd (last ((t0, t0) # pc_calls s)) + period \<le> t"
  shows "keeps_pace period t0 (s\<lparr>pc_readings := ts, pc_now := t', pc_open := None, pc_calls := pc_calls s @ [(t, t')]\<rparr>)"
proof -
  have "successively (\<lambda>a b. snd a + period \<le> fst b) (((t0, t0) # pc_calls s) @ [(t, t')])"
    using assms unfolding keeps_pace_def successively_append_iff by simp
  then show ?thesis by (simp add: keeps_pace_def)
qed

lemma ticks_paced:
  assumes "2 * n \<le> length (pc_readings s)" and "sorted (tk_last tk # pc_readings s)"
    and "keeps_pace (tk_timeout tk) t0 s" and "snd (last ((t0, t0) # pc_calls s)) = tk_last tk"
  shows "wp (ticks n tk) (\<lambda>_. keeps_pace (tk_timeout tk) t0) s"
  using assms
proof (induction n arbitrary: tk s)
  case 0
  then show ?case by (simp add: wp_simps)
next
  case (Suc n)
  then obtain t t' ts where r: "pc_readings s = t # t' # ts"
    by (cases "pc_readings s"; cases "tl (pc_readings s)") auto
  have le: "tk_last tk \<le> t" "t \<le> t'" using Suc.prems(2) r by simp_all
  have o: "pc_open s = None" using Suc.prems(3) by (simp add: keeps_pace_def)
  show ?case
    unfolding ticks.simps wpx_bindM tick_paced [OF r o]
  proof (split if_split, intro conjI impI)
    assume e: "tk_timeout tk \<le> t - tk_last tk"
    let ?s = "s\<lparr>pc_readings := ts, pc_now := t', pc_open := None, pc_calls := pc_calls s @ [(t, t')]\<rparr>"
    have "keeps_pace (tk_timeout tk) t0 ?s"
      using e le Suc.prems(4) by (intro keeps_pace_call [OF Suc.prems(3)]) linarith
    then show "wp (ticks n (tk\<lparr>tk_last := t'\<rparr>)) (\<lambda>_. keeps_pace (tk_timeout tk) t0) ?s"
      using Suc.IH [of ?s "tk\<lparr>tk_last := t'\<rparr>"] Suc.prems(1,2) r le by simp
  next
    assume e: "\<not> tk_timeout tk \<le> t - tk_last tk"
    let ?s = "s\<lparr>pc_readings := t' # ts, pc_now := t, pc_open := None\<rparr>"
    have "t < tk_last tk + tk_timeout tk" using e le by linarith
    then have "keeps_pace (tk_timeout tk) t0 ?s"
      using Suc.prems(3,4) by (simp add: keeps_pace_def Let_def)
    then show "wp (ticks n tk) (\<lambda>_. keeps_pace (tk_timeout tk) t0) ?s"
      by (intro Suc.IH) (use Suc.prems r le in auto)
  qed
qed

text \<open>
  C35: The ticker keeps its pace, on a clock that does not go back. However often it is ticked and
  however long the callback takes: the callback is called for the first time no sooner than
  the period after the ticker was made, and every next time no sooner than the period after the
  clock was read at the end of the last call; and it is called at the first tick for which that time
  has come: when the latest tick did not call, less than the period had passed. (This is about clock readings that
  do not decrease, as those of \<open>Instant\<close> do not.)
\<close>

theorem ticker_keeps_pace:
  assumes "sorted (t0 # readings)" and "2 * n \<le> length readings"
  shows "\<exists>tk s. ticks n \<lparr>tk_last = t0, tk_timeout = period\<rparr>
      \<lparr>pc_readings = readings, pc_now = t0, pc_open = None, pc_calls = []\<rparr> = Some (Return tk s)
    \<and> successively (\<lambda>a b. snd a + period \<le> fst b) ((t0, t0) # pc_calls s) \<and> pc_open s = None
    \<and> (pc_now s = snd (last ((t0, t0) # pc_calls s)) \<or> pc_now s < snd (last ((t0, t0) # pc_calls s)) + period)"
  using ticks_paced [of n "\<lparr>pc_readings = readings, pc_now = t0, pc_open = None, pc_calls = []\<rparr>"
      "\<lparr>tk_last = t0, tk_timeout = period\<rparr>" t0] assms
  by (auto simp: wp_iff keeps_pace_def Let_def)

text \<open>Three ticks with a period of 10: the callback of the second lasts from 11 to 15, so the third, at 22, is too soon.\<close>

theorem ticker_keeps_pace_witness:
  "\<exists>tk s. ticks 3 \<lparr>tk_last = 0, tk_timeout = 10\<rparr>
      \<lparr>pc_readings = [5, 11, 15, 22, 30, 31], pc_now = 0, pc_open = None, pc_calls = []\<rparr> = Some (Return tk s)
    \<and> successively (\<lambda>a b. snd a + 10 \<le> fst b) ((0, 0) # pc_calls s)"
proof -
  have "sorted (0 # [5, 11, 15, 22, 30, 31 :: nat])" "2 * 3 \<le> length [5, 11, 15, 22, 30, 31 :: nat]" by simp_all
  from ticker_keeps_pace [OF this, of 10] show ?thesis by blast
qed

end
