(* ===== verification/Config.thy ===== *)
theory Config
  imports Timing
begin

text \<open>
  \<open>config.rs\<close>: the configuration record, its defaults, and \<open>load_settings\<close>, which reads the
  on-chain settings (through \<open>retry_until_ok\<close>), panics when a required one is missing or
  malformed and keeps the default of every optional one that is missing or malformed.
  The parsers of the standard library (\<open>parse::<u64>\<close>, \<open>parse::<bool>\<close>) are defined here; the
  JSON and hex parsers belong to other crates and are parameters in \<open>env\<close>.
\<close>

section \<open>Numbers and booleans in text\<close>

definition digit_value :: "char \<Rightarrow> nat option" where
  "digit_value c = (let n = (of_char c :: nat) in if 48 \<le> n \<and> n \<le> 57 then Some (n - 48) else None)"

text \<open>The digit loop of \<open>u64::from_str\<close>: a non-digit or an overflow is an error.\<close>

fun parse_digits :: "nat \<Rightarrow> string \<Rightarrow> nat option" where
  "parse_digits acc [] = Some acc"
| "parse_digits acc (c # cs) = (case digit_value c of
      None \<Rightarrow> None
    | Some d \<Rightarrow> if acc * 10 + d < 2 ^ 64 then parse_digits (acc * 10 + d) cs else None)"

definition parse_u64 :: "string \<Rightarrow> u64 option" where
  "parse_u64 s =
     (let ds = (case s of [] \<Rightarrow> [] | c # cs \<Rightarrow> if c = CHR ''+'' then cs else s)
      in if ds = [] then None else map_option of_nat (parse_digits 0 ds))"

definition parse_bool :: "string \<Rightarrow> bool option" where
  "parse_bool s = (if s = ''true'' then Some True else if s = ''false'' then Some False else None)"

text \<open>\<open>to_string\<close> on an unsigned integer.\<close>

definition digit_char :: "nat \<Rightarrow> char" where
  "digit_char d = char_of (48 + d)"

fun decimal :: "nat \<Rightarrow> string" where
  "decimal n = (if n < 10 then [digit_char n] else decimal (n div 10) @ [digit_char (n mod 10)])"

declare decimal.simps [simp del]

section \<open>The configuration\<close>

record config =
  cfg_members :: "peer_id list"
  cfg_alfa :: u64
  cfg_beta :: u64
  cfg_k :: u64
  cfg_block_publishing_delay :: duration
  cfg_hang_timeout :: duration
  cfg_update_recv_timeout :: duration
  cfg_exponential_retry_base :: duration
  cfg_exponential_retry_max :: duration
  cfg_storage_location :: string
  cfg_byzantine_enabled :: bool
  cfg_byzantine_churn_idx :: "u64 list"
  cfg_byzantine_max_churn_timeout_millis :: u64
  cfg_byzantine_hang_idx :: "u64 list"
  cfg_byzantine_max_sleep_delay_millis :: u64
  cfg_byzantine_sleep_idx :: "u64 list"
  cfg_byzantine_duplicate_idx :: "u64 list"
  cfg_byzantine_spurious_idx :: "u64 list"
  cfg_byzantine_wrong_decision_idx :: "u64 list"

definition default_config :: config where
  "default_config = \<lparr>
     cfg_members = [],
     cfg_alfa = 0,
     cfg_beta = 0,
     cfg_k = 0,
     cfg_block_publishing_delay = from_millis 5000,
     cfg_hang_timeout = from_millis 3000,
     cfg_update_recv_timeout = from_millis 10,
     cfg_exponential_retry_base = from_millis 100,
     cfg_exponential_retry_max = from_millis 60000,
     cfg_storage_location = ''memory'',
     cfg_byzantine_enabled = False,
     cfg_byzantine_churn_idx = [],
     cfg_byzantine_max_churn_timeout_millis = 20000,
     cfg_byzantine_hang_idx = [],
     cfg_byzantine_max_sleep_delay_millis = 6000,
     cfg_byzantine_sleep_idx = [],
     cfg_byzantine_duplicate_idx = [],
     cfg_byzantine_spurious_idx = [],
     cfg_byzantine_wrong_decision_idx = []\<rparr>"

section \<open>Reading the settings\<close>

type_synonym settings = "string \<rightharpoonup> string"

definition setting_keys :: "string list" where
  "setting_keys = [
     ''sawtooth.consensus.algorithm.members'',
     ''sawtooth.consensus.algorithm.block_publishing_delay'',
     ''sawtooth.consensus.algorithm.idle_timeout'',
     ''sawtooth.consensus.algorithm.alfa'',
     ''sawtooth.consensus.algorithm.beta'',
     ''sawtooth.consensus.algorithm.k'',
     ''sawtooth.consensus.algorithm.hang_timeout'',
     ''sawtooth.byzantine.enabled'',
     ''sawtooth.byzantine.parameter.max_churn_timeout'',
     ''sawtooth.byzantine.parameter.churn_idx'',
     ''sawtooth.byzantine.parameter.hang_idx'',
     ''sawtooth.byzantine.parameter.max_sleep_delay'',
     ''sawtooth.byzantine.parameter.sleep_idx'',
     ''sawtooth.byzantine.parameter.duplicate_idx'',
     ''sawtooth.byzantine.parameter.spurious_idx'',
     ''sawtooth.byzantine.parameter.wrong_decision_idx'']"

text \<open>\<open>merge_setting_if_set_and_map\<close>, with the parser that Rust infers from the type.\<close>

definition merge_setting_if_set_and_map ::
  "(string \<Rightarrow> 't option) \<Rightarrow> settings \<Rightarrow> 'u \<Rightarrow> string \<Rightarrow> ('t \<Rightarrow> 'u) \<Rightarrow> 'u" where
  "merge_setting_if_set_and_map parse settings_map setting_field setting_key f =
     (case settings_map setting_key of
        None \<Rightarrow> setting_field
      | Some setting \<Rightarrow> (case parse setting of
            None \<Rightarrow> setting_field
          | Some setting_value \<Rightarrow> f setting_value))"

definition merge_millis_setting_if_set :: "settings \<Rightarrow> duration \<Rightarrow> string \<Rightarrow> duration" where
  "merge_millis_setting_if_set settings_map setting_field setting_key =
     merge_setting_if_set_and_map parse_u64 settings_map setting_field setting_key from_millis"

text \<open>The \<open>if let\<close> pairs of the Byzantine parameters: the value stays when absent or malformed.\<close>

definition set_if_valid :: "(string \<Rightarrow> 't option) \<Rightarrow> settings \<Rightarrow> string \<Rightarrow> 't \<Rightarrow> 't" where
  "set_if_valid parse settings key old = (case settings key of
       None \<Rightarrow> old
     | Some setting \<Rightarrow> (case parse setting of None \<Rightarrow> old | Some v \<Rightarrow> v))"

primrec decode_members :: "('w, 'm) env_scheme \<Rightarrow> string list \<Rightarrow> (peer_id list, 's) comp" where
  "decode_members env [] = returnM []"
| "decode_members env (s # ss) = (case ev_hex_decode env s of
      Inl err \<Rightarrow> panicM (ExplicitPanic ''Unable to parse PeerId from string'')
    | Inr p \<Rightarrow> bindM (decode_members env ss) (\<lambda>ps. returnM (p # ps)))"

definition get_members_from_settings ::
  "('w, 'm) env_scheme \<Rightarrow> settings \<Rightarrow> (peer_id list, 's) comp" where
  "get_members_from_settings env settings =
     bindM (unwrapM (ExpectFailed ''members is empty'')
       (settings ''sawtooth.consensus.algorithm.members'')) (\<lambda>members_setting_value.
     bindM (unwrapM (ExplicitPanic ''Unable to parse members'')
       (ev_json_strings env members_setting_value)) (\<lambda>members.
     decode_members env members))"

text \<open>\<open>settings.get(key).unwrap().parse::<u64>().expect(..)\<close>.\<close>

definition required_u64 :: "settings \<Rightarrow> string \<Rightarrow> (u64, 's) comp" where
  "required_u64 settings key =
     bindM (unwrapM (UnwrapFailed key) (settings key)) (\<lambda>v.
     unwrapM (ExpectFailed key) (parse_u64 v))"

definition apply_settings ::
  "('w, 'm) env_scheme \<Rightarrow> settings \<Rightarrow> config \<Rightarrow> (config, 's) comp" where
  "apply_settings env settings cfg =
     bindM (get_members_from_settings env settings) (\<lambda>members.
     bindM (required_u64 settings ''sawtooth.consensus.algorithm.alfa'') (\<lambda>alfa.
     bindM (required_u64 settings ''sawtooth.consensus.algorithm.beta'') (\<lambda>beta.
     bindM (required_u64 settings ''sawtooth.consensus.algorithm.k'') (\<lambda>k.
     returnM (cfg\<lparr>
       cfg_members := members,
       cfg_alfa := alfa,
       cfg_beta := beta,
       cfg_k := k,
       cfg_block_publishing_delay := merge_millis_setting_if_set settings
         (cfg_block_publishing_delay cfg) ''sawtooth.consensus.algorithm.block_publishing_delay'',
       cfg_hang_timeout := merge_millis_setting_if_set settings
         (cfg_hang_timeout cfg) ''sawtooth.consensus.algorithm.hang_timeout'',
       cfg_byzantine_enabled := set_if_valid parse_bool settings
         ''sawtooth.byzantine.enabled'' (cfg_byzantine_enabled cfg),
       cfg_byzantine_max_churn_timeout_millis := set_if_valid parse_u64 settings
         ''sawtooth.byzantine.parameter.max_churn_timeout'' (cfg_byzantine_max_churn_timeout_millis cfg),
       cfg_byzantine_churn_idx := set_if_valid (ev_json_u64s env) settings
         ''sawtooth.byzantine.parameter.churn_idx'' (cfg_byzantine_churn_idx cfg),
       cfg_byzantine_hang_idx := set_if_valid (ev_json_u64s env) settings
         ''sawtooth.byzantine.parameter.hang_idx'' (cfg_byzantine_hang_idx cfg),
       cfg_byzantine_max_sleep_delay_millis := set_if_valid parse_u64 settings
         ''sawtooth.byzantine.parameter.max_sleep_delay'' (cfg_byzantine_max_sleep_delay_millis cfg),
       cfg_byzantine_sleep_idx := set_if_valid (ev_json_u64s env) settings
         ''sawtooth.byzantine.parameter.sleep_idx'' (cfg_byzantine_sleep_idx cfg),
       cfg_byzantine_duplicate_idx := set_if_valid (ev_json_u64s env) settings
         ''sawtooth.byzantine.parameter.duplicate_idx'' (cfg_byzantine_duplicate_idx cfg),
       cfg_byzantine_spurious_idx := set_if_valid (ev_json_u64s env) settings
         ''sawtooth.byzantine.parameter.spurious_idx'' (cfg_byzantine_spurious_idx cfg),
       cfg_byzantine_wrong_decision_idx := set_if_valid (ev_json_u64s env) settings
         ''sawtooth.byzantine.parameter.wrong_decision_idx'' (cfg_byzantine_wrong_decision_idx cfg)\<rparr>)))))"

definition load_settings ::
  "('w, 'm) env_scheme \<Rightarrow> config \<Rightarrow> block_id \<Rightarrow> (config, 'w io) comp" where
  "load_settings env cfg block =
     bindM (retry_until_ok (cfg_exponential_retry_base cfg) (cfg_exponential_retry_max cfg)
       (sleep env) (get_settings env block setting_keys)) (\<lambda>settings.
     apply_settings env settings cfg)"

section \<open>Numbers survive being printed and parsed\<close>

lemma digit_value_char [simp]: "d < 10 \<Longrightarrow> digit_value (digit_char d) = Some d"
  by (simp add: digit_value_def digit_char_def)

lemma digit_char_plain: "d < 10 \<Longrightarrow> digit_char d \<noteq> CHR ''+''"
proof -
  assume d: "d < 10"
  have "(of_char (CHR ''+'') :: nat) = 43" by simp
  moreover have "(of_char (digit_char d) :: nat) = 48 + d" using d by (simp add: digit_char_def)
  ultimately show "digit_char d \<noteq> CHR ''+''" by auto
qed

lemma parse_digits_append:
  "parse_digits acc (xs @ ys) = Option.bind (parse_digits acc xs) (\<lambda>a. parse_digits a ys)"
  by (induction xs arbitrary: acc) (auto split: option.splits)

lemma parse_decimal: "parse_digits 0 (decimal n) = (if n < 2 ^ 64 then Some n else None)"
proof (induction n rule: decimal.induct)
  case (1 n)
  show ?case
  proof (cases "n < 10")
    case True
    then show ?thesis by (subst decimal.simps) simp
  next
    case False
    then have IH: "parse_digits 0 (decimal (n div 10)) = (if n div 10 < 2 ^ 64 then Some (n div 10) else None)"
      by (rule 1)
    have n: "n div 10 * 10 + n mod 10 = n" by simp
    have "decimal n = decimal (n div 10) @ [digit_char (n mod 10)]"
      using False by (subst decimal.simps) simp
    then show ?thesis
      using IH n by (auto simp: parse_digits_append)
  qed
qed

lemma decimal_first: "\<exists>d ds. decimal n = digit_char d # ds \<and> d < 10"
proof (induction n rule: decimal.induct)
  case (1 n)
  show ?case
  proof (cases "n < 10")
    case True
    then show ?thesis by (subst decimal.simps) auto
  next
    case False
    from 1 [OF this] show ?thesis using False by (subst decimal.simps) auto
  qed
qed

lemma parse_u64_decimal_lemma:
  "parse_u64 (decimal n) = (if n < 2 ^ 64 then Some (of_nat n) else None)"
proof -
  obtain d ds where "decimal n = digit_char d # ds" "d < 10" using decimal_first by blast
  then show ?thesis
    using parse_decimal [of n] digit_char_plain [of d] by (auto simp: parse_u64_def Let_def)
qed

section \<open>Which settings are accepted\<close>

text \<open>The settings without which the engine does not start.\<close>

definition decoded_members :: "('w, 'm) env_scheme \<Rightarrow> settings \<Rightarrow> peer_id list option" where
  "decoded_members env settings =
     Option.bind (settings ''sawtooth.consensus.algorithm.members'') (\<lambda>v.
     Option.bind (ev_json_strings env v) (\<lambda>ms.
       if \<forall>s\<in>set ms. \<exists>p. ev_hex_decode env s = Inr p
       then Some (map (\<lambda>s. projr (ev_hex_decode env s)) ms) else None))"

definition required :: "settings \<Rightarrow> string \<Rightarrow> u64 option" where
  "required settings key = Option.bind (settings key) parse_u64"

lemma wpx_required_u64 [wp_simps]:
  "wpx D E (required_u64 settings key) Q s = (case required settings key of
      Some v \<Rightarrow> Q v s
    | None \<Rightarrow> E (if settings key = None then UnwrapFailed key else ExpectFailed key) s)"
  by (auto simp: required_u64_def required_def wp_simps split: option.splits)

lemma wpx_decode_members:
  "wpx D E (decode_members env ms) Q s \<longleftrightarrow>
     (if \<forall>x\<in>set ms. \<exists>p. ev_hex_decode env x = Inr p
      then Q (map (\<lambda>s. projr (ev_hex_decode env s)) ms) s
      else E (ExplicitPanic ''Unable to parse PeerId from string'') s)"
proof (induction ms arbitrary: Q)
  case Nil
  then show ?case by (simp add: wp_simps)
next
  case (Cons x ms)
  then show ?case
    by (cases "ev_hex_decode env x") (auto simp: wp_simps)
qed

lemma wpx_get_members:
  "wpx D E (get_members_from_settings env settings) Q s \<longleftrightarrow> (case decoded_members env settings of
      Some ms \<Rightarrow> Q ms s
    | None \<Rightarrow> E (if settings ''sawtooth.consensus.algorithm.members'' = None
        then ExpectFailed ''members is empty''
        else if ev_json_strings env (the (settings ''sawtooth.consensus.algorithm.members'')) = None
        then ExplicitPanic ''Unable to parse members''
        else ExplicitPanic ''Unable to parse PeerId from string'') s)"
  by (auto simp: get_members_from_settings_def decoded_members_def wp_simps wpx_decode_members
      split: option.splits)

end
