(* ===== verification/Snowball_State.thy ===== *)
theory Snowball_State
  imports Config
begin

text \<open>
  \<open>state.rs\<close>: the phases and decisions of the algorithm, the Byzantine test parameters, the
  measurements and the state record of a node, with the operations of \<open>SnowballState\<close>. An
  operation that reads a clock is a computation on the outside world that returns the new state.
\<close>

section \<open>Data\<close>

datatype phase = Idle | Listening | Finishing

datatype decision_state = OK | KO | Undecided

text \<open>The order that \<open>derive(PartialOrd)\<close> gives the variants: as they are declared.\<close>

fun phase_rank :: "phase \<Rightarrow> nat" where
  "phase_rank Idle = 0"
| "phase_rank Listening = 1"
| "phase_rank Finishing = 2"

instantiation phase :: linorder
begin

definition less_eq_phase :: "phase \<Rightarrow> phase \<Rightarrow> bool" where
  "less_eq_phase p q \<longleftrightarrow> phase_rank p \<le> phase_rank q"

definition less_phase :: "phase \<Rightarrow> phase \<Rightarrow> bool" where
  "less_phase p q \<longleftrightarrow> phase_rank p < phase_rank q"

instance
proof
  fix p q r :: phase
  show "p \<le> q \<Longrightarrow> q \<le> p \<Longrightarrow> p = q"
    by (cases p; cases q) (simp_all add: less_eq_phase_def)
qed (auto simp: less_eq_phase_def less_phase_def)

end

fun decision_rank :: "decision_state \<Rightarrow> nat" where
  "decision_rank OK = 0"
| "decision_rank KO = 1"
| "decision_rank Undecided = 2"

instantiation decision_state :: linorder
begin

definition less_eq_decision_state :: "decision_state \<Rightarrow> decision_state \<Rightarrow> bool" where
  "less_eq_decision_state c d \<longleftrightarrow> decision_rank c \<le> decision_rank d"

definition less_decision_state :: "decision_state \<Rightarrow> decision_state \<Rightarrow> bool" where
  "less_decision_state c d \<longleftrightarrow> decision_rank c < decision_rank d"

instance
proof
  fix c d e :: decision_state
  show "c \<le> d \<Longrightarrow> d \<le> c \<Longrightarrow> c = d"
    by (cases c; cases d) (simp_all add: less_eq_decision_state_def)
qed (auto simp: less_eq_decision_state_def less_decision_state_def)

end

text \<open>\<open>Display\<close> of the two enums.\<close>

fun display_phase :: "phase \<Rightarrow> string" where
  "display_phase Idle = ''Idle''"
| "display_phase Listening = ''Listening''"
| "display_phase Finishing = ''Finishing''"

fun display_decision :: "decision_state \<Rightarrow> string" where
  "display_decision OK = ''OK''"
| "display_decision KO = ''KO''"
| "display_decision Undecided = ''Undecided''"

record byzantine_parameters =
  bz_enabled :: bool
  bz_max_churn_timeout_millis :: u64
  bz_churn_idx :: "u64 set"
  bz_hang_idx :: "u64 set"
  bz_max_sleep_delay_millis :: u64
  bz_sleep_idx :: "u64 set"
  bz_duplicate_idx :: "u64 set"
  bz_spurious_idx :: "u64 set"
  bz_wrong_decision_idx :: "u64 set"

definition byzantine_parameters_new :: "config \<Rightarrow> byzantine_parameters" where
  "byzantine_parameters_new cfg = \<lparr>
     bz_enabled = cfg_byzantine_enabled cfg,
     bz_max_churn_timeout_millis = cfg_byzantine_max_churn_timeout_millis cfg,
     bz_churn_idx = set (cfg_byzantine_churn_idx cfg),
     bz_hang_idx = set (cfg_byzantine_hang_idx cfg),
     bz_max_sleep_delay_millis = cfg_byzantine_max_sleep_delay_millis cfg,
     bz_sleep_idx = set (cfg_byzantine_sleep_idx cfg),
     bz_duplicate_idx = set (cfg_byzantine_duplicate_idx cfg),
     bz_spurious_idx = set (cfg_byzantine_spurious_idx cfg),
     bz_wrong_decision_idx = set (cfg_byzantine_wrong_decision_idx cfg)\<rparr>"

record measurements =
  ms_convergenza :: "block_id \<rightharpoonup> u128"
  ms_n_messaggi_inviati :: u64

definition measurements_new :: measurements where
  "measurements_new = \<lparr>ms_convergenza = Map.empty, ms_n_messaggi_inviati = 0\<rparr>"

text \<open>
  The map of awaited peers is an association list with one entry per peer, because the code
  takes its size and iterates over it; the other maps are only looked up and updated.
\<close>

record snowball_state =
  ss_id :: peer_id
  ss_order :: u64
  ss_seq_num :: u64
  ss_alfa :: u64
  ss_beta :: u64
  ss_k :: u64
  ss_decision_map :: "u64 \<rightharpoonup> decision_state"
  ss_last_color :: decision_state
  ss_confidence_counter :: u64
  ss_response_buffer :: u64x2
  ss_decision_array :: u64x2
  ss_waiting_response_map :: "(peer_id \<times> timeout) list"
  ss_chain_head :: block_id
  ss_decision_block :: block_id
  ss_phase :: phase
  ss_member_ids :: "peer_id list"
  ss_exponential_retry_base :: duration
  ss_exponential_retry_max :: duration
  ss_hang_timeout :: duration
  ss_byzantine_test :: byzantine_parameters
  ss_measurements :: measurements

text \<open>
  \<open>Display\<close> of a state, the text of its log line. The derived \<open>Debug\<close> texts of the awaited peers
  and of the Byzantine parameters follow the iteration order of hash tables and are arguments, as
  is \<open>hex::encode\<close>.
\<close>

definition display_state ::
  "(bytes \<Rightarrow> string) \<Rightarrow> ((peer_id \<times> timeout) list \<Rightarrow> string) \<Rightarrow> (byzantine_parameters \<Rightarrow> string)
     \<Rightarrow> snowball_state \<Rightarrow> string" where
  "display_state hex debug_waiting debug_byzantine st =
     ''(process '' @ decimal (unat (ss_order st)) @ '', '' @ display_phase (ss_phase st)
     @ '', seq '' @ decimal (unat (ss_seq_num st))
     @ '', chain head: '' @ [CHR 0x22] @ hex (ss_chain_head st) @ [CHR 0x22]
     @ '', waiting_set: '' @ debug_waiting (ss_waiting_response_map st)
     @ '', response_buffer: ['' @ decimal (unat (fst (ss_response_buffer st))) @ '', ''
       @ decimal (unat (snd (ss_response_buffer st))) @ '']''
     @ '', byzantine: '' @ debug_byzantine (ss_byzantine_test st) @ '')''"

section \<open>Operations\<close>

text \<open>\<open>SnowballState::new\<close>; the \<open>unwrap\<close> fails when the node is not among the members.\<close>

definition snowball_state_new :: "peer_id \<Rightarrow> u64 \<Rightarrow> config \<Rightarrow> (snowball_state, 's) comp" where
  "snowball_state_new pid head_block_num cfg =
     bindM (unwrapM (UnwrapFailed ''position'') (position pid (cfg_members cfg))) (\<lambda>order.
     returnM \<lparr>
       ss_id = pid,
       ss_order = of_nat order,
       ss_seq_num = head_block_num + 1,
       ss_alfa = cfg_alfa cfg,
       ss_beta = cfg_beta cfg,
       ss_k = cfg_k cfg,
       ss_decision_map = [0 \<mapsto> Undecided],
       ss_last_color = Undecided,
       ss_confidence_counter = 0,
       ss_response_buffer = (0, 0),
       ss_decision_array = (0, 0),
       ss_waiting_response_map = [],
       ss_chain_head = [],
       ss_decision_block = [],
       ss_phase = Idle,
       ss_member_ids = cfg_members cfg,
       ss_exponential_retry_base = cfg_exponential_retry_base cfg,
       ss_exponential_retry_max = cfg_exponential_retry_max cfg,
       ss_hang_timeout = cfg_hang_timeout cfg,
       ss_byzantine_test = byzantine_parameters_new cfg,
       ss_measurements = measurements_new\<rparr>)"

fun next_phase :: "phase \<Rightarrow> phase" where
  "next_phase Idle = Listening"
| "next_phase Listening = Finishing"
| "next_phase Finishing = Idle"

definition switch_phase :: "snowball_state \<Rightarrow> snowball_state" where
  "switch_phase st = st\<lparr>ss_phase := next_phase (ss_phase st)\<rparr>"

definition get_order_index :: "snowball_state \<Rightarrow> peer_id \<Rightarrow> (u64, 's) comp" where
  "get_order_index st pid =
     bindM (unwrapM (UnwrapFailed ''position'') (position pid (ss_member_ids st)))
       (\<lambda>i. returnM (of_nat i))"

definition add_to_waiting_set ::
  "('w, 'm) env_scheme \<Rightarrow> peer_id \<Rightarrow> snowball_state \<Rightarrow> (snowball_state, 'w io) comp" where
  "add_to_waiting_set env pid st =
     bindM (timeout_new env (ss_hang_timeout st)) (\<lambda>timeout.
     bindM (timeout_start env timeout) (\<lambda>timeout.
     returnM (st\<lparr>ss_waiting_response_map :=
       AList.update pid timeout (ss_waiting_response_map st)\<rparr>)))"

definition set_message_sent :: "snowball_state \<Rightarrow> snowball_state" where
  "set_message_sent st = st\<lparr>ss_measurements := (ss_measurements st)
     \<lparr>ms_n_messaggi_inviati := ms_n_messaggi_inviati (ss_measurements st) + 1\<rparr>\<rparr>"

definition set_block_new_timestamp ::
  "('w, 'm) env_scheme \<Rightarrow> block_id \<Rightarrow> snowball_state \<Rightarrow> (snowball_state, 'w io) comp" where
  "set_block_new_timestamp env block st =
     bindM (ask (ev_unix_nanos env)) (\<lambda>t.
     bindM (unwrapM (UnwrapFailed ''duration_since'') t) (\<lambda>current_time.
     returnM (st\<lparr>ss_measurements := (ss_measurements st)
       \<lparr>ms_convergenza := (ms_convergenza (ss_measurements st))(block \<mapsto> current_time)\<rparr>\<rparr>)))"

definition set_block_commit_timestamp ::
  "('w, 'm) env_scheme \<Rightarrow> block_id \<Rightarrow> snowball_state \<Rightarrow> (u128 \<times> snowball_state, 'w io) comp" where
  "set_block_commit_timestamp env block st =
     bindM (ask (ev_unix_nanos env)) (\<lambda>t.
     bindM (unwrapM (UnwrapFailed ''duration_since'') t) (\<lambda>current_time.
     bindM (unwrapM (ExpectFailed ''Unable to find block_id in map!'')
       (ms_convergenza (ss_measurements st) block)) (\<lambda>old_time.
     returnM (current_time - old_time,
       st\<lparr>ss_measurements := (ss_measurements st)\<lparr>ms_convergenza :=
         (ms_convergenza (ss_measurements st))(block \<mapsto> current_time - old_time)\<rparr>\<rparr>))))"

section \<open>The set of awaited peers as an interface\<close>

text \<open>
  What the vote counting relies on: the number of awaited peers after an answer is taken out
  and after a request is added. The abstraction is the set of peers.
\<close>

locale awaited_peers =
  fixes await :: "'p \<Rightarrow> 'v \<Rightarrow> 'c \<Rightarrow> 'c"
    and unawait :: "'p \<Rightarrow> 'c \<Rightarrow> 'c"
    and awaited :: "'c \<Rightarrow> 'p \<Rightarrow> bool"
    and size_of :: "'c \<Rightarrow> nat"
    and wf :: "'c \<Rightarrow> bool"
  assumes awaited_await: "awaited (await p v c) q \<longleftrightarrow> q = p \<or> awaited c q"
    and awaited_unawait: "awaited (unawait p c) q \<longleftrightarrow> q \<noteq> p \<and> awaited c q"
    and wf_await: "wf c \<Longrightarrow> wf (await p v c)"
    and wf_unawait: "wf c \<Longrightarrow> wf (unawait p c)"
    and size_of_card: "wf c \<Longrightarrow> finite {p. awaited c p} \<and> size_of c = card {p. awaited c p}"
begin

lemma size_await_new: "wf c \<Longrightarrow> \<not> awaited c p \<Longrightarrow> size_of (await p v c) = Suc (size_of c)"
proof -
  assume wf: "wf c" and new: "\<not> awaited c p"
  have "{q. awaited (await p v c) q} = insert p {q. awaited c q}"
    by (auto simp: awaited_await)
  with wf new show ?thesis
    using size_of_card [OF wf] size_of_card [OF wf_await [OF wf, of p v]] by simp
qed

lemma size_await_old: "wf c \<Longrightarrow> awaited c p \<Longrightarrow> size_of (await p v c) = size_of c"
proof -
  assume wf: "wf c" and old: "awaited c p"
  have "{q. awaited (await p v c) q} = {q. awaited c q}"
    using old by (auto simp: awaited_await)
  then show ?thesis
    using size_of_card [OF wf] size_of_card [OF wf_await [OF wf, of p v]] by simp
qed

lemma size_unawait: "wf c \<Longrightarrow> awaited c p \<Longrightarrow> Suc (size_of (unawait p c)) = size_of c"
proof -
  assume wf: "wf c" and old: "awaited c p"
  have "{q. awaited (unawait p c) q} = {q. awaited c q} - {p}"
    by (auto simp: awaited_unawait)
  moreover have "p \<in> {q. awaited c q}" using old by simp
  ultimately show ?thesis
    using size_of_card [OF wf] size_of_card [OF wf_unawait [OF wf, of p]]
    by (metis card_Suc_Diff1)
qed

end

definition awaits :: "(peer_id \<times> timeout) list \<Rightarrow> peer_id \<Rightarrow> bool" where
  "awaits m p \<longleftrightarrow> p \<in> fst ` set m"

definition keys_distinct :: "('a \<times> 'b) list \<Rightarrow> bool" where
  "keys_distinct m \<longleftrightarrow> distinct (map fst m)"

interpretation wm: awaited_peers AList.update AList.delete awaits length keys_distinct
proof
  fix p q :: peer_id and v :: timeout and c :: "(peer_id \<times> timeout) list"
  show "awaits (AList.update p v c) q \<longleftrightarrow> q = p \<or> awaits c q"
    by (auto simp: awaits_def dom_update)
  show "awaits (AList.delete p c) q \<longleftrightarrow> q \<noteq> p \<and> awaits c q"
    by (auto simp: awaits_def AList.delete_eq)
  show "keys_distinct c \<Longrightarrow> keys_distinct (AList.update p v c)"
    by (simp add: keys_distinct_def distinct_update)
  show "keys_distinct c \<Longrightarrow> keys_distinct (AList.delete p c)"
    by (simp add: keys_distinct_def distinct_delete)
  assume d: "keys_distinct c"
  have "{p. awaits c p} = set (map fst c)" by (auto simp: awaits_def)
  moreover have "card (set (map fst c)) = length c"
    using distinct_card [OF d [unfolded keys_distinct_def]] by simp
  ultimately show "finite {p. awaits c p} \<and> length c = card {p. awaits c p}"
    by simp
qed

end
