(* ===== verification/Messages.thy ===== *)
theory Messages
  imports Snowball_State
begin

text \<open>
  \<open>message.rs\<close>: the message nodes exchange and the record posted to the log collector, and
  the conversion between Rust strings and bytes that carries a message over the network.
\<close>

section \<open>Records\<close>

record snowball_message =
  sm_message_type :: string
  sm_seq_num :: u64
  sm_vote :: u8
  sm_nonce :: bytes

definition snowball_message_new :: snowball_message where
  "snowball_message_new = \<lparr>sm_message_type = ''undefined'', sm_seq_num = 0, sm_vote = 0, sm_nonce = []\<rparr>"

text \<open>\<open>Display\<close> of a message.\<close>

definition display_message :: "snowball_message \<Rightarrow> string" where
  "display_message m = ''(message_type='' @ sm_message_type m @ '', seq='' @ decimal (unat (sm_seq_num m))
     @ '', vote='' @ decimal (unat (sm_vote m)) @ '')''"

record log_message =
  lm_seq_num :: u64
  lm_n_messages :: u64
  lm_n_members :: u64
  lm_elapsed_time :: u128
  lm_block_id :: string
  lm_alfa :: u64
  lm_beta :: u64
  lm_k :: u64
  lm_order :: u64
  lm_decision :: u8
  lm_hang_timeout :: u64
  lm_byzantine :: byzantine_parameters

definition log_message_new :: log_message where
  "log_message_new = \<lparr>
     lm_seq_num = 0,
     lm_n_messages = 0,
     lm_n_members = 0,
     lm_elapsed_time = 0,
     lm_block_id = [],
     lm_alfa = 0,
     lm_beta = 0,
     lm_k = 0,
     lm_order = 0,
     lm_decision = 0,
     lm_hang_timeout = 0,
     lm_byzantine = byzantine_parameters_new default_config\<rparr>"

section \<open>Strings and bytes\<close>

text \<open>\<open>String::as_bytes\<close>: a Rust string is its UTF-8 encoding, here one \<open>char\<close> per byte.\<close>

definition as_bytes :: "string \<Rightarrow> bytes" where
  "as_bytes s = map (\<lambda>c. of_nat (of_char c)) s"

definition continuation_byte :: "u8 \<Rightarrow> bool" where
  "continuation_byte b \<longleftrightarrow> 0x80 \<le> b \<and> b \<le> 0xBF"

text \<open>Well-formed UTF-8, as \<open>str::from_utf8\<close> checks it: no overlong form, no surrogate.\<close>

fun valid_utf8 :: "bytes \<Rightarrow> bool" where
  "valid_utf8 [] = True"
| "valid_utf8 (a # r) =
     (if a \<le> 0x7F then valid_utf8 r
      else (case r of
        [] \<Rightarrow> False
      | b # r2 \<Rightarrow>
        if 0xC2 \<le> a \<and> a \<le> 0xDF then continuation_byte b \<and> valid_utf8 r2
        else (case r2 of
          [] \<Rightarrow> False
        | c # r3 \<Rightarrow>
          if 0xE0 \<le> a \<and> a \<le> 0xEF then
            (if a = 0xE0 then 0xA0 \<le> b \<and> b \<le> 0xBF
             else if a = 0xED then 0x80 \<le> b \<and> b \<le> 0x9F
             else continuation_byte b)
            \<and> continuation_byte c \<and> valid_utf8 r3
          else (case r3 of
            [] \<Rightarrow> False
          | d # r4 \<Rightarrow>
            0xF0 \<le> a \<and> a \<le> 0xF4 \<and>
            (if a = 0xF0 then 0x90 \<le> b \<and> b \<le> 0xBF
             else if a = 0xF4 then 0x80 \<le> b \<and> b \<le> 0x8F
             else continuation_byte b)
            \<and> continuation_byte c \<and> continuation_byte d \<and> valid_utf8 r4))))"

definition from_utf8 :: "bytes \<Rightarrow> string option" where
  "from_utf8 bs = (if valid_utf8 bs then Some (map (\<lambda>b. char_of (unat b)) bs) else None)"

section \<open>JSON of the engine's own types\<close>

text \<open>
  \<open>serde_json\<close> on the message, the log record and the state: encoders may fail (\<open>None\<close>), and a
  decoder fails on text that is not such a value.
\<close>

record 'w node_env = "'w env" +
  nv_message_to_json :: "snowball_message \<Rightarrow> string option"
  nv_message_of_json :: "string \<Rightarrow> snowball_message option"
  nv_log_to_json :: "log_message \<Rightarrow> string option"
  nv_state_to_json :: "snowball_state \<Rightarrow> string option"
  nv_state_of_json :: "string \<Rightarrow> snowball_state option"

text \<open>The message codec round-trips, and what it produces is a Rust string, hence UTF-8.\<close>

definition lawful_message_json :: "('w, 'm) node_env_scheme \<Rightarrow> bool" where
  "lawful_message_json env \<longleftrightarrow> (\<forall>m. \<exists>s. nv_message_to_json env m = Some s
     \<and> valid_utf8 (as_bytes s) \<and> nv_message_of_json env s = Some m)"

definition lawful_log_json :: "('w, 'm) node_env_scheme \<Rightarrow> bool" where
  "lawful_log_json env \<longleftrightarrow> (\<forall>m. \<exists>s. nv_log_to_json env m = Some s)"

section \<open>Encoding and decoding\<close>

definition encode_payload :: "('w, 'm) node_env_scheme \<Rightarrow> snowball_message \<Rightarrow> bytes option" where
  "encode_payload env m = map_option as_bytes (nv_message_to_json env m)"

definition decode_payload :: "('w, 'm) node_env_scheme \<Rightarrow> bytes \<Rightarrow> (snowball_message, 's) comp" where
  "decode_payload env content =
     bindM (unwrapM (UnwrapFailed ''from_utf8'') (from_utf8 content)) (\<lambda>content_string.
     unwrapM (UnwrapFailed ''from_str'') (nv_message_of_json env content_string))"

lemma from_utf8_as_bytes: "valid_utf8 (as_bytes s) \<Longrightarrow> from_utf8 (as_bytes s) = Some s"
proof -
  have "char_of (unat (of_nat (of_char c) :: u8)) = c" for c
  proof -
    have "unat (of_nat (of_char c) :: u8) = of_char c"
      by (simp add: unat_of_nat)
    then show ?thesis by simp
  qed
  moreover assume "valid_utf8 (as_bytes s)"
  ultimately show ?thesis by (simp add: from_utf8_def as_bytes_def comp_def)
qed

lemma decode_encode:
  assumes "lawful_message_json env" and "encode_payload env m = Some content"
  shows "decode_payload env content s = Some (Return m s)"
proof -
  obtain t where t: "nv_message_to_json env m = Some t" "valid_utf8 (as_bytes t)" "nv_message_of_json env t = Some m"
    using assms(1) by (auto simp: lawful_message_json_def)
  then have "content = as_bytes t" using assms(2) by (simp add: encode_payload_def)
  with t show ?thesis
    by (simp add: decode_payload_def from_utf8_as_bytes bindM_def unwrapM_def returnM_def)
qed

end
