(* ===== verification/Node.thy ===== *)
theory Node
  imports Messages
begin

text \<open>
  \<open>node.rs\<close>, the code as it is: the node's state, the messages it sends, the peers it samples,
  the rounds of queries, the decision on a block, the handlers of the validator's updates and
  the publishing of blocks. Everything a handler touches is one record, \<open>machine\<close>: the
  \<open>SnowballState\<close> it is given, the fields of \<open>SnowballNode\<close>, and the outside world.
\<close>

section \<open>The state of a node\<close>

record log_guard =
  lg_not_ready_to_summarize :: bool
  lg_not_ready_to_finalize :: bool

definition default_log_guard :: log_guard where
  "default_log_guard = \<lparr>lg_not_ready_to_summarize = False, lg_not_ready_to_finalize = False\<rparr>"

record 'w machine =
  mc_state :: snowball_state
  mc_log_guard :: log_guard
  mc_block_queue :: "block list"
  mc_io :: "'w io"

definition ioM :: "('a, 'w io) comp \<Rightarrow> ('a, 'w machine) comp" where
  "ioM = zoomM mc_io (\<lambda>io m. m\<lparr>mc_io := io\<rparr>)"

definition upd_state :: "(snowball_state \<Rightarrow> snowball_state) \<Rightarrow> (unit, 'w machine) comp" where
  "upd_state f = modifyM (\<lambda>m. m\<lparr>mc_state := f (mc_state m)\<rparr>)"

text \<open>A method of \<open>SnowballState\<close> that reads a clock.\<close>

definition run_state :: "(snowball_state \<Rightarrow> (snowball_state, 'w io) comp) \<Rightarrow> (unit, 'w machine) comp" where
  "run_state f = bindM (getM mc_state) (\<lambda>st.
     bindM (ioM (f st)) (\<lambda>st'. upd_state (\<lambda>_. st')))"

definition iter_indices :: "('w, 'm) env_scheme \<Rightarrow> nat list \<Rightarrow> (nat list, 'w machine) comp" where
  "iter_indices env xs = getM (\<lambda>m. ev_iter_indices env (io_world (mc_io m)) xs)"

definition iter_peers :: "('w, 'm) env_scheme \<Rightarrow> peer_id list \<Rightarrow> (peer_id list, 'w machine) comp" where
  "iter_peers env xs = getM (\<lambda>m. ev_iter_peers env (io_world (mc_io m)) xs)"

section \<open>Random values and samples of peers\<close>

definition random_value :: "('w, 'm) env_scheme \<Rightarrow> nat \<Rightarrow> (nat, 'w machine) comp" where
  "random_value env range_max m = (case ev_uniform env range_max (io_world (mc_io m)) of
       None \<Rightarrow> Some (Panicked (LibraryPanic ''Uniform::new'') m)
     | Some (i, w) \<Rightarrow> Some (Return i (m\<lparr>mc_io := (mc_io m)\<lparr>io_world := w\<rparr>\<rparr>)))"

text \<open>
  The \<open>while\<close> loop of \<open>select_node_sample\<close>: draw until the set has \<open>amount\<close> elements. Nothing
  in the code bounds the number of draws.
\<close>

partial_function (option) sample_loop ::
  "('w, 'm) env_scheme \<Rightarrow> nat \<Rightarrow> nat list \<Rightarrow> (nat list, 'w machine) comp" where
  "sample_loop env amount chosen m =
     (if length chosen < amount then
        bindM (random_value env (length (ss_member_ids (mc_state m)))) (\<lambda>choice.
        sample_loop env amount
          (if choice \<noteq> unat (ss_order (mc_state m)) then List.insert choice chosen else chosen)) m
      else returnM chosen m)"

text \<open>
  \<open>HashSet::<usize>::with_capacity(amount)\<close> panics with a capacity overflow when the table for so
  many elements would exceed \<open>isize::MAX\<close> bytes. The table has a power of two of buckets, of 9 bytes
  each and filled to seven eighths at most; \<open>2 ^ 59\<close> buckets still fit.
\<close>

definition set_capacity_max :: nat where
  "set_capacity_max = 7 * 2 ^ 56"

definition select_node_sample :: "('w, 'm) env_scheme \<Rightarrow> nat \<Rightarrow> (nat list, 'w machine) comp" where
  "select_node_sample env amount =
     (if amount > set_capacity_max then panicM (LibraryPanic ''capacity overflow'')
      else sample_loop env amount [])"

section \<open>Sending messages\<close>

definition usize_max :: nat where
  "usize_max = 2 ^ 64 - 1"

text \<open>\<open>state.byzantine_test.enabled && state.byzantine_test.<field>.contains(&state.order)\<close>.\<close>

definition byzantine :: "(byzantine_parameters \<Rightarrow> u64 set) \<Rightarrow> snowball_state \<Rightarrow> bool" where
  "byzantine idx st \<longleftrightarrow> bz_enabled (ss_byzantine_test st) \<and> ss_order st \<in> idx (ss_byzantine_test st)"

definition send_once ::
  "('w, 'm) node_env_scheme \<Rightarrow> peer_id \<Rightarrow> string \<Rightarrow> snowball_message \<Rightarrow> (unit, 'w machine) comp" where
  "send_once env peer message payload =
     bindM (unwrapM (UnwrapFailed ''to_string'') (encode_payload env payload)) (\<lambda>content.
     bindM (ioM (send_to env peer message content)) (\<lambda>r.
     thenM (expectM (ExpectFailed ''Failed to send message'') r)
     (upd_state set_message_sent)))"

text \<open>The test code that changes the vote and the sequence number of a message.\<close>

definition corrupt_payload ::
  "('w, 'm) env_scheme \<Rightarrow> snowball_state \<Rightarrow> snowball_message \<Rightarrow> (snowball_message, 'w machine) comp" where
  "corrupt_payload env st payload =
     (let payload = (if byzantine bz_wrong_decision_idx st then payload\<lparr>sm_vote := 0\<rparr> else payload) in
      if byzantine bz_spurious_idx st
      then bindM (random_value env usize_max) (\<lambda>r. returnM (payload\<lparr>sm_seq_num := of_nat r\<rparr>))
      else returnM payload)"

text \<open>The test code that delays and duplicates a message, and the loop that sends it.\<close>

definition transmit ::
  "('w, 'm) node_env_scheme \<Rightarrow> snowball_state \<Rightarrow> peer_id \<Rightarrow> string \<Rightarrow> snowball_message
     \<Rightarrow> (unit, 'w machine) comp" where
  "transmit env st peer message payload =
     thenM (whenM (byzantine bz_sleep_idx st)
       (bindM (random_value env (unat (bz_max_sleep_delay_millis (ss_byzantine_test st)))) (\<lambda>d.
        ioM (sleep env (from_millis (of_nat d))))))
     (let reps = (if byzantine bz_duplicate_idx st then 2 else 1)
      in forM [0..<reps] (\<lambda>_. send_once env peer message payload))"

definition send_peer_message ::
  "('w, 'm) node_env_scheme \<Rightarrow> peer_id \<Rightarrow> string \<Rightarrow> u8 \<Rightarrow> u64 \<Rightarrow> (unit, 'w machine) comp" where
  "send_peer_message env peer message v seq_num =
     bindM (getM mc_state) (\<lambda>st.
     if byzantine bz_hang_idx st then returnM ()
     else
       bindM (ioM (ask (ev_nonce env))) (\<lambda>nonce.
       let payload = snowball_message_new\<lparr>sm_vote := v, sm_nonce := nonce,
             sm_seq_num := seq_num, sm_message_type := message\<rparr> in
       bindM (corrupt_payload env st payload) (transmit env st peer message)))"

definition send_peer_notification ::
  "('w, 'm) node_env_scheme \<Rightarrow> peer_id \<Rightarrow> string \<Rightarrow> u64 \<Rightarrow> (unit, 'w machine) comp" where
  "send_peer_notification env peer message seq_num = send_peer_message env peer message 0 seq_num"

section \<open>Rounds of queries\<close>

definition prepare_and_forward_peer_requests ::
  "('w, 'm) node_env_scheme \<Rightarrow> nat list \<Rightarrow> (unit, 'w machine) comp" where
  "prepare_and_forward_peer_requests env sample =
     thenM (upd_state (ss_response_buffer_update (\<lambda>_. (0, 0))))
     (bindM (iter_indices env sample) (\<lambda>order.
      forM order (\<lambda>index.
        bindM (getM mc_state) (\<lambda>st.
        bindM (unwrapM (UnwrapFailed ''get'')
          (if index < length (ss_member_ids st) then Some (ss_member_ids st ! index) else None)) (\<lambda>peer.
        thenM (send_peer_notification env peer ''request'' (ss_seq_num st))
        (run_state (add_to_waiting_set env peer)))))))"

definition usize_to_decision_state :: "nat \<Rightarrow> (decision_state, 's) comp" where
  "usize_to_decision_state i =
     (if i = 0 then returnM KO else if i = 1 then returnM OK
      else panicM (ExplicitPanic ''Invalid value''))"

definition decision_state_to_u8 :: "decision_state \<Rightarrow> (u8, 's) comp" where
  "decision_state_to_u8 d = (case d of
       OK \<Rightarrow> returnM 1
     | KO \<Rightarrow> returnM 0
     | Undecided \<Rightarrow> panicM (ExplicitPanic ''Invalid conversion''))"

definition new_round :: "('w, 'm) node_env_scheme \<Rightarrow> (unit, 'w machine) comp" where
  "new_round env = bindM (getM (\<lambda>m. unat (ss_k (mc_state m)))) (\<lambda>k.
     bindM (select_node_sample env k) (prepare_and_forward_peer_requests env))"

section \<open>Deciding a block\<close>

text \<open>The validator's answer to the decision, and the record for the log collector.\<close>

definition apply_decision :: "('w, 'm) node_env_scheme \<Rightarrow> (u8, 'w machine) comp" where
  "apply_decision env =
     bindM (getM mc_state) (\<lambda>st.
     bindM (unwrapM (UnwrapFailed ''decision_map'') (ss_decision_map st (ss_seq_num st))) (\<lambda>decision.
     if decision = OK then
       bindM (ioM (commit_block env (ss_decision_block st))) (\<lambda>r.
       thenM (expectM (ExpectFailed ''Failed to commit block'') r)
       (thenM (upd_state (\<lambda>st. st\<lparr>ss_chain_head := ss_decision_block st\<rparr>))
       (returnM 1)))
     else
       bindM (ioM (fail_block env (ss_decision_block st))) (\<lambda>r.
       thenM (expectM (ExpectFailed ''Failed to fail block'') r)
       (returnM 0))))"

definition log_of_decision :: "('w, 'm) env_scheme \<Rightarrow> snowball_state \<Rightarrow> u128 \<Rightarrow> u8 \<Rightarrow> log_message" where
  "log_of_decision env st elapsed decision = log_message_new\<lparr>
     lm_block_id := ev_hex_encode env (ss_decision_block st),
     lm_n_messages := ms_n_messaggi_inviati (ss_measurements st),
     lm_elapsed_time := elapsed,
     lm_n_members := of_nat (length (ss_member_ids st)),
     lm_seq_num := ss_seq_num st,
     lm_alfa := ss_alfa st,
     lm_beta := ss_beta st,
     lm_k := ss_k st,
     lm_order := ss_order st,
     lm_byzantine := ss_byzantine_test st,
     lm_decision := decision,
     lm_hang_timeout := of_nat (as_millis (ss_hang_timeout st))\<rparr>"

definition handle_decision :: "('w, 'm) node_env_scheme \<Rightarrow> (unit, 'w machine) comp" where
  "handle_decision env =
     bindM (apply_decision env) (\<lambda>decision_u8.
     bindM (getM mc_state) (\<lambda>st.
     bindM (ioM (set_block_commit_timestamp env (ss_decision_block st) st)) (\<lambda>(elapsed, st').
     thenM (upd_state (\<lambda>_. st'))
     (thenM (ioM (http_client env))
     (bindM (unwrapM (UnwrapFailed ''to_string'')
        (nv_log_to_json env (log_of_decision env st' elapsed decision_u8))) (\<lambda>body.
     thenM (ioM (post env ''http://log.collector:5000/collect'' body))
     (thenM (modifyM (\<lambda>m. m\<lparr>mc_block_queue := tl (mc_block_queue m)\<rparr>))
     (thenM (whenM (ss_order st' = 0)
        (bindM (ioM (initialize_block env None)) (\<lambda>_. returnM ())))
     (upd_state switch_phase)))))))))"

text \<open>One turn of the loop \<open>for i in 0..=1\<close>; the result is the variable \<open>majority\<close>.\<close>

definition count_color ::
  "('w, 'm) node_env_scheme \<Rightarrow> nat \<Rightarrow> bool \<Rightarrow> (bool, 'w machine) comp" where
  "count_color env i majority =
     bindM (usize_to_decision_state i) (\<lambda>col_i.
     bindM (getM mc_state) (\<lambda>st.
     bindM (unwrapM (OutOfBounds ''response_buffer'') (at2 (ss_response_buffer st) i)) (\<lambda>votes.
     if votes \<ge> ss_alfa st then
       bindM (unwrapM (OutOfBounds ''decision_array'') (add2 (ss_decision_array st) i 1)) (\<lambda>array.
       thenM (upd_state (ss_decision_array_update (\<lambda>_. array)))
       (bindM (unwrapM (UnwrapFailed ''decision_map'') (ss_decision_map st (ss_seq_num st))) (\<lambda>current_color.
       bindM (decision_state_to_u8 current_color) (\<lambda>current.
       bindM (unwrapM (OutOfBounds ''decision_array'') (at2 array i)) (\<lambda>mine.
       bindM (unwrapM (OutOfBounds ''decision_array'') (at2 array (unat current))) (\<lambda>theirs.
       thenM (whenM (mine > theirs)
         (upd_state (\<lambda>st. st\<lparr>ss_decision_map := (ss_decision_map st)(ss_seq_num st \<mapsto> col_i)\<rparr>)))
       (thenM (if col_i \<noteq> ss_last_color st
          then upd_state (\<lambda>st. st\<lparr>ss_last_color := col_i, ss_confidence_counter := 1\<rparr>)
          else upd_state (\<lambda>st. st\<lparr>ss_confidence_counter := ss_confidence_counter st + 1\<rparr>))
       (thenM (bindM (getM mc_state) (\<lambda>st.
          if ss_confidence_counter st \<ge> ss_beta st then
            thenM (upd_state switch_phase) (handle_decision env)
          else new_round env))
       (returnM True)))))))))
     else returnM majority)))"

definition on_values_ready :: "('w, 'm) node_env_scheme \<Rightarrow> (unit, 'w machine) comp" where
  "on_values_ready env =
     bindM (foldM (count_color env) [0, 1] False) (\<lambda>majority.
     if \<not> majority then
       thenM (upd_state (ss_confidence_counter_update (\<lambda>_. 0))) (new_round env)
     else returnM ())"

section \<open>Starting the vote on a block\<close>

definition handle_block_new :: "('w, 'm) node_env_scheme \<Rightarrow> block_id \<Rightarrow> (unit, 'w machine) comp" where
  "handle_block_new env blk =
     thenM (upd_state (\<lambda>st. st\<lparr>ss_decision_block := blk, ss_seq_num := ss_seq_num st + 1\<rparr>))
     (let my_decision = OK in
      thenM (upd_state (\<lambda>st. st\<lparr>
        ss_decision_map := (ss_decision_map st)(ss_seq_num st \<mapsto> my_decision),
        ss_last_color := my_decision,
        ss_confidence_counter := 0,
        ss_decision_array := (0, 0)\<rparr>))
      (thenM (new_round env)
      (upd_state switch_phase)))"

text \<open>\<open>fail_block\<close>'s error is only logged, and the block stays at the front of the queue.\<close>

definition handle_queue :: "('w, 'm) node_env_scheme \<Rightarrow> (unit, 'w machine) comp" where
  "handle_queue env =
     bindM (getM mc_block_queue) (\<lambda>queue. case queue of
       [] \<Rightarrow> returnM ()
     | blk # _ \<Rightarrow>
       bindM (getM mc_state) (\<lambda>st.
       if block_id blk = ss_decision_block st then returnM ()
       else
         bindM (ioM (get_chain_head env)) (\<lambda>r.
         bindM (expectM (ExpectFailed ''Unable to get chain head.'') r) (\<lambda>chain_head_block.
         if block_num blk < block_num chain_head_block then
           bindM (ioM (fail_block env (block_id blk))) (\<lambda>_. returnM ())
         else
           bindM (ioM (check_blocks env [block_id blk])) (\<lambda>r.
           thenM (expectM (ExpectFailed ''Failed to check block'') r)
           (handle_block_new env (block_id blk)))))))"

section \<open>Replacing a peer\<close>

text \<open>
  The loop that looks for a peer not yet awaited occurs twice in the code, after an
  \<open>unavailable\<close> answer and after an expired timeout: samples of one are drawn until the map of
  awaited peers has grown by one, then that peer gets the request.
\<close>

definition await_extra_node ::
  "('w, 'm) node_env_scheme \<Rightarrow> nat \<Rightarrow> peer_id \<Rightarrow> (peer_id, 'w machine) comp" where
  "await_extra_node env index _ =
     bindM (getM (\<lambda>m. ss_member_ids (mc_state m))) (\<lambda>members.
     bindM (unwrapM (OutOfBounds ''member_ids'')
       (if index < length members then Some (members ! index) else None)) (\<lambda>peer.
     thenM (run_state (add_to_waiting_set env peer)) (returnM peer)))"

partial_function (option) replace_loop ::
  "('w, 'm) node_env_scheme \<Rightarrow> nat \<Rightarrow> peer_id \<Rightarrow> (peer_id, 'w machine) comp" where
  "replace_loop env target peer m =
     (if length (ss_waiting_response_map (mc_state m)) < target then
        bindM (select_node_sample env 1) (\<lambda>extra.
        bindM (iter_indices env extra) (\<lambda>order.
        bindM (foldM (await_extra_node env) order peer) (\<lambda>peer'.
        replace_loop env target peer'))) m
      else returnM peer m)"

definition request_other_peer :: "('w, 'm) node_env_scheme \<Rightarrow> (unit, 'w machine) comp" where
  "request_other_peer env =
     bindM (getM (\<lambda>m. length (ss_waiting_response_map (mc_state m)))) (\<lambda>missing_responses_len.
     bindM (replace_loop env (missing_responses_len + 1) []) (\<lambda>peer.
     bindM (getM (\<lambda>m. ss_seq_num (mc_state m))) (\<lambda>seq_num.
     send_peer_notification env peer ''request'' seq_num)))"

section \<open>Updates from the validator\<close>

definition on_block_new :: "('w, 'm) node_env_scheme \<Rightarrow> block \<Rightarrow> (bool, 'w machine) comp" where
  "on_block_new env blk =
     thenM (modifyM (\<lambda>m. m\<lparr>mc_block_queue := mc_block_queue m @ [blk]\<rparr>))
     (thenM (run_state (set_block_new_timestamp env (block_id blk)))
     (returnM True))"

definition on_block_valid :: "block_id \<Rightarrow> (bool, 'w machine) comp" where
  "on_block_valid _ = returnM True"

definition on_block_invalid :: "block_id \<Rightarrow> (bool, 'w machine) comp" where
  "on_block_invalid _ = returnM True"

definition on_block_commit :: "block_id \<Rightarrow> (bool, 'w machine) comp" where
  "on_block_commit _ = returnM True"

definition update_order :: "(unit, 'w machine) comp" where
  "update_order = bindM (getM mc_state) (\<lambda>st.
     bindM (get_order_index st (ss_id st)) (\<lambda>order. upd_state (ss_order_update (\<lambda>_. order))))"

definition on_peer_connected :: "peer_id \<Rightarrow> (bool, 'w machine) comp" where
  "on_peer_connected peer =
     bindM (getM (\<lambda>m. ss_member_ids (mc_state m))) (\<lambda>members.
     if peer \<in> set members then returnM True
     else
       thenM (upd_state (\<lambda>st. st\<lparr>ss_member_ids := ss_member_ids st @ [peer]\<rparr>))
       (thenM update_order (returnM True)))"

definition on_peer_disconnected :: "peer_id \<Rightarrow> (bool, 'w machine) comp" where
  "on_peer_disconnected peer =
     bindM (getM mc_state) (\<lambda>st.
     bindM (get_order_index st peer) (\<lambda>index.
     if unat index < length (ss_member_ids st) then
       thenM (upd_state (\<lambda>st. st\<lparr>ss_member_ids := remove_at (unat index) (ss_member_ids st)\<rparr>))
       (thenM update_order (returnM True))
     else panicM (OutOfBounds ''remove'')))"

definition on_request ::
  "('w, 'm) node_env_scheme \<Rightarrow> peer_id \<Rightarrow> snowball_message \<Rightarrow> (bool, 'w machine) comp" where
  "on_request env sender payload =
     bindM (getM mc_state) (\<lambda>st.
     if sm_seq_num payload > ss_seq_num st then
       thenM (send_peer_notification env sender ''unavailable'' (sm_seq_num payload)) (returnM False)
     else (case ss_decision_map st (sm_seq_num payload) of
         None \<Rightarrow> returnM False
       | Some seq_value \<Rightarrow>
         let current_value = (if seq_value = OK then 1 else 0) in
         thenM (send_peer_message env sender ''response'' current_value (ss_seq_num st))
         (returnM True)))"

definition on_response ::
  "('w, 'm) node_env_scheme \<Rightarrow> peer_id \<Rightarrow> snowball_message \<Rightarrow> (bool, 'w machine) comp" where
  "on_response env sender payload =
     bindM (getM mc_state) (\<lambda>st.
     if ss_phase st \<noteq> Listening then returnM False
     else if \<not> awaits (ss_waiting_response_map st) sender then returnM False
     else
       thenM (upd_state (\<lambda>st. st\<lparr>ss_waiting_response_map := AList.delete sender (ss_waiting_response_map st)\<rparr>))
       (if sm_vote payload \<noteq> 0 \<and> sm_vote payload \<noteq> 1 then returnM False
        else
          bindM (unwrapM (OutOfBounds ''response_buffer'')
            (add2 (ss_response_buffer st) (unat (sm_vote payload)) 1)) (\<lambda>buffer.
          thenM (upd_state (ss_response_buffer_update (\<lambda>_. buffer)))
          (thenM (whenM (fst buffer + snd buffer = ss_k st) (on_values_ready env))
          (returnM True)))))"

definition on_unavailable ::
  "('w, 'm) node_env_scheme \<Rightarrow> peer_id \<Rightarrow> (bool, 'w machine) comp" where
  "on_unavailable env sender =
     bindM (getM mc_state) (\<lambda>st.
     if ss_phase st \<noteq> Listening then returnM False
     else if \<not> awaits (ss_waiting_response_map st) sender then returnM False
     else
       thenM (upd_state (\<lambda>st. st\<lparr>ss_waiting_response_map := AList.delete sender (ss_waiting_response_map st)\<rparr>))
       (thenM (request_other_peer env)
       (returnM True)))"

definition on_peer_message ::
  "('w, 'm) node_env_scheme \<Rightarrow> string \<Rightarrow> peer_id \<Rightarrow> snowball_message \<Rightarrow> (bool, 'w machine) comp" where
  "on_peer_message env message sender payload =
     (if message = ''request'' then on_request env sender payload
      else if message = ''response'' then on_response env sender payload
      else if message = ''unavailable'' then on_unavailable env sender
      else returnM True)"

section \<open>Peers that do not answer\<close>

text \<open>The timers are checked on clones, so the ones in the map do not change.\<close>

definition collect_expired :: "('w, 'm) node_env_scheme \<Rightarrow> (peer_id list, 'w machine) comp" where
  "collect_expired env =
     bindM (getM (\<lambda>m. ss_waiting_response_map (mc_state m))) (\<lambda>waiting.
     bindM (iter_peers env (map fst waiting)) (\<lambda>order.
     foldM (\<lambda>peer expired. case map_of waiting peer of
         None \<Rightarrow> returnM expired
       | Some timeout \<Rightarrow>
         bindM (ioM (check_expired env timeout)) (\<lambda>(over, _).
         returnM (if over then List.insert peer expired else expired))) order []))"

definition drop_expired :: "('w, 'm) node_env_scheme \<Rightarrow> peer_id list \<Rightarrow> (nat, 'w machine) comp" where
  "drop_expired env expired =
     bindM (iter_peers env expired) (\<lambda>order.
     foldM (\<lambda>peer amount_to_add.
       thenM (upd_state (\<lambda>st. st\<lparr>ss_waiting_response_map := AList.delete peer (ss_waiting_response_map st)\<rparr>))
       (returnM (Suc amount_to_add))) order 0)"

definition handle_unresponsive_peers :: "('w, 'm) node_env_scheme \<Rightarrow> (unit, 'w machine) comp" where
  "handle_unresponsive_peers env =
     bindM (getM mc_state) (\<lambda>st.
     if byzantine bz_hang_idx st then returnM ()
     else
       bindM (collect_expired env) (\<lambda>expired.
       bindM (drop_expired env expired) (\<lambda>amount_to_add.
       forM [0..<amount_to_add] (\<lambda>_. request_other_peer env))))"

section \<open>Publishing\<close>

text \<open>The service call is repeated, one second apart, while the block is not ready.\<close>

partial_function (option) wait_until_ready ::
  "('w, 'm) env_scheme \<Rightarrow> (unit, 'w machine) comp \<Rightarrow> (sdk_error + 'a, 'w machine) comp
     \<Rightarrow> sdk_error + 'a \<Rightarrow> (sdk_error + 'a, 'w machine) comp" where
  "wait_until_ready env mark request r m =
     (if r = Inl BlockNotReady then
        thenM mark
        (thenM (ioM (sleep env (from_secs 1)))
        (bindM request (wait_until_ready env mark request))) m
      else returnM r m)"

definition create_consensus :: "bytes \<Rightarrow> bytes" where
  "create_consensus summary = as_bytes ''Snowball'' @ summary"

definition set_not_ready_to_summarize :: "bool \<Rightarrow> (unit, 'w machine) comp" where
  "set_not_ready_to_summarize b =
     modifyM (\<lambda>m. m\<lparr>mc_log_guard := (mc_log_guard m)\<lparr>lg_not_ready_to_summarize := b\<rparr>\<rparr>)"

definition set_not_ready_to_finalize :: "bool \<Rightarrow> (unit, 'w machine) comp" where
  "set_not_ready_to_finalize b =
     modifyM (\<lambda>m. m\<lparr>mc_log_guard := (mc_log_guard m)\<lparr>lg_not_ready_to_finalize := b\<rparr>\<rparr>)"

definition finalize_block :: "('w, 'm) node_env_scheme \<Rightarrow> (block_id, 'w machine) comp" where
  "finalize_block env =
     bindM (ioM (summarize_block env)) (\<lambda>summary.
     bindM (wait_until_ready env (set_not_ready_to_summarize True)
       (ioM (summarize_block env)) summary) (\<lambda>summary.
     thenM (set_not_ready_to_summarize False)
     (bindM (expectM (ExpectFailed ''Failed to summarize block'') summary) (\<lambda>summary.
     let consensus = create_consensus summary in
     bindM (ioM (finalize_block_svc env consensus)) (\<lambda>result.
     bindM (wait_until_ready env (set_not_ready_to_finalize True)
       (ioM (finalize_block_svc env consensus)) result) (\<lambda>result.
     thenM (set_not_ready_to_finalize False)
     (expectM (ExpectFailed ''Failed to finalize block'') result)))))))"

definition try_publish :: "('w, 'm) node_env_scheme \<Rightarrow> (unit, 'w machine) comp" where
  "try_publish env =
     bindM (getM mc_state) (\<lambda>st.
     if ss_phase st \<noteq> Idle then returnM ()
     else if ss_order st \<noteq> 0 then returnM ()
     else bindM (finalize_block env) (\<lambda>_. returnM ()))"

definition cancel_block :: "('w, 'm) node_env_scheme \<Rightarrow> (unit, 'w machine) comp" where
  "cancel_block env = bindM (ioM (cancel_block_svc env)) (\<lambda>r. case r of
       Inr _ \<Rightarrow> returnM ()
     | Inl _ \<Rightarrow> panicM (ExplicitPanic ''Failed to cancel block''))"

section \<open>Construction\<close>

definition node_new :: "('w, 'm) node_env_scheme \<Rightarrow> block \<Rightarrow> (unit, 'w machine) comp" where
  "node_new env chain_head =
     thenM (modifyM (\<lambda>m. m\<lparr>mc_log_guard := default_log_guard, mc_block_queue := []\<rparr>))
     (thenM (upd_state (ss_chain_head_update (\<lambda>_. block_id chain_head)))
     (bindM (getM mc_state) (\<lambda>st.
      whenM (ss_order st = 0)
        (bindM (ioM (initialize_block env None)) (\<lambda>_. returnM ())))))"

end
