(* ===== verification/Node_Sampling.thy ===== *)
theory Node_Sampling
  imports Node
begin

text \<open>
  The sampling loops: what a sample is when the loop returns, that it returns when enough peers
  are known and the generator reaches every index, that it never returns otherwise, and the same
  for the loop that replaces a peer.
\<close>

section \<open>Random values\<close>

text \<open>Two machines that differ in the state of the outside world only.\<close>

definition same_but_world :: "'w machine \<Rightarrow> 'w machine \<Rightarrow> bool" where
  "same_but_world m m' \<longleftrightarrow> mc_state m' = mc_state m \<and> mc_log_guard m' = mc_log_guard m
     \<and> mc_block_queue m' = mc_block_queue m \<and> io_trace (mc_io m') = io_trace (mc_io m)"

lemma same_but_world_refl [simp]: "same_but_world m m"
  by (simp add: same_but_world_def)

lemma same_but_world_trans: "same_but_world a b \<Longrightarrow> same_but_world b c \<Longrightarrow> same_but_world a c"
  by (simp add: same_but_world_def)

definition with_world :: "'w \<Rightarrow> 'w machine \<Rightarrow> 'w machine" where
  "with_world w m = m\<lparr>mc_io := (mc_io m)\<lparr>io_world := w\<rparr>\<rparr>"

lemma with_world_simps [simp]:
  "mc_state (with_world w m) = mc_state m"
  "mc_log_guard (with_world w m) = mc_log_guard m"
  "mc_block_queue (with_world w m) = mc_block_queue m"
  "io_trace (mc_io (with_world w m)) = io_trace (mc_io m)"
  "io_world (mc_io (with_world w m)) = w"
  "same_but_world m (with_world w m)"
  by (simp_all add: with_world_def same_but_world_def)

lemma random_value_eq:
  "random_value env n m = (case ev_uniform env n (io_world (mc_io m)) of
      None \<Rightarrow> Some (Panicked (LibraryPanic ''Uniform::new'') m)
    | Some (i, w) \<Rightarrow> Some (Return i (with_world w m)))"
  by (auto simp: random_value_def with_world_def split: option.split)

lemma random_value_wpx:
  assumes "lawful_uniform env" and "0 < n" and "\<And>i w. i < n \<Longrightarrow> Q i (with_world w m)"
  shows "wpx D E (random_value env n) Q m"
proof -
  obtain i w where "ev_uniform env n (io_world (mc_io m)) = Some (i, w)" "i < n"
    using lawful_uniform_Some [OF assms(1,2)] by blast
  with assms(3) show ?thesis by (simp add: wpx_def random_value_eq)
qed

section \<open>Samples\<close>

text \<open>The indices that may be sampled: those of the members other than the node itself.\<close>

definition others :: "'w machine \<Rightarrow> nat set" where
  "others m = {i. i < length (ss_member_ids (mc_state m)) \<and> i \<noteq> unat (ss_order (mc_state m))}"

definition order_valid :: "snowball_state \<Rightarrow> bool" where
  "order_valid st \<longleftrightarrow> unat (ss_order st) < length (ss_member_ids st)"

lemma finite_others [simp]: "finite (others m)"
  by (simp add: others_def)

lemma card_others: "order_valid (mc_state m) \<Longrightarrow> Suc (card (others m)) = length (ss_member_ids (mc_state m))"
proof -
  assume v: "order_valid (mc_state m)"
  have "others m = {..<length (ss_member_ids (mc_state m))} - {unat (ss_order (mc_state m))}"
    by (auto simp: others_def)
  with v show ?thesis by (simp add: order_valid_def)
qed

lemma others_cong: "mc_state m' = mc_state m \<Longrightarrow> others m' = others m"
  by (simp add: others_def)

definition sample_of :: "'w machine \<Rightarrow> nat \<Rightarrow> nat list \<Rightarrow> bool" where
  "sample_of m amount xs \<longleftrightarrow> distinct xs \<and> set xs \<subseteq> others m \<and> length xs = amount"

lemma sample_loop_partial:
  assumes "lawful_uniform env" and "order_valid (mc_state m)"
    and "distinct chosen" and "set chosen \<subseteq> others m" and "length chosen \<le> amount"
  shows "wpx True E (sample_loop env amount chosen)
    (\<lambda>xs m'. sample_of m amount xs \<and> same_but_world m m') m"
proof -
  let ?Q = "\<lambda>amount m xs m'. sample_of m amount xs \<and> same_but_world m m'"
  let ?pre = "\<lambda>env amount chosen m. lawful_uniform env \<and> order_valid (mc_state m) \<and> distinct chosen
    \<and> set chosen \<subseteq> others m \<and> length chosen \<le> amount"
  have "outcome_ok E (?Q amount m) r" if "sample_loop env amount chosen m = Some r" for r
  proof (rule sample_loop.raw_induct [where P = "\<lambda>env amount chosen m r.
        ?pre env amount chosen m \<longrightarrow> outcome_ok E (?Q amount m) r", OF _ that, THEN mp])
    fix rec env amount chosen r and m :: "'a machine"
    assume IH: "\<And>env amount chosen m r. rec env amount chosen m = Some r \<Longrightarrow>
        ?pre env amount chosen m \<longrightarrow> outcome_ok E (?Q amount m) r"
      and eq: "(if length chosen < amount
          then bindM (random_value env (length (ss_member_ids (mc_state m))))
            (\<lambda>choice. rec env amount
              (if choice \<noteq> unat (ss_order (mc_state m)) then List.insert choice chosen else chosen)) m
          else returnM chosen m) = Some r"
    show "?pre env amount chosen m \<longrightarrow> outcome_ok E (?Q amount m) r"
    proof
      assume pre: "?pre env amount chosen m"
      show "outcome_ok E (?Q amount m) r"
      proof (cases "length chosen < amount")
        case False
        with pre eq show ?thesis by (auto simp: outcome_ok_def returnM_def sample_of_def)
      next
        case True
        let ?n = "length (ss_member_ids (mc_state m))"
        have law: "lawful_uniform env" and pos: "0 < ?n" using pre by (auto simp: order_valid_def)
        then obtain i w where iw: "ev_uniform env ?n (io_world (mc_io m)) = Some (i, w)" "i < ?n"
          using lawful_uniform_Some [OF law pos] by blast
        let ?c = "if i \<noteq> unat (ss_order (mc_state m)) then List.insert i chosen else chosen"
        have "rec env amount ?c (with_world w m) = Some r"
          using eq True iw by (simp add: bindM_def random_value_eq)
        moreover have "?pre env amount ?c (with_world w m)"
          using pre True iw(2) by (auto simp: others_def List.insert_def)
        ultimately have "outcome_ok E (?Q amount (with_world w m)) r"
          using IH by blast
        moreover have "sample_of (with_world w m) = sample_of m" "same_but_world (with_world w m) = same_but_world m"
          by (auto simp: sample_of_def same_but_world_def others_def fun_eq_iff)
        ultimately show ?thesis by simp
      qed
    qed
  qed (use assms in auto)
  then show ?thesis by (simp add: wpx_outcome)
qed

subsection \<open>The loop returns\<close>

lemma sample_loop_done: "amount \<le> length chosen \<Longrightarrow> sample_loop env amount chosen m = Some (Return chosen m)"
  by (subst sample_loop.simps) (simp add: returnM_def)

lemma sample_loop_step:
  assumes "length chosen < amount"
    and "ev_uniform env (length (ss_member_ids (mc_state m))) (io_world (mc_io m)) = Some (i, w)"
  shows "sample_loop env amount chosen m = sample_loop env amount
    (if i \<noteq> unat (ss_order (mc_state m)) then List.insert i chosen else chosen) (with_world w m)"
  using assms by (subst sample_loop.simps) (simp add: bindM_def random_value_eq)

text \<open>Enough draws to reach an index that is not chosen yet make the set grow.\<close>

lemma sample_loop_grows:
  assumes grow: "\<And>chosen' w. length chosen < length chosen' \<Longrightarrow> distinct chosen' \<Longrightarrow>
      set chosen' \<subseteq> others m \<Longrightarrow> sample_loop env amount chosen' (with_world w m) \<noteq> None"
    and "distinct chosen" and "set chosen \<subseteq> others m" and "lawful_uniform env"
    and "length chosen < amount" and "i \<in> others m - set chosen"
    and "draw env (length (ss_member_ids (mc_state m))) j w = Some i"
  shows "sample_loop env amount chosen (with_world w m) \<noteq> None"
  using assms(7)
proof (induction j arbitrary: w)
  case 0
  let ?n = "length (ss_member_ids (mc_state m))"
  from 0 obtain w' where u: "ev_uniform env ?n w = Some (i, w')" by auto
  have "sample_loop env amount chosen (with_world w m)
      = sample_loop env amount (List.insert i chosen) (with_world w' m)"
    using sample_loop_step [of chosen amount env "with_world w m" i w'] assms(5,6) u
    by (auto simp: with_world_def others_def)
  moreover have "sample_loop env amount (List.insert i chosen) (with_world w' m) \<noteq> None"
    using assms(2,3,6) by (intro grow) auto
  ultimately show ?case by simp
next
  case (Suc j)
  let ?n = "length (ss_member_ids (mc_state m))"
  from Suc.prems obtain i' w' where u: "ev_uniform env ?n w = Some (i', w')"
    and d: "draw env ?n j w' = Some i"
    by (auto split: option.splits)
  have "i' < ?n"
    using lawful_uniform_less [OF assms(4) u] .
  let ?c = "if i' \<noteq> unat (ss_order (mc_state m)) then List.insert i' chosen else chosen"
  have eq: "sample_loop env amount chosen (with_world w m) = sample_loop env amount ?c (with_world w' m)"
    using sample_loop_step [of chosen amount env "with_world w m" i' w'] assms(5) u
    by (simp add: with_world_def)
  show ?case
  proof (cases "?c = chosen")
    case True
    with eq d Suc.IH show ?thesis by simp
  next
    case False
    then have "?c = i' # chosen" "i' \<noteq> unat (ss_order (mc_state m))" "i' \<notin> set chosen"
      by (auto simp: List.insert_def split: if_splits)
    then show ?thesis
      using eq grow [of "i' # chosen" w'] assms(2,3) \<open>i' < ?n\<close> by (simp add: others_def)
  qed
qed

lemma sample_loop_terminates:
  assumes "lawful_uniform env" and "fair_uniform env" and "amount \<le> card (others m)"
    and "distinct chosen" and "set chosen \<subseteq> others m"
  shows "sample_loop env amount chosen (with_world w m) \<noteq> None"
  using assms(4,5)
proof (induction "amount - length chosen" arbitrary: chosen w rule: less_induct)
  case less
  show ?case
  proof (cases "length chosen < amount")
    case False
    then show ?thesis by (simp add: sample_loop_done)
  next
    case True
    have "card (set chosen) < card (others m)"
      using True assms(3) distinct_card [OF less.prems(1)] by simp
    then have "\<not> others m \<subseteq> set chosen"
      using card_mono [of "set chosen" "others m"] by auto
    then obtain i where i: "i \<in> others m - set chosen" by auto
    then have "i < length (ss_member_ids (mc_state m))" by (simp add: others_def)
    then obtain j where "draw env (length (ss_member_ids (mc_state m))) j w = Some i"
      using assms(2) unfolding fair_uniform_def by blast
    then show ?thesis
      using sample_loop_grows [OF _ less.prems assms(1) True i] less.hyps True by simp
  qed
qed

lemma with_world_same [simp]: "with_world (io_world (mc_io m)) m = m"
  by (simp add: with_world_def)

text \<open>A set for the sample can be made, or panics are allowed.\<close>

definition capacity_ok :: "(panic \<Rightarrow> 'w machine \<Rightarrow> bool) \<Rightarrow> nat \<Rightarrow> bool" where
  "capacity_ok E amount \<longleftrightarrow> (\<forall>p m. E p m) \<or> amount \<le> set_capacity_max"

lemma capacity_ok_simps [simp]:
  "capacity_ok (\<lambda>_ _. True) n" "capacity_ok E (Suc 0)" "Suc 0 \<le> set_capacity_max" "set_capacity_max \<noteq> 0"
  by (simp_all add: capacity_ok_def set_capacity_max_def)

lemma capacity_ok_small [simp]: "n \<le> 2 ^ 56 \<Longrightarrow> capacity_ok E n"
  by (simp add: capacity_ok_def set_capacity_max_def)

lemma select_node_sample_wpx:
  assumes "lawful_uniform env" and "order_valid (mc_state m)" and "capacity_ok E amount"
    and "D \<or> fair_uniform env \<and> amount \<le> card (others m)"
    and "\<And>xs m'. sample_of m amount xs \<Longrightarrow> same_but_world m m' \<Longrightarrow> Q xs m'"
  shows "wpx D E (select_node_sample env amount) Q m"
proof (cases "amount \<le> set_capacity_max")
  case False
  then show ?thesis using assms(3) by (simp add: select_node_sample_def wp_simps capacity_ok_def)
next
  case True
  then have s: "select_node_sample env amount = sample_loop env amount []" by (simp add: select_node_sample_def)
  show ?thesis
    unfolding s
  proof (rule wpx_total)
    show "wpx True E (sample_loop env amount []) Q m"
      using sample_loop_partial [OF assms(1,2), of "[]" amount E]
      by (rule wpx_conseq) (auto intro: assms(5))
    show "D \<or> sample_loop env amount [] m \<noteq> None"
      using assms(4) sample_loop_terminates [of env amount m "[]" "io_world (mc_io m)"] assms(1) by auto
  qed
qed

subsection \<open>The loop does not return\<close>

text \<open>With fewer other members than the sample needs, no generator makes the loop return.\<close>

lemma select_node_sample_diverges:
  assumes "lawful_uniform env" and "order_valid (mc_state m)" and "card (others m) < amount"
  shows "select_node_sample env amount m = (if amount \<le> set_capacity_max then None
    else Some (Panicked (LibraryPanic ''capacity overflow'') m))"
proof -
  have "wpx True (\<lambda>_ _. False) (sample_loop env amount [])
      (\<lambda>xs m'. sample_of m amount xs \<and> same_but_world m m') m"
    using assms by (intro sample_loop_partial) auto
  moreover have "\<not> sample_of m amount xs" for xs
    using assms(3) card_mono [of "others m" "set xs"] distinct_card [of xs]
    by (auto simp: sample_of_def)
  ultimately show ?thesis
    by (auto simp: select_node_sample_def panicM_def wpx_def split: option.splits outcome.splits)
qed

end
