(* ===== verification/Node_Replace.thy ===== *)
theory Node_Replace
  imports Node_Sampling
begin

text \<open>
  The calculus rules of the machine's own operations, and the loop that looks for a peer that is
  not awaited yet: what it changes, which peer it finds, and that it returns.
\<close>

section \<open>Rules of the machine's operations\<close>

abbreviation waiting :: "'w machine \<Rightarrow> (peer_id \<times> timeout) list" where
  "waiting m \<equiv> ss_waiting_response_map (mc_state m)"

abbreviation members :: "'w machine \<Rightarrow> peer_id list" where
  "members m \<equiv> ss_member_ids (mc_state m)"

lemma wpx_ioM [wp_simps]:
  "wpx D E (ioM c) Q m
     = wpx D (\<lambda>p io. E p (m\<lparr>mc_io := io\<rparr>)) c (\<lambda>a io. Q a (m\<lparr>mc_io := io\<rparr>)) (mc_io m)"
  by (simp add: ioM_def wp_simps)

lemma wpx_upd_state [wp_simps]:
  "wpx D E (upd_state f) Q m = Q () (m\<lparr>mc_state := f (mc_state m)\<rparr>)"
  by (simp add: upd_state_def wp_simps)

lemma wpx_run_state:
  "wpx D E (run_state f) Q m
     = wpx D (\<lambda>p io. E p (m\<lparr>mc_io := io\<rparr>)) (f (mc_state m))
         (\<lambda>st io. Q () (m\<lparr>mc_io := io, mc_state := st\<rparr>)) (mc_io m)"
  by (simp add: run_state_def wp_simps)

lemma wpx_iter_indices [wp_simps]:
  "wpx D E (iter_indices env xs) Q m = Q (ev_iter_indices env (io_world (mc_io m)) xs) m"
  by (simp add: iter_indices_def wp_simps)

lemma wpx_iter_peers [wp_simps]:
  "wpx D E (iter_peers env xs) Q m = Q (ev_iter_peers env (io_world (mc_io m)) xs) m"
  by (simp add: iter_peers_def wp_simps)

lemma iter_indices_lawful:
  assumes "lawful_iteration env" and "distinct xs"
  shows "distinct (ev_iter_indices env w xs)" and "set (ev_iter_indices env w xs) = set xs"
    and "length (ev_iter_indices env w xs) = length xs"
  using assms distinct_card [of xs] distinct_card [of "ev_iter_indices env w xs"]
  by (auto simp: lawful_iteration_def)

lemma iter_peers_lawful:
  assumes "lawful_iteration env" and "distinct xs"
  shows "distinct (ev_iter_peers env w xs)" and "set (ev_iter_peers env w xs) = set xs"
    and "length (ev_iter_peers env w xs) = length xs"
  using assms distinct_card [of xs] distinct_card [of "ev_iter_peers env w xs"]
  by (auto simp: lawful_iteration_def)

lemma iter_indices_single: "lawful_iteration env \<Longrightarrow> ev_iter_indices env w [i] = [i]"
  using iter_indices_lawful [of env "[i]" w] by (cases "ev_iter_indices env w [i]") auto

section \<open>Awaiting a peer\<close>

text \<open>The machine after \<open>add_to_waiting_set\<close>: the clock is read twice, by \<open>new\<close> and \<open>start\<close>.\<close>

definition await_at :: "('w, 'm) env_scheme \<Rightarrow> peer_id \<Rightarrow> 'w machine \<Rightarrow> 'w machine" where
  "await_at env peer m =
     (let w1 = snd (ev_now env (io_world (mc_io m)));
          (t, w2) = ev_now env w1;
          timeout = \<lparr>tm_state = Active, tm_duration = ss_hang_timeout (mc_state m), tm_start = t\<rparr>
      in (with_world w2 m)\<lparr>mc_state := (mc_state m)
           \<lparr>ss_waiting_response_map := AList.update peer timeout (waiting m)\<rparr>\<rparr>)"

lemma run_add_to_waiting_set:
  "run_state (add_to_waiting_set env peer) m = Some (Return () (await_at env peer m))"
  by (simp add: run_state_def add_to_waiting_set_def timeout_new_def timeout_start_def now_def ask_def
      bindM_def returnM_def getM_def ioM_def zoomM_def upd_state_def modifyM_def await_at_def
      with_world_def Let_def split: prod.splits)

lemma wpx_add_to_waiting_set [wp_simps]:
  "wpx D E (run_state (add_to_waiting_set env peer)) Q m = Q () (await_at env peer m)"
  by (simp add: wpx_def run_add_to_waiting_set)

text \<open>Machines that differ in the awaited peers and the state of the world only.\<close>

definition same_but_waiting :: "'w machine \<Rightarrow> 'w machine \<Rightarrow> bool" where
  "same_but_waiting m m' \<longleftrightarrow>
     (\<exists>w. mc_state m' = (mc_state m)\<lparr>ss_waiting_response_map := w\<rparr>)
     \<and> mc_log_guard m' = mc_log_guard m \<and> mc_block_queue m' = mc_block_queue m
     \<and> io_trace (mc_io m') = io_trace (mc_io m)"

lemma same_but_waiting_refl [simp]: "same_but_waiting m m"
  by (auto simp: same_but_waiting_def intro: exI [where x = "waiting m"])

lemma same_but_waiting_trans:
  "same_but_waiting a b \<Longrightarrow> same_but_waiting b c \<Longrightarrow> same_but_waiting a c"
  by (auto simp: same_but_waiting_def)

lemma same_but_world_waiting: "same_but_world m m' \<Longrightarrow> same_but_waiting m m'"
  by (auto simp: same_but_waiting_def same_but_world_def intro: exI [where x = "waiting m"])

lemma await_at_frame [simp]: "same_but_waiting m (await_at env peer m)"
  by (auto simp: same_but_waiting_def await_at_def Let_def split: prod.splits)

lemma await_at_waiting:
  "\<exists>t. waiting (await_at env peer m) = AList.update peer t (waiting m)"
  by (auto simp: await_at_def Let_def split: prod.splits)

lemma await_at_awaits [simp]:
  "awaits (waiting (await_at env peer m)) q \<longleftrightarrow> q = peer \<or> awaits (waiting m) q"
  using await_at_waiting [of env peer m] by (auto simp: wm.awaited_await)

lemma await_at_keys [simp]:
  "keys_distinct (waiting m) \<Longrightarrow> keys_distinct (waiting (await_at env peer m))"
  using await_at_waiting [of env peer m] by (auto simp: wm.wf_await)

lemma await_at_length:
  "keys_distinct (waiting m) \<Longrightarrow> length (waiting (await_at env peer m))
     = (if awaits (waiting m) peer then length (waiting m) else Suc (length (waiting m)))"
  using await_at_waiting [of env peer m] by (auto simp: wm.size_await_new wm.size_await_old)

lemma same_but_waiting_others: "same_but_waiting m m' \<Longrightarrow> others m' = others m"
  by (auto simp: same_but_waiting_def others_def)

lemma same_but_waiting_members: "same_but_waiting m m' \<Longrightarrow> members m' = members m"
  by (auto simp: same_but_waiting_def)

lemma same_but_waiting_order_valid:
  "same_but_waiting m m' \<Longrightarrow> order_valid (mc_state m') = order_valid (mc_state m)"
  by (auto simp: same_but_waiting_def order_valid_def)

section \<open>One turn of the loop\<close>

lemma replace_loop_done:
  "target \<le> length (waiting m) \<Longrightarrow> replace_loop env target peer m = Some (Return peer m)"
  by (subst replace_loop.simps) (simp add: returnM_def)

lemma replace_loop_step:
  assumes "length (waiting m) < target" and "lawful_iteration env"
    and "select_node_sample env 1 m = Some (Return [i] m1)" and "i < length (members m1)"
  shows "replace_loop env target peer m
    = replace_loop env target (members m1 ! i) (await_at env (members m1 ! i) m1)"
  using assms
  by (subst replace_loop.simps)
    (simp add: bindM_def iter_indices_def getM_def await_extra_node_def unwrapM_def thenM_def
      run_add_to_waiting_set returnM_def iter_indices_single)

text \<open>What a sample of one is.\<close>

lemma sample_of_1: "sample_of m 1 xs \<longleftrightarrow> (\<exists>i. xs = [i] \<and> i \<in> others m)"
  by (cases xs; cases "tl xs") (auto simp: sample_of_def)

lemma select_one:
  assumes "lawful_uniform env" and "order_valid (mc_state m)"
  shows "select_node_sample env 1 m = None \<or> (\<exists>i m1. select_node_sample env 1 m = Some (Return [i] m1)
    \<and> i \<in> others m \<and> same_but_world m m1)"
proof -
  have "safe (select_node_sample env 1) (\<lambda>xs m'. sample_of m 1 xs \<and> same_but_world m m') m"
    using assms by (intro select_node_sample_wpx) auto
  then show ?thesis
    unfolding wpx_def sample_of_1 by (auto split: option.splits outcome.splits)
qed

text \<open>The peer that the loop finds: another member, not awaited before and awaited now.\<close>

definition replaced :: "'w machine \<Rightarrow> peer_id \<Rightarrow> 'w machine \<Rightarrow> bool" where
  "replaced m peer m' \<longleftrightarrow> (\<exists>i\<in>others m. peer = members m ! i)
     \<and> \<not> awaits (waiting m) peer \<and> (\<forall>q. awaits (waiting m') q \<longleftrightarrow> q = peer \<or> awaits (waiting m) q)
     \<and> keys_distinct (waiting m') \<and> length (waiting m') = Suc (length (waiting m))
     \<and> same_but_waiting m m'"

lemma replaced_step:
  assumes "keys_distinct (waiting m)" and "same_but_world m m1" and "i \<in> others m"
    and "\<not> awaits (waiting m) (members m ! i)"
  shows "replaced m (members m ! i) (await_at env (members m ! i) m1)"
  using assms same_but_waiting_trans [OF same_but_world_waiting [OF assms(2)] await_at_frame]
  by (auto simp: replaced_def same_but_world_def await_at_length)

lemma replaced_later:
  assumes "replaced m2 peer m'" and "same_but_waiting m m2"
    and "\<And>q. awaits (waiting m2) q = awaits (waiting m) q" and "length (waiting m2) = length (waiting m)"
  shows "replaced m peer m'"
  using assms same_but_waiting_others [OF assms(2)] same_but_waiting_members [OF assms(2)]
  by (auto simp: replaced_def intro: same_but_waiting_trans)

text \<open>
  The induction also covers the last turn, where the map has reached its target and the loop
  gives back the peer it was passed.
\<close>

definition replace_post :: "nat \<Rightarrow> peer_id \<Rightarrow> 'w machine \<Rightarrow> (panic \<Rightarrow> 'w machine \<Rightarrow> bool)
    \<Rightarrow> (peer_id, 'w machine) outcome \<Rightarrow> bool" where
  "replace_post target peer m E r \<longleftrightarrow>
     (target = Suc (length (waiting m)) \<longrightarrow> outcome_ok E (replaced m) r) \<and>
     (target = length (waiting m) \<longrightarrow> r = Return peer m)"

definition replace_pre :: "('w, 'm) env_scheme \<Rightarrow> 'w machine \<Rightarrow> bool" where
  "replace_pre env m \<longleftrightarrow> lawful_uniform env \<and> lawful_iteration env
     \<and> order_valid (mc_state m) \<and> keys_distinct (waiting m)"

lemma replace_post_step:
  assumes "replace_pre env m" and "same_but_world m m1" and "i \<in> others m"
    and "target = Suc (length (waiting m))"
    and "replace_post target (members m ! i) (await_at env (members m ! i) m1) E r"
  shows "replace_post target peer m E r"
proof -
  let ?p = "members m ! i" and ?m2 = "await_at env (members m ! i) m1"
  have w: "waiting m1 = waiting m" using assms(2) by (simp add: same_but_world_def)
  have keys: "keys_distinct (waiting m)" using assms(1) by (simp add: replace_pre_def)
  have fr: "same_but_waiting m ?m2"
    using same_but_waiting_trans [OF same_but_world_waiting [OF assms(2)] await_at_frame] .
  have "outcome_ok E (replaced m) r"
  proof (cases "awaits (waiting m) ?p")
    case True
    then have len: "length (waiting ?m2) = length (waiting m)" using w keys by (simp add: await_at_length)
    with assms(4,5) have "outcome_ok E (replaced ?m2) r" by (simp add: replace_post_def)
    moreover have "replaced m q m'" if "replaced ?m2 q m'" for q m'
      using that fr by (rule replaced_later) (use True w len in auto)
    ultimately show ?thesis by (auto simp: outcome_ok_def split: outcome.splits)
  next
    case False
    with w keys assms(4,5) have "r = Return ?p ?m2"
      by (simp add: replace_post_def await_at_length)
    with replaced_step [OF keys assms(2,3) False] show ?thesis by (simp add: outcome_ok_def)
  qed
  with assms(4) show ?thesis by (simp add: replace_post_def)
qed

lemma replace_pre_step:
  assumes "replace_pre env m" and "same_but_world m m1"
  shows "replace_pre env (await_at env peer m1)"
proof -
  have "same_but_waiting m (await_at env peer m1)"
    using same_but_waiting_trans [OF same_but_world_waiting [OF assms(2)] await_at_frame] .
  moreover have "keys_distinct (waiting m1)"
    using assms by (simp add: replace_pre_def same_but_world_def)
  ultimately show ?thesis
    using assms(1) by (simp add: replace_pre_def same_but_waiting_order_valid)
qed

lemma replace_loop_post:
  assumes "replace_loop env target peer m = Some r" and "replace_pre env m"
    and "target \<le> Suc (length (waiting m))"
  shows "replace_post target peer m E r"
proof (rule replace_loop.raw_induct [where P = "\<lambda>env target peer m r.
      replace_pre env m \<and> target \<le> Suc (length (waiting m)) \<longrightarrow> replace_post target peer m E r",
      OF _ assms(1), THEN mp])
  fix rec r target peer and m :: "'a machine" and env :: "('a, 'b) node_env_scheme"
  assume IH: "\<And>env target peer m r. rec env target peer m = Some r \<Longrightarrow>
        replace_pre env m \<and> target \<le> Suc (length (waiting m)) \<longrightarrow> replace_post target peer m E r"
    and eq: "(if length (waiting m) < target
        then bindM (select_node_sample env 1) (\<lambda>extra. bindM (iter_indices env extra)
          (\<lambda>order. bindM (foldM (await_extra_node env) order peer) (rec env target))) m
        else returnM peer m) = Some r"
  show "replace_pre env m \<and> target \<le> Suc (length (waiting m)) \<longrightarrow> replace_post target peer m E r"
  proof
    assume pre: "replace_pre env m \<and> target \<le> Suc (length (waiting m))"
    show "replace_post target peer m E r"
    proof (cases "length (waiting m) < target")
      case False
      with eq pre show ?thesis by (auto simp: returnM_def replace_post_def)
    next
      case True
      then obtain i m1 where s: "select_node_sample env 1 m = Some (Return [i] m1)"
          "i \<in> others m" "same_but_world m m1"
        using eq pre select_one [of env m] by (fastforce simp: bindM_def replace_pre_def)
      have mem: "members m1 = members m" "waiting m1 = waiting m" "i < length (members m)"
        "lawful_iteration env" "keys_distinct (waiting m)"
        using s pre by (auto simp: same_but_world_def others_def replace_pre_def)
      have "rec env target (members m ! i) (await_at env (members m ! i) m1) = Some r"
        using eq True s(1) mem
        by (simp add: bindM_def iter_indices_def getM_def await_extra_node_def unwrapM_def thenM_def
            run_add_to_waiting_set returnM_def iter_indices_single)
      moreover have "target \<le> Suc (length (waiting (await_at env (members m ! i) m1)))"
        using pre mem by (simp add: await_at_length)
      ultimately have "replace_post target (members m ! i) (await_at env (members m ! i) m1) E r"
        using IH replace_pre_step [OF _ s(3)] pre by blast
      with pre True show ?thesis
        by (intro replace_post_step [OF _ s(3,2)]) auto
    qed
  qed
qed (use assms in auto)

section \<open>The loop returns\<close>

text \<open>
  Reading a clock does not change what the generator will draw: the two are independent devices.
\<close>

definition clock_independent :: "('w, 'm) env_scheme \<Rightarrow> bool" where
  "clock_independent env \<longleftrightarrow> (\<forall>n j w. draw env n j (snd (ev_now env w)) = draw env n j w)"

lemma draw_await_at:
  assumes "clock_independent env"
  shows "draw env n j (io_world (mc_io (await_at env peer m))) = draw env n j (io_world (mc_io m))"
proof -
  have "io_world (mc_io (await_at env peer m))
      = snd (ev_now env (snd (ev_now env (io_world (mc_io m)))))"
    by (simp add: await_at_def Let_def split: prod.splits)
  with assms show ?thesis by (simp add: clock_independent_def)
qed

text \<open>A sample of one takes the first draw that is not the node itself.\<close>

lemma select_one_draws:
  assumes "lawful_uniform env" and "i \<in> others m"
    and "draw env (length (members m)) j w = Some i"
  shows "\<exists>c i' w'. c \<le> j \<and> sample_loop env 1 [] (with_world w m) = Some (Return [i'] (with_world w' m))
    \<and> i' \<in> others m \<and> (c = j \<longrightarrow> i' = i)
    \<and> (c < j \<longrightarrow> draw env (length (members m)) (j - Suc c) w' = Some i)"
  using assms(3)
proof (induction j arbitrary: w)
  case 0
  then obtain w' where u: "ev_uniform env (length (members m)) w = Some (i, w')" by auto
  have "sample_loop env 1 [] (with_world w m) = Some (Return [i] (with_world w' m))"
    using sample_loop_step [of "[]" 1 env "with_world w m" i w'] u assms(2)
    by (simp add: with_world_def others_def sample_loop_done)
  with assms(2) show ?case by blast
next
  case (Suc j)
  then obtain k w1 where u: "ev_uniform env (length (members m)) w = Some (k, w1)"
    and d: "draw env (length (members m)) j w1 = Some i"
    by (auto split: option.splits)
  have k: "k < length (members m)" using lawful_uniform_less [OF assms(1) u] .
  show ?case
  proof (cases "k = unat (ss_order (mc_state m))")
    case False
    then have "sample_loop env 1 [] (with_world w m) = Some (Return [k] (with_world w1 m))"
      using sample_loop_step [of "[]" 1 env "with_world w m" k w1] u
      by (simp add: with_world_def sample_loop_done)
    moreover have "k \<in> others m" using False k by (simp add: others_def)
    ultimately show ?thesis
      using d by (intro exI [where x = 0] exI [where x = k] exI [where x = w1]) simp
  next
    case True
    then have eq: "sample_loop env 1 [] (with_world w m) = sample_loop env 1 [] (with_world w1 m)"
      using sample_loop_step [of "[]" 1 env "with_world w m" k w1] u by (simp add: with_world_def)
    obtain c i' w' where c: "c \<le> j" "i' \<in> others m" "c = j \<longrightarrow> i' = i"
        "c < j \<longrightarrow> draw env (length (members m)) (j - Suc c) w' = Some i"
        "sample_loop env 1 [] (with_world w1 m) = Some (Return [i'] (with_world w' m))"
      using Suc.IH [OF d] by blast
    then show ?thesis
      using eq by (intro exI [where x = "Suc c"] exI [where x = i'] exI [where x = w']) auto
  qed
qed

lemma replace_loop_terminates:
  assumes "replace_pre env m" and "clock_independent env" and "i \<in> others m"
    and "\<not> awaits (waiting m) (members m ! i)"
    and "draw env (length (members m)) j (io_world (mc_io m)) = Some i"
  shows "replace_loop env (Suc (length (waiting m))) peer m \<noteq> None"
  using assms(1,3,4,5)
proof (induction j arbitrary: m peer rule: less_induct)
  case (less j)
  have law: "lawful_uniform env" "lawful_iteration env" "keys_distinct (waiting m)"
    using less.prems(1) by (simp_all add: replace_pre_def)
  obtain c i' w' where c: "c \<le> j" "i' \<in> others m" "c = j \<longrightarrow> i' = i"
      "c < j \<longrightarrow> draw env (length (members m)) (j - Suc c) w' = Some i"
      "sample_loop env 1 [] m = Some (Return [i'] (with_world w' m))"
    using select_one_draws [OF law(1) less.prems(2,4)] by auto
  let ?p = "members m ! i'" and ?m2 = "await_at env (members m ! i') (with_world w' m)"
  have step: "replace_loop env (Suc (length (waiting m))) peer m
      = replace_loop env (Suc (length (waiting m))) ?p ?m2"
    using replace_loop_step [of m "Suc (length (waiting m))" env i' "with_world w' m" peer] law c(2,5)
    by (simp add: select_node_sample_def others_def)
  have fr: "same_but_waiting m ?m2"
    by (rule same_but_waiting_trans [OF same_but_world_waiting await_at_frame]) simp
  show ?case
  proof (cases "awaits (waiting m) ?p")
    case False
    then have "length (waiting ?m2) = Suc (length (waiting m))"
      using law(3) by (simp add: await_at_length)
    with step show ?thesis by (simp add: replace_loop_done)
  next
    case True
    then have "i' \<noteq> i" using less.prems(3) by auto
    with c have lt: "c < j" by auto
    have len: "length (waiting ?m2) = length (waiting m)"
      using True law(3) by (simp add: await_at_length)
    have "replace_loop env (Suc (length (waiting ?m2))) ?p ?m2 \<noteq> None"
    proof (rule less.IH [of "j - Suc c"])
      show "j - Suc c < j" using lt by simp
      show "replace_pre env ?m2" using replace_pre_step [OF less.prems(1)] by simp
      show "i \<in> others ?m2" using less.prems(2) same_but_waiting_others [OF fr] by simp
      show "\<not> awaits (waiting ?m2) (members ?m2 ! i)"
        using less.prems(3) True same_but_waiting_members [OF fr] by auto
      show "draw env (length (members ?m2)) (j - Suc c) (io_world (mc_io ?m2)) = Some i"
        using c(4) lt assms(2) same_but_waiting_members [OF fr] by (simp add: draw_await_at)
    qed
    with step len show ?thesis by simp
  qed
qed

text \<open>The whole specification of the loop, as \<open>request_other_peer\<close> uses it.\<close>

lemma replace_loop_wpx:
  assumes "replace_pre env m"
    and "D \<or> fair_uniform env \<and> clock_independent env \<and> (\<exists>i\<in>others m. \<not> awaits (waiting m) (members m ! i))"
    and "\<And>peer m'. replaced m peer m' \<Longrightarrow> Q peer m'"
  shows "wpx D E (replace_loop env (Suc (length (waiting m))) p0) Q m"
proof (rule wpx_total)
  have "wpx True E (replace_loop env (Suc (length (waiting m))) p0) (replaced m) m"
    using replace_loop_post [OF _ assms(1)] by (auto simp: wpx_outcome replace_post_def)
  then show "wpx True E (replace_loop env (Suc (length (waiting m))) p0) Q m"
    by (rule wpx_conseq) (rule assms(3))
  show "D \<or> replace_loop env (Suc (length (waiting m))) p0 m \<noteq> None"
  proof (cases D)
    case False
    with assms(2) obtain i where fair: "fair_uniform env" "clock_independent env"
        and i: "i \<in> others m" "\<not> awaits (waiting m) (members m ! i)"
      by blast
    then obtain j where "draw env (length (members m)) j (io_world (mc_io m)) = Some i"
      unfolding fair_uniform_def others_def by blast
    with replace_loop_terminates [OF assms(1) fair(2) i] show ?thesis by blast
  qed simp
qed

end
