(* ===== verification/Node_Sending.thy ===== *)
theory Node_Sending
  imports Node_Replace
begin

text \<open>
  What sending a message does, Byzantine test code included, and what a round of requests does:
  which peers are asked, what they are sent, and who is awaited afterwards. The rules hold for
  every reading of the calculus: \<open>env_ok\<close> lists what the outside world must guarantee when
  panics (\<open>E\<close>) or divergence (\<open>D\<close>) are to be excluded, and nothing more when they are not.
\<close>

section \<open>What the outside world must guarantee\<close>

definition env_ok ::
  "bool \<Rightarrow> (panic \<Rightarrow> 'w machine \<Rightarrow> bool) \<Rightarrow> ('w, 'm) node_env_scheme \<Rightarrow> bool" where
  "env_ok D E env \<longleftrightarrow> lawful_uniform env \<and> lawful_iteration env
     \<and> (D \<or> fair_uniform env \<and> clock_independent env)
     \<and> ((\<forall>p m. E p m) \<or> reliable_service env \<and> lawful_message_json env \<and> lawful_log_json env)"

lemma env_okD:
  assumes "env_ok D E env"
  shows "lawful_uniform env" and "lawful_iteration env"
    and "\<not> D \<Longrightarrow> fair_uniform env" and "\<not> D \<Longrightarrow> clock_independent env"
    and "\<not> E p m \<Longrightarrow> reliable_service env" and "\<not> E p m \<Longrightarrow> lawful_message_json env"
    and "\<not> E p m \<Longrightarrow> lawful_log_json env"
  using assms by (auto simp: env_ok_def)

text \<open>A node that is to sleep before sending needs a positive maximal delay.\<close>

definition delay_ok :: "(panic \<Rightarrow> 'w machine \<Rightarrow> bool) \<Rightarrow> snowball_state \<Rightarrow> bool" where
  "delay_ok E st \<longleftrightarrow> (\<forall>p m. E p m) \<or> 0 < unat (bz_max_sleep_delay_millis (ss_byzantine_test st))"

section \<open>Frames\<close>

text \<open>
  Queries change the awaited peers, the message count, the world and the trace; \<open>core\<close> is
  everything else.
\<close>

definition core_state :: "snowball_state \<Rightarrow> snowball_state" where
  "core_state st = st\<lparr>ss_waiting_response_map := [],
     ss_measurements := (ss_measurements st)\<lparr>ms_n_messaggi_inviati := 0\<rparr>\<rparr>"

definition core :: "'w machine \<Rightarrow> snowball_state \<times> log_guard \<times> block list" where
  "core m = (core_state (mc_state m), mc_log_guard m, mc_block_queue m)"

definition queried :: "'w machine \<Rightarrow> 'w machine \<Rightarrow> bool" where
  "queried m m' \<longleftrightarrow> core m' = core m"

lemma queried_refl [simp]: "queried m m"
  by (simp add: queried_def)

lemma queried_trans: "queried a b \<Longrightarrow> queried b c \<Longrightarrow> queried a c"
  by (simp add: queried_def)

lemma same_but_waiting_queried: "same_but_waiting m m' \<Longrightarrow> queried m m'"
  by (auto simp: queried_def core_def core_state_def same_but_waiting_def)

lemma same_but_world_queried: "same_but_world m m' \<Longrightarrow> queried m m'"
  by (rule same_but_waiting_queried) (rule same_but_world_waiting)

lemma core_state_field:
  assumes "core_state st' = core_state st" and "\<And>st. f (core_state st) = f st"
  shows "f st' = f st"
  using arg_cong [OF assms(1), of f] by (simp add: assms(2))

lemma queriedD:
  assumes "queried m m'"
  shows "mc_log_guard m' = mc_log_guard m" and "mc_block_queue m' = mc_block_queue m"
    and "ss_id (mc_state m') = ss_id (mc_state m)"
    and "ss_order (mc_state m') = ss_order (mc_state m)"
    and "ss_seq_num (mc_state m') = ss_seq_num (mc_state m)"
    and "ss_alfa (mc_state m') = ss_alfa (mc_state m)"
    and "ss_beta (mc_state m') = ss_beta (mc_state m)"
    and "ss_k (mc_state m') = ss_k (mc_state m)"
    and "ss_decision_map (mc_state m') = ss_decision_map (mc_state m)"
    and "ss_last_color (mc_state m') = ss_last_color (mc_state m)"
    and "ss_confidence_counter (mc_state m') = ss_confidence_counter (mc_state m)"
    and "ss_response_buffer (mc_state m') = ss_response_buffer (mc_state m)"
    and "ss_decision_array (mc_state m') = ss_decision_array (mc_state m)"
    and "ss_chain_head (mc_state m') = ss_chain_head (mc_state m)"
    and "ss_decision_block (mc_state m') = ss_decision_block (mc_state m)"
    and "ss_phase (mc_state m') = ss_phase (mc_state m)"
    and "members m' = members m"
    and "ss_byzantine_test (mc_state m') = ss_byzantine_test (mc_state m)"
    and "ss_hang_timeout (mc_state m') = ss_hang_timeout (mc_state m)"
    and "ms_convergenza (ss_measurements (mc_state m')) = ms_convergenza (ss_measurements (mc_state m))"
proof -
  show "mc_log_guard m' = mc_log_guard m" and "mc_block_queue m' = mc_block_queue m"
    using assms by (simp_all add: queried_def core_def)
qed ((rule core_state_field, use assms in \<open>simp add: queried_def core_def\<close>,
    simp add: core_state_def)+)

lemma queried_derived:
  assumes "queried m m'"
  shows "others m' = others m"
    and "order_valid (mc_state m') = order_valid (mc_state m)"
    and "delay_ok E (mc_state m') = delay_ok E (mc_state m)"
    and "byzantine f (mc_state m') = byzantine f (mc_state m)"
  using queriedD [OF assms] by (simp_all add: others_def order_valid_def delay_ok_def byzantine_def)

section \<open>Sending\<close>

definition repetitions :: "snowball_state \<Rightarrow> nat" where
  "repetitions st = (if byzantine bz_duplicate_idx st then 2 else 1)"

text \<open>The bytes of a message from a node in state \<open>st\<close>, as the test code may have changed it.\<close>

definition message_bytes ::
  "('w, 'm) node_env_scheme \<Rightarrow> snowball_state \<Rightarrow> string \<Rightarrow> u8 \<Rightarrow> u64 \<Rightarrow> bytes \<Rightarrow> bool" where
  "message_bytes env st message v seq_num content \<longleftrightarrow> (\<exists>payload.
     encode_payload env payload = Some content \<and> sm_message_type payload = message
     \<and> sm_vote payload = (if byzantine bz_wrong_decision_idx st then 0 else v)
     \<and> (\<not> byzantine bz_spurious_idx st \<longrightarrow> sm_seq_num payload = seq_num))"

definition sent ::
  "('w, 'm) node_env_scheme \<Rightarrow> peer_id \<Rightarrow> string \<Rightarrow> u8 \<Rightarrow> u64 \<Rightarrow> 'w machine \<Rightarrow> 'w machine \<Rightarrow> bool" where
  "sent env peer message v seq_num m m' \<longleftrightarrow>
     (if byzantine bz_hang_idx (mc_state m) then m' = m
      else queried m m' \<and> waiting m' = waiting m
        \<and> ms_n_messaggi_inviati (ss_measurements (mc_state m'))
            = ms_n_messaggi_inviati (ss_measurements (mc_state m)) + of_nat (repetitions (mc_state m))
        \<and> (\<exists>content slept. message_bytes env (mc_state m) message v seq_num content
           \<and> (slept = [] \<or> byzantine bz_sleep_idx (mc_state m) \<and> (\<exists>d. slept = [Slept d]))
           \<and> io_trace (mc_io m') = io_trace (mc_io m) @ slept
               @ replicate (repetitions (mc_state m)) (SendTo peer message content)))"

lemma send_once_wpx:
  assumes "env_ok D E env" and "encode_payload env payload = Some content"
    and "\<And>m'. queried m m' \<Longrightarrow> waiting m' = waiting m \<Longrightarrow>
      ms_n_messaggi_inviati (ss_measurements (mc_state m')) = ms_n_messaggi_inviati (ss_measurements (mc_state m)) + 1 \<Longrightarrow>
      io_trace (mc_io m') = io_trace (mc_io m) @ [SendTo peer message content] \<Longrightarrow> Q () m'"
  shows "wpx D E (send_once env peer message payload) Q m"
proof -
  have "E e t'" if "fst (ev_send_to env p t c w) = Inl x" for p t c w e t' x
    using env_okD(5) [OF assms(1), of e t'] that by (cases "E e t'") (auto simp: reliable_service_def)
  then show ?thesis
    using assms(2)
    by (auto simp: send_once_def send_to_def set_message_sent_def wp_simps queried_def core_def
        core_state_def split: sum.splits intro!: assms(3))
qed

lemma encode_payload_lawful: "lawful_message_json env \<Longrightarrow> \<exists>content. encode_payload env p = Some content"
  by (fastforce simp: lawful_message_json_def encode_payload_def)

text \<open>The repetitions that the duplicate test asks for: the same bytes, once or twice.\<close>

lemma send_repeated_wpx:
  assumes "env_ok D E env" and "encode_payload env payload = Some content"
    and "\<And>m'. queried m m' \<Longrightarrow> waiting m' = waiting m \<Longrightarrow>
      ms_n_messaggi_inviati (ss_measurements (mc_state m')) = ms_n_messaggi_inviati (ss_measurements (mc_state m)) + of_nat reps \<Longrightarrow>
      io_trace (mc_io m') = io_trace (mc_io m) @ replicate reps (SendTo peer message content) \<Longrightarrow> Q () m'"
  shows "wpx D E (forM [0..<reps] (\<lambda>_. send_once env peer message payload)) Q m"
proof -
  let ?I = "\<lambda>i m'. queried m m' \<and> waiting m' = waiting m
    \<and> ms_n_messaggi_inviati (ss_measurements (mc_state m')) = ms_n_messaggi_inviati (ss_measurements (mc_state m)) + of_nat i
    \<and> io_trace (mc_io m') = io_trace (mc_io m) @ replicate i (SendTo peer message content)"
  have "wpx D E (forM [0..<reps] (\<lambda>_. send_once env peer message payload)) (\<lambda>_. ?I (length [0..<reps])) m"
  proof (rule wpx_forM)
    show "?I 0 m" by simp
    fix i t
    assume "?I i t"
    then show "wpx D E (send_once env peer message payload) (\<lambda>_. ?I (Suc i)) t"
      by (intro send_once_wpx [OF assms(1,2)])
        (auto simp: replicate_append_same intro: queried_trans)
  qed
  then show ?thesis
    by (rule wpx_conseq) (use assms(3) in auto)
qed

text \<open>The fields that the test code leaves, and how it changes the others.\<close>

definition payload_ok :: "snowball_state \<Rightarrow> string \<Rightarrow> u8 \<Rightarrow> u64 \<Rightarrow> snowball_message \<Rightarrow> bool" where
  "payload_ok st message v seq_num payload \<longleftrightarrow> sm_message_type payload = message
     \<and> sm_vote payload = (if byzantine bz_wrong_decision_idx st then 0 else v)
     \<and> (\<not> byzantine bz_spurious_idx st \<longrightarrow> sm_seq_num payload = seq_num)"

lemma message_bytesI:
  "payload_ok st message v seq_num payload \<Longrightarrow> encode_payload env payload = Some content
    \<Longrightarrow> message_bytes env st message v seq_num content"
  by (auto simp: message_bytes_def payload_ok_def)

lemma corrupt_payload_wpx:
  assumes "lawful_uniform env" and "sm_message_type payload = message" and "sm_vote payload = v"
    and "sm_seq_num payload = seq_num"
    and "\<And>p m'. payload_ok st message v seq_num p \<Longrightarrow> same_but_world m m' \<Longrightarrow> Q p m'"
  shows "wpx D E (corrupt_payload env st payload) Q m"
  using assms(2-4)
  by (auto simp: corrupt_payload_def wp_simps Let_def payload_ok_def usize_max_def
      intro!: random_value_wpx [OF assms(1)] assms(5))

lemma repeat_wpx:
  assumes "env_ok D E env" and "payload_ok (mc_state m) message v seq_num payload"
    and "\<not> byzantine bz_hang_idx (mc_state m)"
    and "queried m m1" "waiting m1 = waiting m"
    and "ms_n_messaggi_inviati (ss_measurements (mc_state m1)) = ms_n_messaggi_inviati (ss_measurements (mc_state m))"
    and "io_trace (mc_io m1) = io_trace (mc_io m) @ slept"
    and "slept = [] \<or> byzantine bz_sleep_idx (mc_state m) \<and> (\<exists>d. slept = [Slept d])"
    and "\<And>m'. sent env peer message v seq_num m m' \<Longrightarrow> Q () m'"
  shows "wpx D E (forM [0..<repetitions (mc_state m)] (\<lambda>_. send_once env peer message payload)) Q m1"
proof (cases "encode_payload env payload")
  case None
  then have "E p t" for p t
    using env_okD(6) [OF assms(1)] encode_payload_lawful [of env payload] by fastforce
  with None show ?thesis
    by (simp add: send_once_def wp_simps repetitions_def upt_rec)
next
  case (Some content)
  show ?thesis
  proof (rule send_repeated_wpx [OF assms(1) Some])
    fix m' :: "'a machine"
    assume r: "queried m1 m'" "waiting m' = waiting m1"
      "ms_n_messaggi_inviati (ss_measurements (mc_state m'))
        = ms_n_messaggi_inviati (ss_measurements (mc_state m1)) + of_nat (repetitions (mc_state m))"
      "io_trace (mc_io m') = io_trace (mc_io m1)
        @ replicate (repetitions (mc_state m)) (SendTo peer message content)"
    have "queried m m'" using assms(4) r(1) by (rule queried_trans)
    then have "sent env peer message v seq_num m m'"
      using r assms(3-8) message_bytesI [OF assms(2) Some] unfolding sent_def by auto
    then show "Q () m'" by (rule assms(9))
  qed
qed

lemma transmit_wpx:
  assumes "env_ok D E env" and "delay_ok E (mc_state m)"
    and "payload_ok (mc_state m) message v seq_num payload"
    and "\<not> byzantine bz_hang_idx (mc_state m)" and "same_but_world m m1"
    and "\<And>m'. sent env peer message v seq_num m m' \<Longrightarrow> Q () m'"
  shows "wpx D E (transmit env (mc_state m) peer message payload) Q m1"
proof -
  let ?st = "mc_state m"
  let ?n = "unat (bz_max_sleep_delay_millis (ss_byzantine_test ?st))"
  let ?loop = "forM [0..<repetitions ?st] (\<lambda>_. send_once env peer message payload)"
  have loop: "wpx D E ?loop Q m2"
    if "mc_state m2 = ?st" "mc_log_guard m2 = mc_log_guard m" "mc_block_queue m2 = mc_block_queue m"
      "io_trace (mc_io m2) = io_trace (mc_io m) @ slept"
      "slept = [] \<or> byzantine bz_sleep_idx ?st \<and> (\<exists>d. slept = [Slept d])" for m2 slept
    by (rule repeat_wpx [OF assms(1,3,4), where slept = slept])
      (use that assms(6) in \<open>auto simp: queried_def core_def\<close>)
  have "wpx D E ?loop Q m1"
    using assms(5) by (intro loop [of m1 "[]"]) (auto simp: same_but_world_def)
  moreover have "wpx D E (random_value env ?n) (\<lambda>d. wpx D E (ioM (sleep env (from_millis (of_nat d))))
      (\<lambda>_. wpx D E ?loop Q)) m1" if s: "byzantine bz_sleep_idx ?st"
  proof (cases "0 < ?n")
    case False
    with assms(2) have "E p t" for p t by (simp add: delay_ok_def)
    moreover have "ev_uniform env 0 (io_world (mc_io m1)) = None"
      using env_okD(1) [OF assms(1)] by (simp add: lawful_uniform_def)
    ultimately show ?thesis using False by (simp add: wpx_def random_value_eq)
  next
    case True
    have "wpx D E (ioM (sleep env (from_millis (of_nat d)))) (\<lambda>_. wpx D E ?loop Q) (with_world w m1)"
      for d w
      unfolding sleep_def wpx_ioM wpx_call
      by (rule loop [of _ "[Slept (from_millis (of_nat d))]"])
        (use assms(5) s in \<open>auto simp: same_but_world_def\<close>)
    then show ?thesis
      by (intro random_value_wpx [OF env_okD(1) [OF assms(1)] True])
  qed
  ultimately show ?thesis
    by (simp add: transmit_def wp_simps flip: repetitions_def)
qed

lemma send_peer_message_wpx:
  assumes "env_ok D E env" and "delay_ok E (mc_state m)"
    and "\<And>m'. sent env peer message v seq_num m m' \<Longrightarrow> Q () m'"
  shows "wpx D E (send_peer_message env peer message v seq_num) Q m"
proof (cases "byzantine bz_hang_idx (mc_state m)")
  case True
  with assms(3) [of m] show ?thesis
    by (simp add: send_peer_message_def wp_simps sent_def)
next
  case False
  have "wpx D E (transmit env (mc_state m) peer message p) Q m1"
    if "payload_ok (mc_state m) message v seq_num p" "same_but_world m m1" for p m1
    using transmit_wpx [OF assms(1,2) that(1) False that(2)] assms(3) by blast
  then show ?thesis
    using False env_okD(1) [OF assms(1)]
    by (auto simp: send_peer_message_def wp_simps Let_def same_but_world_def
        intro!: corrupt_payload_wpx [where message = message and v = v and seq_num = seq_num])
qed

lemma send_peer_notification_wpx:
  assumes "env_ok D E env" and "delay_ok E (mc_state m)"
    and "\<And>m'. sent env peer message 0 seq_num m m' \<Longrightarrow> Q () m'"
  shows "wpx D E (send_peer_notification env peer message seq_num) Q m"
  unfolding send_peer_notification_def using assms by (rule send_peer_message_wpx)

lemma sent_queried: "sent env peer message v seq_num m m' \<Longrightarrow> queried m m' \<and> waiting m' = waiting m"
  by (simp add: sent_def split: if_splits)

end
