(* ===== verification/Node_Rounds.thy ===== *)
theory Node_Rounds
  imports Node_Sending
begin

text \<open>
  A round of queries: the request that each sampled peer gets, the peers awaited afterwards, and
  the request to the replacement of a peer that gave no answer.
\<close>

section \<open>Requests\<close>

text \<open>The events of one request from a node in state \<open>st\<close> to peer \<open>p\<close>.\<close>

definition request_events ::
  "('w, 'm) node_env_scheme \<Rightarrow> snowball_state \<Rightarrow> peer_id \<Rightarrow> event list \<Rightarrow> bool" where
  "request_events env st p es \<longleftrightarrow>
     (if byzantine bz_hang_idx st then es = []
      else \<exists>content slept. message_bytes env st ''request'' 0 (ss_seq_num st) content
        \<and> (slept = [] \<or> byzantine bz_sleep_idx st \<and> (\<exists>d. slept = [Slept d]))
        \<and> es = slept @ replicate (repetitions st) (SendTo p ''request'' content))"

lemma request_events_cong:
  assumes "ss_byzantine_test st' = ss_byzantine_test st" and "ss_order st' = ss_order st"
    and "ss_seq_num st' = ss_seq_num st"
  shows "request_events env st' = request_events env st"
proof -
  have "byzantine f st' = byzantine f st" for f
    using assms by (simp add: byzantine_def)
  with assms(3) show ?thesis
    by (intro ext) (simp add: request_events_def message_bytes_def repetitions_def)
qed

lemma request_events_queried:
  "queried m m' \<Longrightarrow> request_events env (mc_state m') = request_events env (mc_state m)"
  by (rule request_events_cong) (simp_all add: queriedD)

lemma sent_request_events:
  assumes "sent env p ''request'' 0 (ss_seq_num (mc_state m)) m m'"
  shows "\<exists>es. request_events env (mc_state m) p es \<and> io_trace (mc_io m') = io_trace (mc_io m) @ es"
  using assms by (auto simp: sent_def request_events_def split: if_splits)

section \<open>Starting a round\<close>

definition clear_buffer :: "'w machine \<Rightarrow> 'w machine" where
  "clear_buffer m = m\<lparr>mc_state := (mc_state m)\<lparr>ss_response_buffer := (0, 0)\<rparr>\<rparr>"

definition round_started ::
  "('w, 'm) node_env_scheme \<Rightarrow> 'w machine \<Rightarrow> peer_id list \<Rightarrow> 'w machine \<Rightarrow> bool" where
  "round_started env m ps m' \<longleftrightarrow>
     queried (clear_buffer m) m' \<and> keys_distinct (waiting m')
     \<and> (\<forall>q. awaits (waiting m') q \<longleftrightarrow> awaits (waiting m) q \<or> q \<in> set ps)
     \<and> length (waiting m') = length (waiting m) + length ps
     \<and> (\<exists>ess. list_all2 (request_events env (mc_state m)) ps ess
          \<and> io_trace (mc_io m') = io_trace (mc_io m) @ concat ess)"

lemma clear_buffer_simps [simp]:
  "members (clear_buffer m) = members m" "waiting (clear_buffer m) = waiting m"
  "mc_io (clear_buffer m) = mc_io m" "mc_block_queue (clear_buffer m) = mc_block_queue m"
  "ss_seq_num (mc_state (clear_buffer m)) = ss_seq_num (mc_state m)"
  "ss_byzantine_test (mc_state (clear_buffer m)) = ss_byzantine_test (mc_state m)"
  "ss_order (mc_state (clear_buffer m)) = ss_order (mc_state m)"
  by (simp_all add: clear_buffer_def)

lemma request_events_clear [simp]:
  "request_events env (mc_state (clear_buffer m)) = request_events env (mc_state m)"
  by (rule request_events_cong) simp_all

text \<open>One turn of the loop adds one peer.\<close>

lemma request_step_wpx:
  assumes ok: "env_ok D E env" "delay_ok E (mc_state m)"
    and r: "round_started env m ps m1"
    and i: "i < length (members m)" "members m ! i \<notin> set ps" "\<not> awaits (waiting m) (members m ! i)"
  shows "wpx D E (bindM (getM mc_state) (\<lambda>st.
        bindM (unwrapM (UnwrapFailed ''get'')
          (if i < length (ss_member_ids st) then Some (ss_member_ids st ! i) else None)) (\<lambda>peer.
        thenM (send_peer_notification env peer ''request'' (ss_seq_num st))
        (run_state (add_to_waiting_set env peer)))))
      (\<lambda>_. round_started env m (ps @ [members m ! i])) m1"
proof -
  let ?p = "members m ! i"
  have q: "queried (clear_buffer m) m1" using r by (simp add: round_started_def)
  note eqs = queriedD [OF q] queried_derived [OF q]
  have dl: "delay_ok E (mc_state m1)"
    using ok(2) eqs(18) by (simp add: delay_ok_def)
  have "round_started env m (ps @ [?p]) (await_at env ?p m2)"
    if s: "sent env ?p ''request'' 0 (ss_seq_num (mc_state m1)) m1 m2" for m2
  proof -
    have m2: "queried m1 m2" "waiting m2 = waiting m1" using sent_queried [OF s] by auto
    obtain es where es: "request_events env (mc_state m1) ?p es"
      "io_trace (mc_io m2) = io_trace (mc_io m1) @ es"
      using sent_request_events [OF s] by blast
    have ev: "request_events env (mc_state m1) = request_events env (mc_state m)"
      using request_events_queried [OF q] by simp
    have tr: "io_trace (mc_io (await_at env ?p m2)) = io_trace (mc_io m2)"
      using await_at_frame [of m2 env ?p] by (auto simp: same_but_waiting_def)
    obtain ess where ess: "list_all2 (request_events env (mc_state m)) ps ess"
      "io_trace (mc_io m1) = io_trace (mc_io m) @ concat ess"
      using r unfolding round_started_def by blast
    have "queried (clear_buffer m) (await_at env ?p m2)"
      using q m2(1) same_but_waiting_queried [OF await_at_frame] by (blast intro: queried_trans)
    moreover have "keys_distinct (waiting m1)" "\<not> awaits (waiting m1) ?p"
      "length (waiting m1) = length (waiting m) + length ps"
      using r i(2,3) by (simp_all add: round_started_def)
    moreover have "awaits (waiting m1) x \<longleftrightarrow> awaits (waiting m) x \<or> x \<in> set ps" for x
      using r by (simp add: round_started_def)
    moreover have "list_all2 (request_events env (mc_state m)) (ps @ [?p]) (ess @ [es])"
      using ess(1) es(1) ev by (simp add: list_all2_appendI)
    moreover have "io_trace (mc_io (await_at env ?p m2)) = io_trace (mc_io m) @ concat (ess @ [es])"
      using tr es(2) ess(2) by simp
    ultimately show ?thesis
      unfolding round_started_def using m2(2) by (auto simp: await_at_length)
  qed
  then show ?thesis
    using i(1) eqs(17) by (auto simp: wp_simps intro!: send_peer_notification_wpx [OF ok(1) dl])
qed

lemma prepare_and_forward_wpx:
  assumes ok: "env_ok D E env" "delay_ok E (mc_state m)"
    and m: "distinct (members m)" "keys_distinct (waiting m)"
    and xs: "sample_of m amount xs" "\<forall>i\<in>set xs. \<not> awaits (waiting m) (members m ! i)"
    and Q: "\<And>ps m'. distinct ps \<Longrightarrow> set ps = (!) (members m) ` set xs \<Longrightarrow> length ps = amount \<Longrightarrow>
      round_started env m ps m' \<Longrightarrow> Q () m'"
  shows "wpx D E (prepare_and_forward_peer_requests env xs) Q m"
proof -
  let ?o = "ev_iter_indices env (io_world (mc_io m)) xs"
  have o: "distinct ?o" "set ?o = set xs" "length ?o = length xs"
    using iter_indices_lawful [OF env_okD(2) [OF ok(1)], of xs] xs(1) by (auto simp: sample_of_def)
  have rng: "?o ! i < length (members m)" if "i < length ?o" for i
    using that o(2) nth_mem [OF that] xs(1) by (auto simp: sample_of_def others_def)
  have dist: "distinct (map ((!) (members m)) ?o)"
    using o(1,2) inj_on_nth [OF m(1), of "set xs"] xs(1)
    by (auto simp: distinct_map sample_of_def others_def)
  let ?I = "\<lambda>i. round_started env m (take i (map ((!) (members m)) ?o))"
  let ?body = "\<lambda>index. bindM (getM mc_state) (\<lambda>st.
        bindM (unwrapM (UnwrapFailed ''get'')
          (if index < length (ss_member_ids st) then Some (ss_member_ids st ! index) else None)) (\<lambda>peer.
        thenM (send_peer_notification env peer ''request'' (ss_seq_num st))
        (run_state (add_to_waiting_set env peer))))"
  have "wpx D E (forM ?o ?body) (\<lambda>_. ?I (length ?o)) (clear_buffer m)"
  proof (rule wpx_forM)
    show "?I 0 (clear_buffer m)" using m(2) by (simp add: round_started_def)
    fix i t
    assume i: "i < length ?o" and t: "?I i t"
    have "members m ! (?o ! i) \<notin> set (take i (map ((!) (members m)) ?o))"
      using dist i by (auto simp: in_set_conv_nth distinct_conv_nth)
    moreover have "\<not> awaits (waiting m) (members m ! (?o ! i))"
      using xs(2) o(2) nth_mem [OF i] by auto
    ultimately show "wpx D E (?body (?o ! i)) (\<lambda>_. ?I (Suc i)) t"
      using request_step_wpx [OF ok t rng [OF i]] i by (simp add: take_Suc_conv_app_nth)
  qed
  then have "wpx D E (forM ?o ?body) Q (clear_buffer m)"
    by (rule wpx_conseq)
      (use Q [of "map ((!) (members m)) ?o"] dist o xs(1) in \<open>auto simp: sample_of_def\<close>)
  then show ?thesis
    by (simp add: prepare_and_forward_peer_requests_def wp_simps clear_buffer_def)
qed

text \<open>A fresh round: as many different other members as the sample size are asked.\<close>

definition asked_peers :: "'w machine \<Rightarrow> peer_id list \<Rightarrow> bool" where
  "asked_peers m ps \<longleftrightarrow> distinct ps \<and> set ps \<subseteq> (!) (members m) ` others m
     \<and> length ps = unat (ss_k (mc_state m))"

lemma new_round_wpx:
  assumes ok: "env_ok D E env" "delay_ok E (mc_state m)"
    and m: "distinct (members m)" "order_valid (mc_state m)" "waiting m = []"
    and k: "D \<or> unat (ss_k (mc_state m)) \<le> card (others m)" "capacity_ok E (unat (ss_k (mc_state m)))"
    and Q: "\<And>ps m'. asked_peers m ps \<Longrightarrow> round_started env m ps m' \<Longrightarrow> Q () m'"
  shows "wpx D E (new_round env) Q m"
proof -
  have "wpx D E (prepare_and_forward_peer_requests env xs) Q m1"
    if xs: "sample_of m (unat (ss_k (mc_state m))) xs" and w: "same_but_world m m1" for xs m1
  proof (rule prepare_and_forward_wpx [OF ok(1)])
    have eq: "mc_state m1 = mc_state m" using w by (simp add: same_but_world_def)
    with ok(2) show "delay_ok E (mc_state m1)" by simp
    from eq m show "distinct (members m1)" "keys_distinct (waiting m1)"
      "\<forall>i\<in>set xs. \<not> awaits (waiting m1) (members m1 ! i)"
      by (auto simp: keys_distinct_def awaits_def)
    from eq xs show "sample_of m1 (unat (ss_k (mc_state m))) xs" by (simp add: sample_of_def others_def)
    fix ps m'
    assume ps: "distinct ps" "set ps = (!) (members m1) ` set xs"
      "length ps = unat (ss_k (mc_state m))" "round_started env m1 ps m'"
    have "asked_peers m ps"
      using ps(1-3) eq xs by (auto simp: asked_peers_def sample_of_def)
    moreover have "round_started env m ps m'"
      using ps(4) w by (auto simp: round_started_def clear_buffer_def queried_def core_def same_but_world_def)
    ultimately show "Q () m'" by (rule Q)
  qed
  then show ?thesis
    using k by (auto simp: new_round_def wp_simps env_okD [OF ok(1)]
        intro!: select_node_sample_wpx m(2))
qed

section \<open>Asking another peer\<close>

definition other_peer_asked ::
  "('w, 'm) node_env_scheme \<Rightarrow> 'w machine \<Rightarrow> peer_id \<Rightarrow> 'w machine \<Rightarrow> bool" where
  "other_peer_asked env m peer m' \<longleftrightarrow> (\<exists>i\<in>others m. peer = members m ! i)
     \<and> \<not> awaits (waiting m) peer \<and> (\<forall>q. awaits (waiting m') q \<longleftrightarrow> q = peer \<or> awaits (waiting m) q)
     \<and> keys_distinct (waiting m') \<and> length (waiting m') = Suc (length (waiting m))
     \<and> queried m m'
     \<and> (\<exists>es. request_events env (mc_state m) peer es \<and> io_trace (mc_io m') = io_trace (mc_io m) @ es)"

lemma request_other_peer_wpx:
  assumes ok: "env_ok D E env" "delay_ok E (mc_state m)"
    and m: "order_valid (mc_state m)" "keys_distinct (waiting m)"
    and free: "D \<or> (\<exists>i\<in>others m. \<not> awaits (waiting m) (members m ! i))"
    and Q: "\<And>peer m'. other_peer_asked env m peer m' \<Longrightarrow> Q () m'"
  shows "wpx D E (request_other_peer env) Q m"
proof -
  have "wpx D E (send_peer_notification env peer ''request'' (ss_seq_num (mc_state m1))) Q m1"
    if r: "replaced m peer m1" for peer m1
  proof (rule send_peer_notification_wpx [OF ok(1)])
    have fr: "same_but_waiting m m1" using r by (simp add: replaced_def)
    have q: "queried m m1" using same_but_waiting_queried [OF fr] .
    show "delay_ok E (mc_state m1)" using ok(2) by (simp add: queried_derived(3) [OF q])
    fix m'
    assume s: "sent env peer ''request'' 0 (ss_seq_num (mc_state m1)) m1 m'"
    then obtain es where es: "request_events env (mc_state m1) peer es"
      "io_trace (mc_io m') = io_trace (mc_io m1) @ es"
      using sent_request_events by blast
    have "request_events env (mc_state m1) = request_events env (mc_state m)"
      by (rule request_events_queried [OF q])
    moreover have "io_trace (mc_io m1) = io_trace (mc_io m)"
      using fr by (simp add: same_but_waiting_def)
    ultimately have "other_peer_asked env m peer m'"
      using r es sent_queried [OF s] q
      by (auto simp: other_peer_asked_def replaced_def intro: queried_trans)
    then show "Q () m'" by (rule Q)
  qed
  moreover have "replace_pre env m"
    using env_okD(1,2) [OF ok(1)] m by (simp add: replace_pre_def)
  ultimately show ?thesis
    using free env_okD(3,4) [OF ok(1)]
    by (auto simp: request_other_peer_def wp_simps intro!: replace_loop_wpx)
qed

end
