(* ===== verification/Node_Deciding.thy ===== *)
theory Node_Deciding
  imports Node_Rounds
begin

text \<open>
  The decision on a block and the evaluation of a complete round of answers: which colour the
  node moves to, when a new round starts, when the block is committed or failed, and which
  calls the validator gets.
\<close>

section \<open>Deciding\<close>

text \<open>The machine after a decision on the current block.\<close>

definition decided :: "('w, 'm) node_env_scheme \<Rightarrow> 'w machine \<Rightarrow> 'w machine \<Rightarrow> bool" where
  "decided env m m' \<longleftrightarrow> (\<exists>d elapsed body chain st.
     let st0 = mc_state m; b = ss_decision_block st0 in
     ss_decision_map st0 (ss_seq_num st0) = Some d
     \<and> chain = (if d = OK then b else ss_chain_head st0)
     \<and> st = st0\<lparr>ss_chain_head := chain, ss_measurements := (ss_measurements st0)
          \<lparr>ms_convergenza := (ms_convergenza (ss_measurements st0))(b \<mapsto> elapsed)\<rparr>\<rparr>
     \<and> mc_state m' = switch_phase st
     \<and> mc_log_guard m' = mc_log_guard m
     \<and> mc_block_queue m' = tl (mc_block_queue m)
     \<and> nv_log_to_json env (log_of_decision env st elapsed (if d = OK then 1 else 0)) = Some body
     \<and> io_trace (mc_io m') = io_trace (mc_io m)
         @ [if d = OK then CommitBlock b else FailBlock b, Posted ''http://log.collector:5000/collect'' body]
         @ (if ss_order st0 = 0 then [InitializeBlock None] else []))"

lemma apply_decision_wpx:
  assumes ok: "env_ok D E env"
    and dec: "ss_decision_map (mc_state m) (ss_seq_num (mc_state m)) = Some d"
    and Q: "\<And>m'. mc_state m' = (mc_state m)\<lparr>ss_chain_head :=
          if d = OK then ss_decision_block (mc_state m) else ss_chain_head (mc_state m)\<rparr> \<Longrightarrow>
      mc_log_guard m' = mc_log_guard m \<Longrightarrow> mc_block_queue m' = mc_block_queue m \<Longrightarrow>
      io_trace (mc_io m') = io_trace (mc_io m)
           @ [if d = OK then CommitBlock (ss_decision_block (mc_state m))
              else FailBlock (ss_decision_block (mc_state m))] \<Longrightarrow>
      Q (if d = OK then 1 else 0) m'"
  shows "wpx D E (apply_decision env) Q m"
proof -
  have commit: "E e t" if "fst (ev_commit_block env b w) = Inl x" for b w x e t
    using env_okD(5) [OF ok, of e t] that by (cases "E e t") (auto simp: reliable_service_def)
  have fail: "E e t" if "fst (ev_fail_block env b w) = Inl x" for b w x e t
    using env_okD(5) [OF ok, of e t] that by (cases "E e t") (auto simp: reliable_service_def)
  show ?thesis
    using dec commit fail Q [where m' = "m\<lparr>mc_io := _, mc_state := _\<rparr>"]
    by (cases "d = OK") (auto simp: apply_decision_def commit_block_def fail_block_def wp_simps
        intro!: Q split: sum.splits)
qed

text \<open>The time the block was received must be known, or panics be allowed.\<close>

definition block_known :: "(panic \<Rightarrow> 'w machine \<Rightarrow> bool) \<Rightarrow> snowball_state \<Rightarrow> bool" where
  "block_known E st \<longleftrightarrow> (\<forall>p m. E p m) \<or> ms_convergenza (ss_measurements st) (ss_decision_block st) \<noteq> None"

lemma set_block_commit_timestamp_wpx:
  assumes ok: "env_ok D E env"
    and kn: "(\<forall>p m. E p m) \<or> ms_convergenza (ss_measurements st) b \<noteq> None"
    and Q: "\<And>elapsed w. Q (elapsed, st\<lparr>ss_measurements := (ss_measurements st)
        \<lparr>ms_convergenza := (ms_convergenza (ss_measurements st))(b \<mapsto> elapsed)\<rparr>\<rparr>)
      (io\<lparr>io_world := w\<rparr>)"
  shows "wpx D (\<lambda>p io. E p (m\<lparr>mc_io := io\<rparr>)) (set_block_commit_timestamp env b st) Q io"
proof -
  have "E e t" if "fst (ev_unix_nanos env w) = None" for w e t
    using env_okD(5) [OF ok, of e t] that
    by (cases "E e t") (auto simp: reliable_service_def dest: spec [where x = w])
  then show ?thesis
    using kn Q by (auto simp: set_block_commit_timestamp_def wp_simps split: option.splits)
qed

lemma handle_decision_wpx:
  assumes ok: "env_ok D E env" and kn: "block_known E (mc_state m)"
    and dec: "ss_decision_map (mc_state m) (ss_seq_num (mc_state m)) \<noteq> None"
    and Q: "\<And>m'. decided env m m' \<Longrightarrow> Q () m'"
  shows "wpx D E (handle_decision env) Q m"
proof -
  obtain d where d: "ss_decision_map (mc_state m) (ss_seq_num (mc_state m)) = Some d"
    using dec by blast
  let ?u = "if d = OK then 1 else 0 :: u8"
  have log: "E e t" if "nv_log_to_json env x = None" for x e t
    using env_okD(7) [OF ok, of e t] that by (cases "E e t") (auto simp: lawful_log_json_def dest: spec [where x = x])
  have client: "E e t" if "\<not> fst (ev_http_client env w)" for w e t
    using env_okD(5) [OF ok, of e t] that by (cases "E e t") (auto simp: reliable_service_def)
  let ?b = "ss_decision_block (mc_state m)"
  have fin: "wpx D E (bindM (getM mc_state) (\<lambda>st.
     bindM (ioM (set_block_commit_timestamp env (ss_decision_block st) st)) (\<lambda>(elapsed, st').
     thenM (upd_state (\<lambda>_. st'))
     (thenM (ioM (http_client env))
     (bindM (unwrapM (UnwrapFailed ''to_string'')
        (nv_log_to_json env (log_of_decision env st' elapsed ?u))) (\<lambda>body.
     thenM (ioM (post env ''http://log.collector:5000/collect'' body))
     (thenM (modifyM (\<lambda>m. m\<lparr>mc_block_queue := tl (mc_block_queue m)\<rparr>))
     (thenM (whenM (ss_order st' = 0)
        (bindM (ioM (initialize_block env None)) (\<lambda>_. returnM ())))
     (upd_state switch_phase))))))))) Q m1"
    if m1: "mc_state m1 = (mc_state m)\<lparr>ss_chain_head := if d = OK then ?b else ss_chain_head (mc_state m)\<rparr>"
      "mc_log_guard m1 = mc_log_guard m" "mc_block_queue m1 = mc_block_queue m"
      "io_trace (mc_io m1) = io_trace (mc_io m) @ [if d = OK then CommitBlock ?b else FailBlock ?b]" for m1
  proof -
    have ts: "wpx D (\<lambda>p io. E p (m1\<lparr>mc_io := io\<rparr>)) (set_block_commit_timestamp env ?b st) R (mc_io m1)"
      if "ss_measurements st = ss_measurements (mc_state m)"
        "\<And>elapsed w. R (elapsed, st\<lparr>ss_measurements := (ss_measurements (mc_state m))
          \<lparr>ms_convergenza := (ms_convergenza (ss_measurements (mc_state m)))(?b \<mapsto> elapsed)\<rparr>\<rparr>)
        ((mc_io m1)\<lparr>io_world := w\<rparr>)" for R st
      using kn that by (intro set_block_commit_timestamp_wpx [OF ok]) (auto simp: block_known_def)
    show ?thesis
      using m1 d by (auto simp: wp_simps post_def http_client_def initialize_block_def decided_def Let_def log client
          intro!: ts Q split: option.splits) blast+
  qed
  show ?thesis
    unfolding handle_decision_def wpx_bindM [of _ _ "apply_decision env"]
    by (rule apply_decision_wpx [OF ok d], rule fin)
qed

section \<open>Evaluating a round\<close>

text \<open>
  The colour that reached the majority threshold, as the index of its counter: the loop takes
  the lower index first. The colours and counters are those of \<open>for i in 0..=1\<close>.
\<close>

definition votes :: "snowball_state \<Rightarrow> nat \<Rightarrow> u64" where
  "votes st i = (if i = 0 then fst (ss_response_buffer st) else snd (ss_response_buffer st))"

definition winner :: "snowball_state \<Rightarrow> nat option" where
  "winner st = (if ss_alfa st \<le> votes st 0 then Some 0
     else if ss_alfa st \<le> votes st 1 then Some 1 else None)"

definition single_majority :: "snowball_state \<Rightarrow> bool" where
  "single_majority st \<longleftrightarrow> 0 < ss_alfa st \<and> \<not> (ss_alfa st \<le> votes st 0 \<and> ss_alfa st \<le> votes st 1)"

text \<open>
  A specification of the loop's body: the state variables it changes when colour \<open>i\<close> has its
  majority. It is no translation of the code, which \<open>count_color\<close> is, panics included; on a state
  whose recorded decision is \<open>OK\<close> or \<open>KO\<close> the two agree (\<open>count_color_majority\<close>).
\<close>

definition colour :: "nat \<Rightarrow> decision_state" where
  "colour i = (if i = 0 then KO else OK)"

definition support :: "u64x2 \<Rightarrow> decision_state \<Rightarrow> u64" where
  "support a c = (if c = OK then snd a else fst a)"

definition record_majority :: "nat \<Rightarrow> snowball_state \<Rightarrow> snowball_state" where
  "record_majority i st =
     (let a = ss_decision_array st;
          array = (if i = 0 then (fst a + 1, snd a) else (fst a, snd a + 1));
          current = the (ss_decision_map st (ss_seq_num st));
          switch = support array current < support array (colour i);
          new_colour = colour i \<noteq> ss_last_color st
      in st\<lparr>ss_decision_array := array,
            ss_decision_map := (if switch then (ss_decision_map st)(ss_seq_num st \<mapsto> colour i)
              else ss_decision_map st),
            ss_last_color := colour i,
            ss_confidence_counter := (if new_colour then 1 else ss_confidence_counter st + 1)\<rparr>)"

definition with_state :: "(snowball_state \<Rightarrow> snowball_state) \<Rightarrow> 'w machine \<Rightarrow> 'w machine" where
  "with_state f m = m\<lparr>mc_state := f (mc_state m)\<rparr>"

lemma with_state_simps [simp]:
  "mc_state (with_state f m) = f (mc_state m)" "mc_io (with_state f m) = mc_io m"
  "mc_log_guard (with_state f m) = mc_log_guard m" "mc_block_queue (with_state f m) = mc_block_queue m"
  by (simp_all add: with_state_def)

definition voting :: "snowball_state \<Rightarrow> bool" where
  "voting st \<longleftrightarrow> ss_decision_map st (ss_seq_num st) \<in> {Some OK, Some KO}"

lemma record_majority_steps:
  assumes "voting st"
  shows "record_majority i st =
    (let a = ss_decision_array st; array = (if i = 0 then (fst a + 1, snd a) else (fst a, snd a + 1));
         st1 = st\<lparr>ss_decision_array := array\<rparr>;
         st2 = (if support array (the (ss_decision_map st (ss_seq_num st))) < support array (colour i)
           then st1\<lparr>ss_decision_map := (ss_decision_map st)(ss_seq_num st \<mapsto> colour i)\<rparr> else st1)
     in if colour i \<noteq> ss_last_color st
        then st2\<lparr>ss_last_color := colour i, ss_confidence_counter := 1\<rparr>
        else st2\<lparr>ss_confidence_counter := ss_confidence_counter st + 1\<rparr>)"
  by (cases st) (simp add: record_majority_def Let_def)

lemma count_color_wpx:
  assumes v: "voting (mc_state m)" and i: "i = 0 \<or> i = 1"
  shows "wpx D E (count_color env i majority) Q m \<longleftrightarrow>
    (if ss_alfa (mc_state m) \<le> votes (mc_state m) i then
       (let m1 = with_state (record_majority i) m in
        if ss_beta (mc_state m1) \<le> ss_confidence_counter (mc_state m1)
        then wpx D E (handle_decision env) (\<lambda>_. Q True) (with_state switch_phase m1)
        else wpx D E (new_round env) (\<lambda>_. Q True) m1)
     else Q majority m)"
proof -
  obtain b0 b1 where b: "ss_response_buffer (mc_state m) = (b0, b1)" by fastforce
  obtain a0 a1 where a: "ss_decision_array (mc_state m) = (a0, a1)" by fastforce
  from v consider "ss_decision_map (mc_state m) (ss_seq_num (mc_state m)) = Some OK"
    | "ss_decision_map (mc_state m) (ss_seq_num (mc_state m)) = Some KO"
    by (auto simp: voting_def)
  then show ?thesis
    using i a b
    by cases (auto simp: count_color_def wp_simps wpx_returnM_fun usize_to_decision_state_def
        decision_state_to_u8_def votes_def record_majority_steps [OF v] with_state_def colour_def
        support_def Let_def)
qed

lemma count_color_majority:
  assumes v: "voting (mc_state m)" and i: "i \<in> {0, 1}" and a: "ss_alfa (mc_state m) \<le> votes (mc_state m) i"
  shows "count_color env i majority m = (let m1 = with_state (record_majority i) m in
    thenM (if ss_beta (mc_state m1) \<le> ss_confidence_counter (mc_state m1)
      then thenM (upd_state switch_phase) (handle_decision env) else new_round env) (returnM True) m1)"
proof -
  obtain b0 b1 where b: "ss_response_buffer (mc_state m) = (b0, b1)" by fastforce
  obtain a0 a1 where c: "ss_decision_array (mc_state m) = (a0, a1)" by fastforce
  from v consider "ss_decision_map (mc_state m) (ss_seq_num (mc_state m)) = Some OK"
    | "ss_decision_map (mc_state m) (ss_seq_num (mc_state m)) = Some KO"
    by (auto simp: voting_def)
  then show ?thesis
    using i a b c
    by cases (auto simp: count_color_def bindM_def thenM_def returnM_def getM_def upd_state_def modifyM_def unwrapM_def whenM_def
        usize_to_decision_state_def decision_state_to_u8_def votes_def record_majority_steps [OF v] with_state_def colour_def
        support_def at2_def add2_def Let_def)
qed

text \<open>What evaluating a round does, as a relation between the machines before and after.\<close>

definition new_round_from ::
  "('w, 'm) node_env_scheme \<Rightarrow> 'w machine \<Rightarrow> 'w machine \<Rightarrow> bool" where
  "new_round_from env m m' \<longleftrightarrow> (\<exists>ps. asked_peers m ps \<and> round_started env m ps m')"

definition round_evaluated ::
  "('w, 'm) node_env_scheme \<Rightarrow> 'w machine \<Rightarrow> 'w machine \<Rightarrow> bool" where
  "round_evaluated env m m' \<longleftrightarrow> (case winner (mc_state m) of
       None \<Rightarrow> new_round_from env (with_state (ss_confidence_counter_update (\<lambda>_. 0)) m) m'
     | Some i \<Rightarrow>
         let m1 = with_state (record_majority i) m in
         if ss_beta (mc_state m1) \<le> ss_confidence_counter (mc_state m1)
         then decided env (with_state switch_phase m1) m'
         else new_round_from env m1 m')"

lemma record_majority_fields [simp]:
  "ss_id (record_majority i st) = ss_id st" "ss_order (record_majority i st) = ss_order st"
  "ss_seq_num (record_majority i st) = ss_seq_num st" "ss_alfa (record_majority i st) = ss_alfa st"
  "ss_beta (record_majority i st) = ss_beta st" "ss_k (record_majority i st) = ss_k st"
  "ss_last_color (record_majority i st) = colour i"
  "ss_response_buffer (record_majority i st) = ss_response_buffer st"
  "ss_waiting_response_map (record_majority i st) = ss_waiting_response_map st"
  "ss_chain_head (record_majority i st) = ss_chain_head st"
  "ss_decision_block (record_majority i st) = ss_decision_block st"
  "ss_phase (record_majority i st) = ss_phase st"
  "ss_member_ids (record_majority i st) = ss_member_ids st"
  "ss_hang_timeout (record_majority i st) = ss_hang_timeout st"
  "ss_byzantine_test (record_majority i st) = ss_byzantine_test st"
  "ss_measurements (record_majority i st) = ss_measurements st"
  by (simp_all add: record_majority_def Let_def)

lemma record_majority_voting: "voting st \<Longrightarrow> voting (record_majority i st)"
  by (auto simp: voting_def record_majority_def Let_def colour_def)

lemma switch_phase_fields [simp]:
  "ss_id (switch_phase st) = ss_id st" "ss_order (switch_phase st) = ss_order st"
  "ss_seq_num (switch_phase st) = ss_seq_num st" "ss_alfa (switch_phase st) = ss_alfa st"
  "ss_beta (switch_phase st) = ss_beta st" "ss_k (switch_phase st) = ss_k st"
  "ss_decision_map (switch_phase st) = ss_decision_map st"
  "ss_last_color (switch_phase st) = ss_last_color st"
  "ss_confidence_counter (switch_phase st) = ss_confidence_counter st"
  "ss_response_buffer (switch_phase st) = ss_response_buffer st"
  "ss_decision_array (switch_phase st) = ss_decision_array st"
  "ss_waiting_response_map (switch_phase st) = ss_waiting_response_map st"
  "ss_chain_head (switch_phase st) = ss_chain_head st"
  "ss_decision_block (switch_phase st) = ss_decision_block st"
  "ss_phase (switch_phase st) = next_phase (ss_phase st)"
  "ss_member_ids (switch_phase st) = ss_member_ids st"
  "ss_hang_timeout (switch_phase st) = ss_hang_timeout st"
  "ss_byzantine_test (switch_phase st) = ss_byzantine_test st"
  "ss_measurements (switch_phase st) = ss_measurements st"
  by (simp_all add: switch_phase_def)

text \<open>What a round needs of the machine: who can be asked, and that nobody is awaited.\<close>

definition round_ready :: "bool \<Rightarrow> (panic \<Rightarrow> 'w machine \<Rightarrow> bool) \<Rightarrow> 'w machine \<Rightarrow> bool" where
  "round_ready D E m \<longleftrightarrow> delay_ok E (mc_state m) \<and> capacity_ok E (unat (ss_k (mc_state m))) \<and> distinct (members m) \<and> order_valid (mc_state m)
     \<and> waiting m = [] \<and> (D \<or> unat (ss_k (mc_state m)) \<le> card (others m))"

lemma round_ready_cong:
  assumes "round_ready D E m" and "ss_byzantine_test st' = ss_byzantine_test (mc_state m)"
    and "ss_order st' = ss_order (mc_state m)" and "ss_k st' = ss_k (mc_state m)"
    and "ss_waiting_response_map st' = waiting m" and "ss_member_ids st' = members m"
    and "mc_state m' = st'"
  shows "round_ready D E m'"
  using assms by (simp add: round_ready_def delay_ok_def order_valid_def others_def)

lemma new_round_ready_wpx:
  assumes "env_ok D E env" and "round_ready D E m"
    and "\<And>m'. new_round_from env m m' \<Longrightarrow> Q () m'"
  shows "wpx D E (new_round env) Q m"
  using assms by (intro new_round_wpx) (auto simp: round_ready_def new_round_from_def)

lemma new_round_fromD:
  assumes "new_round_from env m m'" and "waiting m = []"
  shows "queried (clear_buffer m) m'" and "keys_distinct (waiting m')"
    and "length (waiting m') = unat (ss_k (mc_state m))"
    and "ss_response_buffer (mc_state m') = (0, 0)"
    and "awaits (waiting m') q \<Longrightarrow> q \<in> (!) (members m) ` others m"
  using assms
  by (auto simp: new_round_from_def round_started_def asked_peers_def awaits_def clear_buffer_def
      dest: queriedD(12))

text \<open>Evaluating the second colour after the first one won changes nothing: one winner only.\<close>

lemma evaluated_second_colour:
  assumes ev: "round_evaluated env m m'" and w: "winner (mc_state m) = Some 0"
    and r: "waiting m = []" and v: "voting (mc_state m)" and one: "single_majority (mc_state m)"
  shows "\<not> ss_alfa (mc_state m') \<le> votes (mc_state m') 1" and "voting (mc_state m')"
proof -
  let ?m = "with_state (record_majority 0) m"
  consider (d) "decided env (with_state switch_phase ?m) m'" | (n) "new_round_from env ?m m'"
    using ev w by (auto simp: round_evaluated_def Let_def split: if_splits)
  then have "\<not> ss_alfa (mc_state m') \<le> votes (mc_state m') 1 \<and> voting (mc_state m')"
  proof cases
    case d
    then show ?thesis
      using one w record_majority_voting [OF v, of 0]
      by (auto simp: decided_def Let_def single_majority_def votes_def voting_def winner_def split: if_splits)
  next
    case n
    have q: "queried (clear_buffer ?m) m'" using new_round_fromD [OF n] r by simp
    then show ?thesis
      using new_round_fromD(4) [OF n] r one record_majority_voting [OF v, of 0]
      by (auto simp: queriedD [OF q] votes_def single_majority_def clear_buffer_def voting_def)
  qed
  then show "\<not> ss_alfa (mc_state m') \<le> votes (mc_state m') 1" and "voting (mc_state m')" by auto
qed

text \<open>The colours \<open>xs\<close> still to be looked at after the winner: none, or the second after the first.\<close>

definition left_after :: "nat list \<Rightarrow> snowball_state \<Rightarrow> bool" where
  "left_after xs st \<longleftrightarrow> xs = [] \<or> xs = [1] \<and> winner st = Some 0"

lemma left_after_wpx:
  assumes "round_evaluated env m m'" and "left_after xs (mc_state m)"
    and "waiting m = []" and "voting (mc_state m)" and "single_majority (mc_state m)"
  shows "wpx D E (foldM (count_color env) xs True) (\<lambda>a t. a \<and> round_evaluated env m t) m'"
proof (cases "xs = []")
  case True
  with assms(1) show ?thesis by (simp add: wp_simps)
next
  case False
  with assms(2) have "xs = [1]" and "winner (mc_state m) = Some 0" by (auto simp: left_after_def)
  with evaluated_second_colour [OF assms(1) _ assms(3-5)] assms(1) show ?thesis
    by (simp add: wp_simps count_color_wpx)
qed

lemma winner_wpx:
  assumes ok: "env_ok D E env" and r: "round_ready D E m" and v: "voting (mc_state m)"
    and kn: "block_known E (mc_state m)" and one: "single_majority (mc_state m)"
    and w: "winner (mc_state m) = Some i" and xs: "left_after xs (mc_state m)"
  shows "wpx D E (count_color env i False) (\<lambda>a. wpx D E (foldM (count_color env) xs a)
    (\<lambda>a t. a \<and> round_evaluated env m t)) m"
proof -
  let ?m = "with_state (record_majority i) m" and ?d = "with_state switch_phase (with_state (record_majority i) m)"
  let ?K = "\<lambda>_. wpx D E (foldM (count_color env) xs True) (\<lambda>a t. a \<and> round_evaluated env m t)"
  let ?b = "ss_beta (mc_state ?m) \<le> ss_confidence_counter (mc_state ?m)"
  have i: "i = 0 \<or> i = 1" "ss_alfa (mc_state m) \<le> votes (mc_state m) i"
    using w by (auto simp: winner_def split: if_splits)
  have kd: "block_known E (mc_state ?d)" "ss_decision_map (mc_state ?d) (ss_seq_num (mc_state ?d)) \<noteq> None"
    using kn record_majority_voting [OF v, of i] by (auto simp: block_known_def voting_def)
  have rr: "round_ready D E ?m" by (intro round_ready_cong [OF r]) auto
  have "waiting m = []" using r by (simp add: round_ready_def)
  note left = left_after_wpx [OF _ xs this v one]
  have "wpx D E (handle_decision env) ?K ?d" if ?b
    using that w by (intro handle_decision_wpx [OF ok kd] left) (auto simp: round_evaluated_def Let_def)
  moreover have "wpx D E (new_round env) ?K ?m" if "\<not> ?b"
    using that w by (intro new_round_ready_wpx [OF ok rr] left) (auto simp: round_evaluated_def Let_def)
  ultimately show ?thesis
    unfolding count_color_wpx [OF v i(1)] using i(2) by (simp add: Let_def)
qed

lemma on_values_ready_wpx:
  assumes ok: "env_ok D E env" and r: "round_ready D E m" and v: "voting (mc_state m)"
    and kn: "block_known E (mc_state m)" and one: "single_majority (mc_state m)"
    and Q: "\<And>m'. round_evaluated env m m' \<Longrightarrow> Q () m'"
  shows "wpx D E (on_values_ready env) Q m"
proof -
  let ?st = "mc_state m"
  note won = winner_wpx [OF ok r v kn one]
  have rr: "round_ready D E (with_state (ss_confidence_counter_update (\<lambda>_. 0)) m)"
    by (intro round_ready_cong [OF r]) auto
  have "wpx D E (foldM (count_color env) [0, 1] False)
      (\<lambda>a t. if a then round_evaluated env m t else t = m \<and> winner ?st = None) m"
  proof (cases "winner ?st")
    case None
    then show ?thesis
      using v by (auto simp: wp_simps count_color_wpx winner_def split: if_splits)
  next
    case (Some i)
    then have "i = 0 \<or> i = 1 \<and> \<not> ss_alfa ?st \<le> votes ?st 0"
      by (auto simp: winner_def split: if_splits)
    then have "wpx D E (foldM (count_color env) [0, 1] False) (\<lambda>a t. a \<and> round_evaluated env m t) m"
    proof
      assume "i = 0"
      then show ?thesis
        using won [of 0 "[1]"] Some by (simp only: foldM.simps wpx_bindM left_after_def simp_thms)
    next
      assume i: "i = 1 \<and> \<not> ss_alfa ?st \<le> votes ?st 0"
      have "wpx D E (foldM (count_color env) [1] False) (\<lambda>a t. a \<and> round_evaluated env m t) m"
        using won [of 1 "[]"] Some i by (simp only: foldM.simps wpx_bindM left_after_def) simp
      then show ?thesis
        using i by (simp add: wpx_bindM count_color_wpx [OF v, of 0] del: foldM.simps(1))
    qed
    then show ?thesis by (rule wpx_conseq) auto
  qed
  then show ?thesis
    unfolding on_values_ready_def wpx_bindM
    by (rule wpx_conseq)
      (use Q in \<open>auto simp: wp_simps with_state_def [symmetric] round_evaluated_def
        intro!: new_round_ready_wpx [OF ok rr] split: if_splits\<close>)
qed

end
