(* ===== verification/Node_Handlers.thy ===== *)
theory Node_Handlers
  imports Node_Deciding
begin

text \<open>
  The handlers of the validator's updates, each with the relation between the machines before
  and after it: the start of a vote, the queue of blocks, the membership, the three kinds of
  peer message, the peers that do not answer.
\<close>

section \<open>Starting a vote\<close>

text \<open>The state with which the first round on block \<open>b\<close> is started.\<close>

definition start_vote :: "block_id \<Rightarrow> snowball_state \<Rightarrow> snowball_state" where
  "start_vote b st = st\<lparr>
     ss_seq_num := ss_seq_num st + 1,
     ss_decision_map := (ss_decision_map st)(ss_seq_num st + 1 \<mapsto> OK),
     ss_last_color := OK,
     ss_confidence_counter := 0,
     ss_decision_array := (0, 0),
     ss_decision_block := b\<rparr>"

definition vote_started ::
  "('w, 'm) node_env_scheme \<Rightarrow> block_id \<Rightarrow> 'w machine \<Rightarrow> 'w machine \<Rightarrow> bool" where
  "vote_started env b m m' \<longleftrightarrow>
     (\<exists>m1. new_round_from env (with_state (start_vote b) m) m1 \<and> m' = with_state switch_phase m1)"

lemma start_vote_fields [simp]:
  "ss_id (start_vote b st) = ss_id st" "ss_order (start_vote b st) = ss_order st"
  "ss_seq_num (start_vote b st) = ss_seq_num st + 1" "ss_alfa (start_vote b st) = ss_alfa st"
  "ss_beta (start_vote b st) = ss_beta st" "ss_k (start_vote b st) = ss_k st"
  "ss_decision_map (start_vote b st) = (ss_decision_map st)(ss_seq_num st + 1 \<mapsto> OK)"
  "ss_last_color (start_vote b st) = OK" "ss_confidence_counter (start_vote b st) = 0"
  "ss_response_buffer (start_vote b st) = ss_response_buffer st"
  "ss_decision_array (start_vote b st) = (0, 0)"
  "ss_waiting_response_map (start_vote b st) = ss_waiting_response_map st"
  "ss_chain_head (start_vote b st) = ss_chain_head st"
  "ss_decision_block (start_vote b st) = b" "ss_phase (start_vote b st) = ss_phase st"
  "ss_member_ids (start_vote b st) = ss_member_ids st"
  "ss_hang_timeout (start_vote b st) = ss_hang_timeout st"
  "ss_byzantine_test (start_vote b st) = ss_byzantine_test st"
  "ss_measurements (start_vote b st) = ss_measurements st"
  by (simp_all add: start_vote_def)

lemma wpx_upd_state_fun: "wpx D E (upd_state f) Q = (\<lambda>m. Q () (with_state f m))"
  by (rule ext) (simp add: wpx_upd_state with_state_def)

lemma handle_block_new_wpx:
  assumes ok: "env_ok D E env" and r: "round_ready D E m"
    and Q: "\<And>m'. vote_started env b m m' \<Longrightarrow> Q () m'"
  shows "wpx D E (handle_block_new env b) Q m"
proof -
  have "wpx D E (new_round env) (\<lambda>_ m1. Q () (with_state switch_phase m1)) (with_state (start_vote b) m)"
    by (rule new_round_ready_wpx [OF ok round_ready_cong [OF r]])
      (auto simp: vote_started_def intro!: Q)
  moreover have "with_state (start_vote b) m = with_state (\<lambda>st. st
      \<lparr>ss_decision_map := (ss_decision_map st)(ss_seq_num st \<mapsto> OK),
       ss_last_color := OK, ss_confidence_counter := 0, ss_decision_array := (0, 0)\<rparr>)
      (with_state (\<lambda>st. st\<lparr>ss_decision_block := b, ss_seq_num := ss_seq_num st + 1\<rparr>) m)"
    by (cases "mc_state m") (simp add: with_state_def start_vote_def)
  ultimately show ?thesis
    by (simp add: handle_block_new_def wp_simps wpx_upd_state_fun Let_def)
qed

section \<open>The queue of blocks\<close>

text \<open>Machines with the same state, log guard and queue; the trace has grown by \<open>es\<close>.\<close>

definition acted :: "event list \<Rightarrow> 'w machine \<Rightarrow> 'w machine \<Rightarrow> bool" where
  "acted es m m' \<longleftrightarrow> mc_state m' = mc_state m \<and> mc_log_guard m' = mc_log_guard m
     \<and> mc_block_queue m' = mc_block_queue m \<and> io_trace (mc_io m') = io_trace (mc_io m) @ es"

text \<open>A new block at the front, when the validator's chain head is \<open>head\<close>.\<close>

definition block_examined ::
  "('w, 'm) node_env_scheme \<Rightarrow> block \<Rightarrow> block \<Rightarrow> 'w machine \<Rightarrow> 'w machine \<Rightarrow> bool" where
  "block_examined env b head m m' \<longleftrightarrow>
     (if block_num b < block_num head then acted [GetChainHead, FailBlock (block_id b)] m m'
      else \<exists>m1. acted [GetChainHead, CheckBlocks [block_id b]] m m1 \<and> vote_started env (block_id b) m1 m')"

definition queue_handled ::
  "('w, 'm) node_env_scheme \<Rightarrow> 'w machine \<Rightarrow> 'w machine \<Rightarrow> bool" where
  "queue_handled env m m' \<longleftrightarrow> (case mc_block_queue m of
       [] \<Rightarrow> m' = m
     | b # _ \<Rightarrow>
       if block_id b = ss_decision_block (mc_state m) then m' = m
       else \<exists>head. fst (ev_get_chain_head env (io_world (mc_io m))) = Inr head \<and> block_examined env b head m m')"

lemma handle_queue_wpx:
  assumes ok: "env_ok D E env"
    and r: "\<And>b bs. mc_block_queue m = b # bs \<Longrightarrow> block_id b \<noteq> ss_decision_block (mc_state m)
      \<Longrightarrow> round_ready D E m"
    and Q: "\<And>m'. queue_handled env m m' \<Longrightarrow> Q () m'"
  shows "wpx D E (handle_queue env) Q m"
proof (cases "mc_block_queue m")
  case Nil
  then show ?thesis using Q [of m] by (simp add: handle_queue_def wp_simps queue_handled_def)
next
  case (Cons b bs)
  show ?thesis
  proof (cases "block_id b = ss_decision_block (mc_state m)")
    case True
    then show ?thesis
      using Q [of m] Cons by (simp add: handle_queue_def wp_simps queue_handled_def)
  next
    case False
    have head: "E e t" if "fst (ev_get_chain_head env w) = Inl x" for w x e t
      using env_okD(5) [OF ok, of e t] that
      by (cases "E e t") (auto simp: reliable_service_def dest: spec [where x = w])
    have check: "E e t" if "fst (ev_check_blocks env bs w) = Inl x" for bs w x e t
      using env_okD(5) [OF ok, of e t] that by (cases "E e t") (auto simp: reliable_service_def)
    have start: "wpx D E (handle_block_new env (block_id b)) Q m1"
      if "acted [GetChainHead, CheckBlocks [block_id b]] m m1" "\<not> block_num b < block_num h"
        "fst (ev_get_chain_head env (io_world (mc_io m))) = Inr h" for m1 and h :: block
    proof (rule handle_block_new_wpx [OF ok])
      show "round_ready D E m1"
        using that(1) by (intro round_ready_cong [OF r [OF Cons False]]) (auto simp: acted_def)
      fix m'
      assume "vote_started env (block_id b) m1 m'"
      with that have "block_examined env b h m m'" by (auto simp: block_examined_def)
      then show "Q () m'" using Cons False that(3) by (intro Q) (auto simp: queue_handled_def)
    qed
    have old: "Q () m'" if "acted [GetChainHead, FailBlock (block_id b)] m m'" "block_num b < block_num h"
      "fst (ev_get_chain_head env (io_world (mc_io m))) = Inr h" for m' and h :: block
    proof -
      have "block_examined env b h m m'" using that by (simp add: block_examined_def)
      then show ?thesis using Cons False that(3) by (intro Q) (auto simp: queue_handled_def)
    qed
    show ?thesis
      using Cons False
      by (auto simp: handle_queue_def wp_simps get_chain_head_def fail_block_def check_blocks_def
          acted_def head check intro!: start old split: sum.splits)
  qed
qed

section \<open>A new block, and the membership\<close>

definition block_queued :: "block \<Rightarrow> 'w machine \<Rightarrow> 'w machine \<Rightarrow> bool" where
  "block_queued b m m' \<longleftrightarrow> (\<exists>t. mc_state m' = (mc_state m)\<lparr>ss_measurements := (ss_measurements (mc_state m))
         \<lparr>ms_convergenza := (ms_convergenza (ss_measurements (mc_state m)))(block_id b \<mapsto> t)\<rparr>\<rparr>)
     \<and> mc_block_queue m' = mc_block_queue m @ [b] \<and> mc_log_guard m' = mc_log_guard m
     \<and> io_trace (mc_io m') = io_trace (mc_io m)"

lemma on_block_new_wpx:
  assumes ok: "env_ok D E env" and Q: "\<And>m'. block_queued b m m' \<Longrightarrow> Q True m'"
  shows "wpx D E (on_block_new env b) Q m"
proof -
  have "E e t" if "fst (ev_unix_nanos env w) = None" for w e t
    using env_okD(5) [OF ok, of e t] that
    by (cases "E e t") (auto simp: reliable_service_def dest: spec [where x = w])
  then show ?thesis
    by (auto simp: on_block_new_def wp_simps wpx_run_state set_block_new_timestamp_def block_queued_def
        intro!: Q split: option.splits)
qed

text \<open>A node finds its own place in the list of members, or panics.\<close>

lemma wpx_get_order_index:
  "wpx D E (get_order_index st p) Q s =
     (if p \<in> set (ss_member_ids st) then Q (of_nat (the (position p (ss_member_ids st)))) s
      else E (UnwrapFailed ''position'') s)"
  using position_in_set [of p "ss_member_ids st"]
  by (auto simp: get_order_index_def wp_simps simp flip: position_None)

lemma wpx_update_order:
  "wpx D E update_order Q m =
     (if ss_id (mc_state m) \<in> set (members m)
      then Q () (with_state (ss_order_update (\<lambda>_. of_nat (the (position (ss_id (mc_state m)) (members m))))) m)
      else E (UnwrapFailed ''position'') m)"
  by (simp add: update_order_def wpx_get_order_index wp_simps with_state_def)

definition with_members :: "peer_id list \<Rightarrow> snowball_state \<Rightarrow> snowball_state" where
  "with_members ps st = st\<lparr>ss_member_ids := ps, ss_order := of_nat (the (position (ss_id st) ps))\<rparr>"

lemma with_members_fields [simp]:
  "ss_id (with_members ps st) = ss_id st" "ss_seq_num (with_members ps st) = ss_seq_num st"
  "ss_alfa (with_members ps st) = ss_alfa st" "ss_beta (with_members ps st) = ss_beta st"
  "ss_k (with_members ps st) = ss_k st" "ss_decision_map (with_members ps st) = ss_decision_map st"
  "ss_last_color (with_members ps st) = ss_last_color st"
  "ss_confidence_counter (with_members ps st) = ss_confidence_counter st"
  "ss_response_buffer (with_members ps st) = ss_response_buffer st"
  "ss_decision_array (with_members ps st) = ss_decision_array st"
  "ss_waiting_response_map (with_members ps st) = ss_waiting_response_map st"
  "ss_chain_head (with_members ps st) = ss_chain_head st"
  "ss_decision_block (with_members ps st) = ss_decision_block st"
  "ss_phase (with_members ps st) = ss_phase st" "ss_member_ids (with_members ps st) = ps"
  "ss_order (with_members ps st) = of_nat (the (position (ss_id st) ps))"
  "ss_hang_timeout (with_members ps st) = ss_hang_timeout st"
  "ss_byzantine_test (with_members ps st) = ss_byzantine_test st"
  "ss_measurements (with_members ps st) = ss_measurements st"
  by (simp_all add: with_members_def)

lemma on_peer_connected_wpx:
  "wpx D E (on_peer_connected p) Q m =
     (if p \<in> set (members m) then Q True m
      else if ss_id (mc_state m) \<in> set (members m @ [p]) then Q True (with_state (with_members (members m @ [p])) m)
      else E (UnwrapFailed ''position'')
        (with_state (\<lambda>st. st\<lparr>ss_member_ids := ss_member_ids st @ [p]\<rparr>) m))"
  by (auto simp: on_peer_connected_def wpx_update_order wp_simps with_state_def with_members_def)

text \<open>
  The index of the peer goes through \<open>u64\<close>; a list of members is far shorter than \<open>2 ^ 64\<close>, so
  it is the peer itself that leaves.
\<close>

lemma on_peer_disconnected_wpx:
  assumes "length (members m) \<le> 2 ^ 64"
  shows "wpx D E (on_peer_disconnected p) Q m =
    (let rest = remove_at (the (position p (members m))) (members m) in
     if p \<notin> set (members m) then E (UnwrapFailed ''position'') m
     else if ss_id (mc_state m) \<in> set rest then Q True (with_state (with_members rest) m)
     else E (UnwrapFailed ''position'') (with_state (\<lambda>st. st\<lparr>ss_member_ids := rest\<rparr>) m))"
proof (cases "p \<in> set (members m)")
  case False
  then show ?thesis
    by (simp add: on_peer_disconnected_def wpx_get_order_index wp_simps)
next
  case True
  then obtain i where p: "position p (members m) = Some i"
    using position_in_set by fast
  then have "unat (of_nat i :: u64) = i" and "i < length (members m)"
    using position_Some [OF p] assms by (auto simp: unat_of_nat)
  then show ?thesis
    using True p
    by (auto simp: on_peer_disconnected_def wpx_get_order_index wpx_update_order wp_simps
        with_state_def with_members_def Let_def)
qed

text \<open>Whatever the index, what leaves is one member.\<close>

lemma on_peer_disconnected_partial:
  assumes "\<And>p m. E p m" and "D"
    and "\<And>i. i < length (members m) \<Longrightarrow> ss_id (mc_state m) \<in> set (remove_at i (members m)) \<Longrightarrow>
      Q True (with_state (with_members (remove_at i (members m))) m)"
  shows "wpx D E (on_peer_disconnected p) Q m"
  using assms
  by (auto simp: on_peer_disconnected_def wpx_get_order_index wpx_update_order wp_simps
      with_state_def with_members_def)

section \<open>Messages from peers\<close>

text \<open>The answer to a request depends on the decision map only.\<close>

definition request_answered ::
  "('w, 'm) node_env_scheme \<Rightarrow> peer_id \<Rightarrow> snowball_message \<Rightarrow> 'w machine \<Rightarrow> bool \<Rightarrow> 'w machine \<Rightarrow> bool" where
  "request_answered env sender payload m again m' \<longleftrightarrow>
     (let st = mc_state m; n = sm_seq_num payload in
      if ss_seq_num st < n then \<not> again \<and> sent env sender ''unavailable'' 0 n m m'
      else (case ss_decision_map st n of
          None \<Rightarrow> \<not> again \<and> m' = m
        | Some c \<Rightarrow> again \<and> sent env sender ''response'' (if c = OK then 1 else 0) (ss_seq_num st) m m'))"

lemma on_request_wpx:
  assumes ok: "env_ok D E env" "delay_ok E (mc_state m)"
    and Q: "\<And>again m'. request_answered env sender payload m again m' \<Longrightarrow> Q again m'"
  shows "wpx D E (on_request env sender payload) Q m"
  by (auto simp: on_request_def wp_simps Let_def request_answered_def
      intro!: send_peer_notification_wpx [OF ok] send_peer_message_wpx [OF ok] Q split: option.splits)

text \<open>Votes: the sender is no longer awaited, and a valid vote is counted.\<close>

definition expects :: "snowball_state \<Rightarrow> peer_id \<Rightarrow> bool" where
  "expects st p \<longleftrightarrow> ss_phase st = Listening \<and> awaits (ss_waiting_response_map st) p"

definition no_longer_awaited :: "peer_id \<Rightarrow> snowball_state \<Rightarrow> snowball_state" where
  "no_longer_awaited p st = st\<lparr>ss_waiting_response_map := AList.delete p (ss_waiting_response_map st)\<rparr>"

definition count_vote :: "u8 \<Rightarrow> snowball_state \<Rightarrow> snowball_state" where
  "count_vote v st = st\<lparr>ss_response_buffer := the (add2 (ss_response_buffer st) (unat v) 1)\<rparr>"

definition round_complete :: "snowball_state \<Rightarrow> bool" where
  "round_complete st \<longleftrightarrow> fst (ss_response_buffer st) + snd (ss_response_buffer st) = ss_k st"

definition response_handled ::
  "('w, 'm) node_env_scheme \<Rightarrow> peer_id \<Rightarrow> snowball_message \<Rightarrow> 'w machine \<Rightarrow> bool \<Rightarrow> 'w machine \<Rightarrow> bool" where
  "response_handled env sender payload m again m' \<longleftrightarrow>
     (let m1 = with_state (no_longer_awaited sender) m;
          m2 = with_state (count_vote (sm_vote payload)) m1 in
      if \<not> expects (mc_state m) sender then \<not> again \<and> m' = m
      else if sm_vote payload \<notin> {0, 1} then \<not> again \<and> m' = m1
      else again \<and> (if round_complete (mc_state m2) then round_evaluated env m2 m' else m' = m2))"

text \<open>What evaluating the round needs, when this vote completes it.\<close>

definition evaluable ::
  "bool \<Rightarrow> (panic \<Rightarrow> 'w machine \<Rightarrow> bool) \<Rightarrow> 'w machine \<Rightarrow> bool" where
  "evaluable D E m \<longleftrightarrow> round_ready D E m \<and> voting (mc_state m) \<and> block_known E (mc_state m)
     \<and> single_majority (mc_state m)"

lemma on_response_wpx:
  assumes ok: "env_ok D E env"
    and ev: "\<And>m2. expects (mc_state m) sender \<Longrightarrow> sm_vote payload \<in> {0, 1} \<Longrightarrow>
      m2 = with_state (count_vote (sm_vote payload)) (with_state (no_longer_awaited sender) m) \<Longrightarrow>
      round_complete (mc_state m2) \<Longrightarrow> evaluable D E m2"
    and Q: "\<And>again m'. response_handled env sender payload m again m' \<Longrightarrow> Q again m'"
  shows "wpx D E (on_response env sender payload) Q m"
proof (cases "expects (mc_state m) sender \<and> sm_vote payload \<in> {0, 1}")
  case False
  then show ?thesis
    by (auto simp: on_response_def wp_simps expects_def response_handled_def Let_def with_state_def
        no_longer_awaited_def intro!: Q)
next
  case True
  let ?v = "sm_vote payload"
  let ?m1 = "with_state (no_longer_awaited sender) m"
  let ?m2 = "with_state (count_vote ?v) ?m1"
  obtain b0 b1 where b: "ss_response_buffer (mc_state m) = (b0, b1)" by fastforce
  have "Q True ?m2" if "\<not> round_complete (mc_state ?m2)"
    using that True by (intro Q) (auto simp: response_handled_def Let_def)
  moreover have "wpx D E (on_values_ready env) (\<lambda>_. Q True) ?m2" if c: "round_complete (mc_state ?m2)"
  proof -
    have e: "evaluable D E ?m2" using True c by (intro ev) auto
    show ?thesis
      by (rule on_values_ready_wpx [OF ok]) (use e c True in \<open>auto simp: evaluable_def
          response_handled_def Let_def intro!: Q\<close>)
  qed
  ultimately show ?thesis
    using True b
    by (auto simp: on_response_def wp_simps wpx_returnM_fun expects_def with_state_def no_longer_awaited_def
        count_vote_def round_complete_def)
qed

definition unavailable_handled ::
  "('w, 'm) node_env_scheme \<Rightarrow> peer_id \<Rightarrow> 'w machine \<Rightarrow> bool \<Rightarrow> 'w machine \<Rightarrow> bool" where
  "unavailable_handled env sender m again m' \<longleftrightarrow>
     (if \<not> expects (mc_state m) sender then \<not> again \<and> m' = m
      else again \<and> (\<exists>peer. other_peer_asked env (with_state (no_longer_awaited sender) m) peer m'))"

text \<open>A machine whose requests to other peers go through.\<close>

definition can_ask :: "bool \<Rightarrow> (panic \<Rightarrow> 'w machine \<Rightarrow> bool) \<Rightarrow> 'w machine \<Rightarrow> bool" where
  "can_ask D E m \<longleftrightarrow> delay_ok E (mc_state m) \<and> order_valid (mc_state m) \<and> keys_distinct (waiting m)
     \<and> (D \<or> (\<exists>i\<in>others m. \<not> awaits (waiting m) (members m ! i)))"

lemma on_unavailable_wpx:
  assumes ok: "env_ok D E env"
    and ask: "expects (mc_state m) sender \<Longrightarrow> can_ask D E (with_state (no_longer_awaited sender) m)"
    and Q: "\<And>again m'. unavailable_handled env sender m again m' \<Longrightarrow> Q again m'"
  shows "wpx D E (on_unavailable env sender) Q m"
proof (cases "expects (mc_state m) sender")
  case False
  then show ?thesis
    by (auto simp: on_unavailable_def wp_simps expects_def unavailable_handled_def intro!: Q)
next
  case True
  have "wpx D E (request_other_peer env) (\<lambda>_. Q True) (with_state (no_longer_awaited sender) m)"
    using ask [OF True] True
    by (intro request_other_peer_wpx [OF ok] Q) (auto simp: can_ask_def unavailable_handled_def)
  with True show ?thesis
    by (auto simp: on_unavailable_def wp_simps wpx_returnM_fun expects_def with_state_def no_longer_awaited_def)
qed

section \<open>Peers that do not answer\<close>

text \<open>The readings of the clock that follow one another from a state of the world.\<close>

definition clock_readings :: "('w, 'm) env_scheme \<Rightarrow> 'w \<Rightarrow> instant set" where
  "clock_readings env w = {n. \<exists>i. n = fst (ev_now env (((\<lambda>w. snd (ev_now env w)) ^^ i) w))}"

lemma clock_readings_first: "fst (ev_now env w) \<in> clock_readings env w"
  by (auto simp: clock_readings_def intro: exI [where x = 0])

lemma clock_readings_next: "n \<in> clock_readings env (snd (ev_now env w)) \<Longrightarrow> n \<in> clock_readings env w"
  unfolding clock_readings_def
  by (smt (verit) comp_apply funpow_Suc_right mem_Collect_eq)

text \<open>The peers of \<open>m\<close> whose request has expired, as a clock shows it.\<close>

definition expired_peers :: "(peer_id \<Rightarrow> instant) \<Rightarrow> 'w machine \<Rightarrow> peer_id set" where
  "expired_peers clock m =
     {p. awaits (waiting m) p \<and> fst (expired_at (clock p) (the (map_of (waiting m) p)))}"

lemma collect_loop_wpx:
  assumes "distinct order" and "\<forall>p\<in>set order. awaits wm p" and "distinct acc" and "set acc \<inter> set order = {}"
    and Q: "\<And>xs m' clock. same_but_world m m' \<Longrightarrow> distinct xs \<Longrightarrow>
      range clock \<subseteq> clock_readings env (io_world (mc_io m)) \<Longrightarrow>
      set xs = set acc \<union> {p \<in> set order. fst (expired_at (clock p) (the (map_of wm p)))} \<Longrightarrow> Q xs m'"
  shows "wpx D E (foldM (\<lambda>peer expired. case map_of wm peer of
         None \<Rightarrow> returnM expired
       | Some timeout \<Rightarrow>
         bindM (ioM (check_expired env timeout)) (\<lambda>(over, _).
         returnM (if over then List.insert peer expired else expired))) order acc) Q m"
  using assms
proof (induction order arbitrary: acc m Q)
  case Nil
  then show ?case
    using Nil.prems(5) [of m acc "\<lambda>_. fst (ev_now env (io_world (mc_io m)))"]
    by (auto simp: wp_simps clock_readings_first)
next
  case (Cons p order)
  from Cons.prems(2) obtain t where t: "map_of wm p = Some t"
    by (auto simp: awaits_def dest: weak_map_of_SomeI)
  let ?w = "io_world (mc_io m)"
  let ?n = "fst (ev_now env ?w)"
  let ?over = "fst (expired_at ?n t)"
  let ?acc = "if ?over then List.insert p acc else acc"
  have step: "wpx D E (foldM (\<lambda>peer expired. case map_of wm peer of
         None \<Rightarrow> returnM expired
       | Some timeout \<Rightarrow>
         bindM (ioM (check_expired env timeout)) (\<lambda>(over, _).
         returnM (if over then List.insert peer expired else expired))) order ?acc) Q m1"
    if m1: "same_but_world m m1" "clock_readings env (io_world (mc_io m1)) \<subseteq> clock_readings env ?w" for m1
  proof (rule Cons.IH)
    show "distinct order" "\<forall>p\<in>set order. awaits wm p" using Cons.prems by auto
    show "distinct ?acc" "set ?acc \<inter> set order = {}" using Cons.prems by auto
    fix xs m' clock
    assume r: "same_but_world m1 m'" "distinct xs" "range clock \<subseteq> clock_readings env (io_world (mc_io m1))"
      "set xs = set ?acc \<union> {p \<in> set order. fst (expired_at (clock p) (the (map_of wm p)))}"
    show "Q xs m'"
    proof (rule Cons.prems(5) [where clock = "clock(p := ?n)"])
      show "same_but_world m m'" using m1(1) r(1) by (rule same_but_world_trans)
      show "range (clock(p := ?n)) \<subseteq> clock_readings env ?w"
        using r(3) m1(2) clock_readings_first by auto
      show "set xs = set acc \<union> {q \<in> set (p # order). fst (expired_at ((clock(p := ?n)) q) (the (map_of wm q)))}"
        using r(4) t Cons.prems(1) by auto
    qed (rule r(2))
  qed
  have inactive: "?over = (tm_state t = Expired)" if "tm_state t \<noteq> Active"
    using that by (simp add: expired_at_def)
  show ?case
    using t step [of m] step [of "with_world (snd (ev_now env ?w)) m"] inactive
    by (auto simp: wp_simps wpx_returnM_fun check_expired_wp with_world_def same_but_world_def split_beta
        clock_readings_next subset_iff split: if_splits)
qed

lemma collect_expired_wpx:
  assumes ok: "lawful_iteration env" and d: "keys_distinct (waiting m)"
    and Q: "\<And>xs m' clock. same_but_world m m' \<Longrightarrow> distinct xs \<Longrightarrow>
      range clock \<subseteq> clock_readings env (io_world (mc_io m)) \<Longrightarrow>
      set xs = expired_peers clock m \<Longrightarrow> Q xs m'"
  shows "wpx D E (collect_expired env) Q m"
proof -
  let ?o = "ev_iter_peers env (io_world (mc_io m)) (map fst (waiting m))"
  have o: "distinct ?o" "set ?o = fst ` set (waiting m)"
    using iter_peers_lawful [OF ok, of "map fst (waiting m)"] d by (auto simp: keys_distinct_def)
  show ?thesis
    unfolding collect_expired_def wpx_bindM wpx_getM wpx_iter_peers
    by (rule collect_loop_wpx)
      (use o in \<open>auto simp: awaits_def expired_peers_def intro!: Q\<close>)
qed

text \<open>The machine with the peers \<open>ps\<close> taken out of the awaited ones.\<close>

definition forget :: "peer_id list \<Rightarrow> 'w machine \<Rightarrow> 'w machine" where
  "forget ps m = fold (\<lambda>p. with_state (no_longer_awaited p)) ps m"

lemma no_longer_awaited_waiting [simp]:
  "ss_waiting_response_map (no_longer_awaited p st) = AList.delete p (ss_waiting_response_map st)"
  by (simp add: no_longer_awaited_def)

lemma forget_Nil [simp]: "forget [] m = m"
  by (simp add: forget_def)

lemma forget_Cons [simp]: "forget (p # ps) m = forget ps (with_state (no_longer_awaited p) m)"
  by (simp add: forget_def)

lemma forget_waiting:
  assumes "keys_distinct (waiting m)" and "distinct ps" and "\<forall>p\<in>set ps. awaits (waiting m) p"
  shows "keys_distinct (waiting (forget ps m))"
    and "awaits (waiting (forget ps m)) q \<longleftrightarrow> awaits (waiting m) q \<and> q \<notin> set ps"
    and "length (waiting (forget ps m)) + length ps = length (waiting m)"
proof -
  have "keys_distinct (waiting (forget ps m))
    \<and> (\<forall>q. awaits (waiting (forget ps m)) q \<longleftrightarrow> awaits (waiting m) q \<and> q \<notin> set ps)
    \<and> length (waiting (forget ps m)) + length ps = length (waiting m)"
    using assms
  proof (induction ps arbitrary: m)
    case Nil
    then show ?case by simp
  next
    case (Cons p ps)
    let ?m = "with_state (no_longer_awaited p) m"
    have "keys_distinct (waiting ?m)" "\<forall>q\<in>set ps. awaits (waiting ?m) q"
      using Cons.prems by (auto simp: wm.wf_unawait wm.awaited_unawait)
    with Cons show ?case
      using wm.size_unawait [of "waiting m" p] by (auto simp: wm.awaited_unawait)
  qed
  then show "keys_distinct (waiting (forget ps m))"
    "awaits (waiting (forget ps m)) q \<longleftrightarrow> awaits (waiting m) q \<and> q \<notin> set ps"
    "length (waiting (forget ps m)) + length ps = length (waiting m)"
    by auto
qed

lemma no_longer_awaited_queried: "queried m (with_state (no_longer_awaited p) m)"
  by (simp add: queried_def core_def core_state_def no_longer_awaited_def)

lemma forget_queried: "queried m (forget ps m)"
  by (induction ps arbitrary: m) (auto intro: queried_trans no_longer_awaited_queried)

lemma forget_io [simp]: "mc_io (forget ps m) = mc_io m"
  by (induction ps arbitrary: m) simp_all

lemma drop_expired_wpx:
  assumes ok: "lawful_iteration env" and xs: "distinct xs"
    and Q: "\<And>ps. distinct ps \<Longrightarrow> set ps = set xs \<Longrightarrow> Q (length ps) (forget ps m)"
  shows "wpx D E (drop_expired env xs) Q m"
proof -
  have loop: "wpx D E (foldM (\<lambda>peer amount_to_add.
       thenM (upd_state (\<lambda>st. st\<lparr>ss_waiting_response_map := AList.delete peer (ss_waiting_response_map st)\<rparr>))
       (returnM (Suc amount_to_add))) ps n) R t"
    if "R (n + length ps) (forget ps t)" for ps n R and t :: "'a machine"
    using that
    by (induction ps arbitrary: n t)
      (simp_all add: wp_simps wpx_upd_state_fun no_longer_awaited_def [abs_def])
  show ?thesis
    unfolding drop_expired_def wpx_bindM wpx_iter_peers
    by (rule loop) (use iter_peers_lawful [OF ok xs] Q [of "ev_iter_peers env (io_world (mc_io m)) xs"] in simp)
qed


text \<open>Several other peers asked, one after the other.\<close>

primrec peers_asked ::
  "('w, 'm) node_env_scheme \<Rightarrow> peer_id list \<Rightarrow> 'w machine \<Rightarrow> 'w machine \<Rightarrow> bool" where
  "peers_asked env [] m m' \<longleftrightarrow> m' = m"
| "peers_asked env (p # ps) m m' \<longleftrightarrow> (\<exists>m1. other_peer_asked env m p m1 \<and> peers_asked env ps m1 m')"

lemma peers_asked_snoc:
  "peers_asked env ps m m1 \<Longrightarrow> other_peer_asked env m1 p m' \<Longrightarrow> peers_asked env (ps @ [p]) m m'"
  by (induction ps arbitrary: m) auto

lemma peers_askedD:
  assumes "peers_asked env ps m m'" and "keys_distinct (waiting m)"
  shows "queried m m'" and "keys_distinct (waiting m')"
    and "length (waiting m') = length (waiting m) + length ps"
    and "awaits (waiting m') q \<longleftrightarrow> q \<in> set ps \<or> awaits (waiting m) q"
    and "distinct ps" and "\<forall>p\<in>set ps. \<not> awaits (waiting m) p \<and> p \<in> (!) (members m) ` others m"
proof -
  have "queried m m' \<and> keys_distinct (waiting m') \<and> length (waiting m') = length (waiting m) + length ps
    \<and> (\<forall>q. awaits (waiting m') q \<longleftrightarrow> q \<in> set ps \<or> awaits (waiting m) q)
    \<and> distinct ps \<and> (\<forall>p\<in>set ps. \<not> awaits (waiting m) p \<and> p \<in> (!) (members m) ` others m)"
    using assms
  proof (induction ps arbitrary: m)
    case Nil
    then show ?case by simp
  next
    case (Cons p ps)
    then obtain m1 where o: "other_peer_asked env m p m1" and p: "peers_asked env ps m1 m'" by auto
    have q: "queried m m1" and k: "keys_distinct (waiting m1)"
      using o by (simp_all add: other_peer_asked_def)
    have "(!) (members m1) ` others m1 = (!) (members m) ` others m"
      by (simp add: queriedD(17) [OF q] queried_derived(1) [OF q])
    with Cons.IH [OF p k] o show ?case
      by (auto simp: other_peer_asked_def intro: queried_trans)
  qed
  then show "queried m m'" "keys_distinct (waiting m')"
    "length (waiting m') = length (waiting m) + length ps"
    "awaits (waiting m') q \<longleftrightarrow> q \<in> set ps \<or> awaits (waiting m) q"
    "distinct ps" "\<forall>p\<in>set ps. \<not> awaits (waiting m) p \<and> p \<in> (!) (members m) ` others m"
    by auto
qed

text \<open>As long as fewer peers are awaited than there are, one can be found.\<close>

lemma free_peer:
  assumes "distinct (members m)" and "keys_distinct (waiting m)"
    and "length (waiting m) < card (others m)"
  shows "\<exists>i\<in>others m. \<not> awaits (waiting m) (members m ! i)"
proof (rule ccontr)
  assume "\<not> ?thesis"
  then have "(!) (members m) ` others m \<subseteq> fst ` set (waiting m)"
    by (auto simp: awaits_def)
  moreover have "inj_on ((!) (members m)) (others m)"
    using inj_on_nth [OF assms(1)] by (auto simp: others_def)
  ultimately have "card (others m) \<le> card (fst ` set (waiting m))"
    by (metis card_image card_mono finite_imageI finite_set)
  also have "\<dots> \<le> length (waiting m)"
    by (metis card_length length_map list.set_map)
  finally show False using assms(3) by simp
qed

definition unresponsive_handled ::
  "('w, 'm) node_env_scheme \<Rightarrow> 'w machine \<Rightarrow> 'w machine \<Rightarrow> bool" where
  "unresponsive_handled env m m' \<longleftrightarrow>
     (if byzantine bz_hang_idx (mc_state m) then m' = m
      else \<exists>clock gone ps m1. range clock \<subseteq> clock_readings env (io_world (mc_io m))
        \<and> distinct gone \<and> set gone = expired_peers clock m \<and> length ps = length gone
        \<and> same_but_world m m1 \<and> peers_asked env ps (forget gone m1) m')"

text \<open>The loop over the expired peers: as many others are asked as have been forgotten.\<close>

lemma ask_others_wpx:
  assumes ok: "env_ok D E env" "delay_ok E (mc_state m)"
    and m: "order_valid (mc_state m)" "keys_distinct (waiting m)"
    and free: "D \<or> distinct (members m) \<and> length (waiting m) + n \<le> card (others m)"
  shows "wpx D E (forM [0..<n] (\<lambda>_. request_other_peer env)) (\<lambda>_ m'. \<exists>ps. length ps = n \<and> peers_asked env ps m m') m"
proof -
  let ?I = "\<lambda>i t. \<exists>ps. length ps = i \<and> peers_asked env ps m t"
  have "wpx D E (forM [0..<n] (\<lambda>_. request_other_peer env)) (\<lambda>_. ?I (length [0..<n])) m"
  proof (rule wpx_forM)
    show "?I 0 m" by simp
    fix i t
    assume i: "i < length [0..<n]" and "?I i t"
    then obtain ps where ps: "length ps = i" "peers_asked env ps m t" by blast
    note pd = peers_askedD [OF ps(2) m(2)]
    show "wpx D E (request_other_peer env) (\<lambda>_. ?I (Suc i)) t"
    proof (rule request_other_peer_wpx [OF ok(1)])
      show "delay_ok E (mc_state t)" "order_valid (mc_state t)" "keys_distinct (waiting t)"
        using ok(2) m(1) pd(2) queried_derived [OF pd(1)] by auto
      show "D \<or> (\<exists>i\<in>others t. \<not> awaits (waiting t) (members t ! i))"
        using free free_peer [of t] pd(2,3) i ps(1) queriedD(17) [OF pd(1)] queried_derived(1) [OF pd(1)]
        by auto
      show "?I (Suc i) m'" if "other_peer_asked env t peer m'" for peer m'
        using peers_asked_snoc [OF ps(2) that] ps(1) by (intro exI [where x = "ps @ [peer]"]) simp
    qed
  qed
  then show ?thesis by simp
qed

lemma handle_unresponsive_peers_wpx:
  assumes ok: "env_ok D E env" "delay_ok E (mc_state m)"
    and m: "order_valid (mc_state m)" "keys_distinct (waiting m)"
    and free: "D \<or> distinct (members m) \<and> length (waiting m) \<le> card (others m)"
    and Q: "\<And>m'. unresponsive_handled env m m' \<Longrightarrow> Q () m'"
  shows "wpx D E (handle_unresponsive_peers env) Q m"
proof (cases "byzantine bz_hang_idx (mc_state m)")
  case True
  then show ?thesis
    using Q [of m] by (simp add: handle_unresponsive_peers_def wp_simps unresponsive_handled_def)
next
  case False
  have loop: "wpx D E (forM [0..<length gone] (\<lambda>_. request_other_peer env)) Q (forget gone m1)"
    if w: "same_but_world m m1" and xs: "distinct gone" "set gone = expired_peers clock m"
      and clock: "range clock \<subseteq> clock_readings env (io_world (mc_io m))" for m1 gone clock
  proof -
    have eq: "mc_state m1 = mc_state m" using w by (simp add: same_but_world_def)
    have gone: "\<forall>p\<in>set gone. awaits (waiting m1) p"
      using xs(2) eq by (auto simp: expired_peers_def)
    note fw = forget_waiting [of m1 gone, OF _ xs(1) gone]
    have q: "queried m (forget gone m1)"
      using same_but_world_queried [OF w] forget_queried by (rule queried_trans)
    show ?thesis
    proof (rule wpx_conseq [OF ask_others_wpx [OF ok(1)]])
      show "delay_ok E (mc_state (forget gone m1))" "order_valid (mc_state (forget gone m1))"
        "keys_distinct (waiting (forget gone m1))"
        "D \<or> distinct (members (forget gone m1)) \<and>
          length (waiting (forget gone m1)) + length gone \<le> card (others (forget gone m1))"
        using ok(2) m free fw eq queried_derived [OF q] queriedD(17) [OF q] by auto
      fix a t
      assume "\<exists>ps. length ps = length gone \<and> peers_asked env ps (forget gone m1) t"
      then have "unresponsive_handled env m t"
        using False xs clock w unfolding unresponsive_handled_def by auto
      then show "Q a t" using Q by simp
    qed
  qed
  have "wpx D E (drop_expired env xs) (\<lambda>n. wpx D E (forM [0..<n] (\<lambda>_. request_other_peer env)) Q) m1"
    if "same_but_world m m1" "distinct xs" "set xs = expired_peers clock m"
      "range clock \<subseteq> clock_readings env (io_world (mc_io m))" for m1 xs clock
    by (rule drop_expired_wpx [OF env_okD(2) [OF ok(1)] that(2)])
      (use that in \<open>auto intro!: loop [where clock = clock]\<close>)
  then show ?thesis
    using False m(2) by (auto simp: handle_unresponsive_peers_def wp_simps
        intro!: collect_expired_wpx env_okD(2) [OF ok(1)])
qed

end
