(* ===== verification/Node_Invariant.thy ===== *)
theory Node_Invariant
  imports Node_Handlers
begin

text \<open>
  The invariant of a node between two turns of the engine's loop, and that every handler keeps
  it. It ties the phase to the queue of blocks, bounds the votes and the awaited peers of a
  round by the sample size, and says that the node knows its own place among the members.
\<close>

section \<open>The invariant\<close>

definition parameters_ok :: "snowball_state \<Rightarrow> bool" where
  "parameters_ok st \<longleftrightarrow> 0 < unat (ss_k st) \<and> unat (ss_k st) < 2 * unat (ss_alfa st) \<and> 0 < unat (ss_beta st)"

definition place_ok :: "snowball_state \<Rightarrow> bool" where
  "place_ok st \<longleftrightarrow> distinct (ss_member_ids st)
     \<and> position (ss_id st) (ss_member_ids st) = Some (unat (ss_order st))"

definition buffered :: "snowball_state \<Rightarrow> nat" where
  "buffered st = unat (fst (ss_response_buffer st)) + unat (snd (ss_response_buffer st))"

text \<open>A vote in progress: it is on the block at the front of the queue.\<close>

definition round_ok :: "snowball_state \<Rightarrow> block list \<Rightarrow> bool" where
  "round_ok st queue \<longleftrightarrow> (\<exists>b bs. queue = b # bs \<and> block_id b = ss_decision_block st)
     \<and> voting st \<and> ss_last_color st \<in> {OK, KO}
     \<and> buffered st < unat (ss_k st)
     \<and> buffered st + length (ss_waiting_response_map st) \<le> unat (ss_k st)
     \<and> ss_confidence_counter st < ss_beta st"

definition phase_ok :: "snowball_state \<Rightarrow> block list \<Rightarrow> bool" where
  "phase_ok st queue \<longleftrightarrow> (case ss_phase st of
       Idle \<Rightarrow> ss_waiting_response_map st = []
     | Listening \<Rightarrow> round_ok st queue
     | Finishing \<Rightarrow> False)"

definition node_inv :: "'w machine \<Rightarrow> bool" where
  "node_inv m \<longleftrightarrow> parameters_ok (mc_state m) \<and> place_ok (mc_state m)
     \<and> keys_distinct (waiting m) \<and> phase_ok (mc_state m) (mc_block_queue m)
     \<and> (\<forall>b\<in>set (mc_block_queue m). ms_convergenza (ss_measurements (mc_state m)) (block_id b) \<noteq> None)"

text \<open>
  What else a handler needs: a delay to sample from when the node is to be slow and a sample size
  for which a set can be made, when panics are excluded, and enough other members when it is to
  return.
\<close>

definition provided :: "bool \<Rightarrow> (panic \<Rightarrow> 'w machine \<Rightarrow> bool) \<Rightarrow> 'w machine \<Rightarrow> bool" where
  "provided D E m \<longleftrightarrow> delay_ok E (mc_state m) \<and> capacity_ok E (unat (ss_k (mc_state m)))
     \<and> (D \<or> unat (ss_k (mc_state m)) \<le> card (others m))"

definition stays :: "bool \<Rightarrow> (panic \<Rightarrow> 'w machine \<Rightarrow> bool) \<Rightarrow> 'w machine \<Rightarrow> bool" where
  "stays D E m \<longleftrightarrow> node_inv m \<and> provided D E m"

named_theorems inv_defs "definitions of the parts of the invariant"
declare parameters_ok_def [inv_defs] place_ok_def [inv_defs] phase_ok_def [inv_defs]
  node_inv_def [inv_defs] provided_def [inv_defs] stays_def [inv_defs]

lemma place_order_valid: "place_ok st \<Longrightarrow> order_valid st"
  by (auto simp: place_ok_def order_valid_def dest: position_Some)

text \<open>Machines the invariant does not tell apart.\<close>

lemma provided_cong:
  assumes "mc_state m' = st'" and "ss_byzantine_test st' = ss_byzantine_test (mc_state m)"
    and "ss_k st' = ss_k (mc_state m)" and "ss_member_ids st' = members m"
    and "ss_order st' = ss_order (mc_state m)"
  shows "provided D E m' = provided D E m"
  using assms by (simp add: provided_def delay_ok_def others_def)

lemma buffered_queried: "queried m m' \<Longrightarrow> buffered (mc_state m') = buffered (mc_state m)"
  by (simp add: buffered_def queriedD)

lemma queried_inv:
  assumes q: "queried m m'" and s: "stays D E m" and k: "keys_distinct (waiting m')"
    and l: "length (waiting m') \<le> length (waiting m)"
  shows "stays D E m'"
proof -
  note eqs = queriedD [OF q] queried_derived [OF q]
  have "phase_ok (mc_state m') (mc_block_queue m')"
    using s l by (auto simp: inv_defs round_ok_def voting_def eqs buffered_queried [OF q]
        split: phase.splits)
  with s k show ?thesis
    by (simp add: inv_defs eqs)
qed

lemma same_state_inv:
  assumes "stays D E m" and "mc_state m' = mc_state m" and "mc_block_queue m' = mc_block_queue m"
  shows "stays D E m'"
  using assms by (simp add: inv_defs others_def)

lemma stays_ready:
  assumes "stays D E m" and "waiting m = []"
  shows "round_ready D E m"
  using assms place_order_valid [of "mc_state m"] by (auto simp: inv_defs round_ready_def)

lemma idle_ready: "stays D E m \<Longrightarrow> ss_phase (mc_state m) \<noteq> Listening \<Longrightarrow> round_ready D E m"
  by (rule stays_ready) (auto simp: inv_defs split: phase.splits)

section \<open>Rounds\<close>

text \<open>After the first round of a vote is started, or another one in the same vote.\<close>

lemma switch_phase_inv_parts [simp]:
  "parameters_ok (switch_phase st) = parameters_ok st" "place_ok (switch_phase st) = place_ok st"
  "round_ok (switch_phase st) queue = round_ok st queue"
  "order_valid (switch_phase st) = order_valid st" "delay_ok E (switch_phase st) = delay_ok E st"
  by (simp_all add: parameters_ok_def place_ok_def round_ok_def voting_def buffered_def order_valid_def
      delay_ok_def)

lemma new_round_parts:
  assumes n: "new_round_from env m m'" and w: "waiting m = []"
    and p: "parameters_ok (mc_state m)" "place_ok (mc_state m)" "provided D E m"
    and b: "mc_block_queue m = b # bs" "block_id b = ss_decision_block (mc_state m)"
    and v: "voting (mc_state m)" "ss_last_color (mc_state m) \<in> {OK, KO}"
      "ss_confidence_counter (mc_state m) < ss_beta (mc_state m)"
  shows "parameters_ok (mc_state m')" "place_ok (mc_state m')" "provided D E m'"
    "keys_distinct (waiting m')" "round_ok (mc_state m') (mc_block_queue m')"
    "mc_block_queue m' = mc_block_queue m" "ss_phase (mc_state m') = ss_phase (mc_state m)"
    "ms_convergenza (ss_measurements (mc_state m')) = ms_convergenza (ss_measurements (mc_state m))"
proof -
  note d = new_round_fromD [OF n w]
  note q = queriedD [OF d(1)] and q' = queried_derived [OF d(1)]
  show "mc_block_queue m' = mc_block_queue m" "ss_phase (mc_state m') = ss_phase (mc_state m)"
    "ms_convergenza (ss_measurements (mc_state m')) = ms_convergenza (ss_measurements (mc_state m))"
    by (simp_all add: q, simp_all add: clear_buffer_def)
  show pm: "parameters_ok (mc_state m')"
    using p(1) by (simp add: parameters_ok_def q, simp add: clear_buffer_def)
  show "place_ok (mc_state m')"
    using p(2) by (simp add: place_ok_def q, simp add: clear_buffer_def)
  show "provided D E m'"
    using p(3) by (simp add: provided_def q q', simp add: clear_buffer_def delay_ok_def others_def)
  show "keys_distinct (waiting m')" by (rule d(2))
  have "ss_k (mc_state m') = ss_k (mc_state m)" "voting (mc_state m')"
    "ss_last_color (mc_state m') \<in> {OK, KO}"
    "ss_confidence_counter (mc_state m') < ss_beta (mc_state m')"
    "ss_decision_block (mc_state m') = ss_decision_block (mc_state m)"
    using v by (simp_all add: voting_def q, simp_all add: clear_buffer_def)
  moreover have "buffered (mc_state m') = 0" using d(4) by (simp add: buffered_def)
  ultimately show "round_ok (mc_state m') (mc_block_queue m')"
    using b pm d(3) \<open>mc_block_queue m' = mc_block_queue m\<close>
    by (simp add: round_ok_def parameters_ok_def)
qed

lemma round_running_inv:
  assumes "parameters_ok (mc_state m)" "place_ok (mc_state m)" "provided D E m"
    and "keys_distinct (waiting m)" "round_ok (mc_state m) (mc_block_queue m)"
    and "ss_phase (mc_state m) = Listening"
    and "\<forall>b\<in>set (mc_block_queue m). ms_convergenza (ss_measurements (mc_state m)) (block_id b) \<noteq> None"
  shows "stays D E m"
  using assms by (simp add: stays_def node_inv_def phase_ok_def)

lemma vote_started_inv:
  assumes vs: "vote_started env b m m'" and s: "stays D E m" and i: "ss_phase (mc_state m) = Idle"
    and b: "mc_block_queue m = blk # bs" "block_id blk = b"
  shows "stays D E m'"
proof -
  let ?m = "with_state (start_vote b) m"
  obtain m1 where n: "new_round_from env ?m m1" and m': "m' = with_state switch_phase m1"
    using vs by (auto simp: vote_started_def)
  have inv: "parameters_ok (mc_state ?m)" "place_ok (mc_state ?m)" "provided D E ?m" "waiting ?m = []"
    "ss_confidence_counter (mc_state ?m) < ss_beta (mc_state ?m)"
    using s i by (auto simp: inv_defs delay_ok_def others_def word_less_nat_alt)
  have "parameters_ok (mc_state m1)" "place_ok (mc_state m1)" "provided D E m1"
    "keys_distinct (waiting m1)" "round_ok (mc_state m1) (mc_block_queue m1)"
    "mc_block_queue m1 = mc_block_queue m" "ss_phase (mc_state m1) = Idle"
    "ms_convergenza (ss_measurements (mc_state m1)) = ms_convergenza (ss_measurements (mc_state m))"
    using new_round_parts [OF n inv(4,1-3), of blk bs] inv(5) b i by (simp_all add: voting_def)
  then show ?thesis
    unfolding m' using s by (intro round_running_inv) (auto simp: inv_defs others_def)
qed

text \<open>A complete round: every answer is in, the vote is still on.\<close>

definition evaluating :: "bool \<Rightarrow> (panic \<Rightarrow> 'w machine \<Rightarrow> bool) \<Rightarrow> 'w machine \<Rightarrow> bool" where
  "evaluating D E m \<longleftrightarrow> parameters_ok (mc_state m) \<and> place_ok (mc_state m) \<and> provided D E m
     \<and> waiting m = [] \<and> ss_phase (mc_state m) = Listening
     \<and> (\<exists>b bs. mc_block_queue m = b # bs \<and> block_id b = ss_decision_block (mc_state m))
     \<and> voting (mc_state m) \<and> ss_last_color (mc_state m) \<in> {OK, KO}
     \<and> (\<forall>b\<in>set (mc_block_queue m). ms_convergenza (ss_measurements (mc_state m)) (block_id b) \<noteq> None)"

lemma record_majority_inv_parts [simp]:
  "parameters_ok (record_majority i st) = parameters_ok st" "place_ok (record_majority i st) = place_ok st"
  "delay_ok E (record_majority i st) = delay_ok E st"
  by (simp_all add: parameters_ok_def place_ok_def delay_ok_def)

lemma decided_inv:
  assumes d: "decided env (with_state switch_phase m) m'" and e: "evaluating D E m"
  shows "stays D E m'"
proof -
  let ?st = "mc_state m"
  obtain elapsed chain st where st: "st = (switch_phase ?st)\<lparr>ss_chain_head := chain,
      ss_measurements := (ss_measurements ?st)\<lparr>ms_convergenza :=
        (ms_convergenza (ss_measurements ?st))(ss_decision_block ?st \<mapsto> elapsed)\<rparr>\<rparr>"
    and m': "mc_state m' = switch_phase st" "mc_block_queue m' = tl (mc_block_queue m)"
    using d by (auto simp: decided_def Let_def)
  have fields: "ss_phase (mc_state m') = Idle" "waiting m' = []" "ss_k (mc_state m') = ss_k ?st"
    "ss_byzantine_test (mc_state m') = ss_byzantine_test ?st" "members m' = members m"
    "ss_order (mc_state m') = ss_order ?st"
    "ms_convergenza (ss_measurements (mc_state m'))
      = (ms_convergenza (ss_measurements ?st))(ss_decision_block ?st \<mapsto> elapsed)"
    "parameters_ok (mc_state m')" "place_ok (mc_state m')"
    using e by (simp_all add: m'(1) st evaluating_def, simp_all add: parameters_ok_def place_ok_def)
  have "provided D E m'"
    using e provided_cong [of m' "mc_state m'" m] fields by (simp add: evaluating_def)
  moreover have "\<forall>b\<in>set (mc_block_queue m'). ms_convergenza (ss_measurements (mc_state m')) (block_id b) \<noteq> None"
    using e m'(2) fields(7) by (auto simp: evaluating_def)
  ultimately show ?thesis
    using fields by (simp add: inv_defs keys_distinct_def)
qed

lemma colour_decides [simp]: "colour i = OK \<or> colour i = KO"
  by (simp add: colour_def)

lemma next_round_inv:
  assumes n: "new_round_from env m m'" and e: "evaluating D E m"
    and c: "ss_confidence_counter (mc_state m) < ss_beta (mc_state m)"
  shows "stays D E m'"
proof -
  obtain b bs where b: "mc_block_queue m = b # bs" "block_id b = ss_decision_block (mc_state m)"
    using e by (auto simp: evaluating_def)
  from e c show ?thesis
    using new_round_parts [OF n, of D E b bs] b
    by (intro round_running_inv) (simp_all add: evaluating_def)
qed

lemma evaluating_record:
  assumes "evaluating D E m" shows "evaluating D E (with_state (record_majority i) m)"
  using assms record_majority_voting [of "mc_state m" i]
    provided_cong [of "with_state (record_majority i) m" "record_majority i (mc_state m)" m D E]
  by (simp add: evaluating_def)

lemma evaluating_reset:
  assumes "evaluating D E m" shows "evaluating D E (with_state (ss_confidence_counter_update (\<lambda>_. 0)) m)"
  using assms by (simp add: evaluating_def parameters_ok_def place_ok_def voting_def provided_def
      delay_ok_def others_def)

lemma round_evaluated_inv:
  assumes r: "round_evaluated env m m'" and e: "evaluating D E m"
  shows "stays D E m'"
proof (cases "winner (mc_state m)")
  case None
  have "0 < ss_beta (mc_state m)"
    using e by (simp add: evaluating_def parameters_ok_def word_less_nat_alt)
  then show ?thesis
    using r None next_round_inv [OF _ evaluating_reset [OF e]] by (auto simp: round_evaluated_def)
next
  case (Some i)
  show ?thesis
    using r Some decided_inv [OF _ evaluating_record [OF e]] next_round_inv [OF _ evaluating_record [OF e]]
    by (auto simp: round_evaluated_def Let_def not_le split: if_splits)
qed

section \<open>Every handler keeps the invariant\<close>

text \<open>In every reading: with panics and divergence allowed, excluded, or one of them.\<close>

lemma handle_queue_inv:
  assumes ok: "env_ok D E env" and s: "stays D E m"
  shows "wpx D E (handle_queue env) (\<lambda>_. stays D E) m"
proof (rule handle_queue_wpx [OF ok])
  fix b bs
  assume "mc_block_queue m = b # bs" "block_id b \<noteq> ss_decision_block (mc_state m)"
  then have "ss_phase (mc_state m) \<noteq> Listening"
    using s by (auto simp: inv_defs round_ok_def split: phase.splits)
  with s show "round_ready D E m" by (rule idle_ready)
next
  fix m'
  assume h: "queue_handled env m m'"
  show "stays D E m'"
  proof (cases "mc_block_queue m")
    case Nil
    with h s show ?thesis by (simp add: queue_handled_def)
  next
    case (Cons b bs)
    show ?thesis
    proof (cases "block_id b = ss_decision_block (mc_state m)")
      case True
      with h s Cons show ?thesis by (simp add: queue_handled_def)
    next
      case False
      with Cons s have i: "ss_phase (mc_state m) = Idle"
        by (auto simp: inv_defs round_ok_def split: phase.splits)
      from h Cons False obtain head where x: "block_examined env b head m m'"
        by (auto simp: queue_handled_def)
      show ?thesis
      proof (cases "block_num b < block_num head")
        case True
        with x s show ?thesis
          by (auto simp: block_examined_def acted_def intro: same_state_inv)
      next
        case False
        with x obtain m1 where m1: "acted [GetChainHead, CheckBlocks [block_id b]] m m1"
          "vote_started env (block_id b) m1 m'" by (auto simp: block_examined_def)
        have "stays D E m1" using s m1(1) by (auto simp: acted_def intro: same_state_inv)
        then show ?thesis
          using vote_started_inv [OF m1(2)] m1(1) i Cons by (auto simp: acted_def)
      qed
    qed
  qed
qed

lemma on_block_new_inv:
  assumes ok: "env_ok D E env" and s: "stays D E m"
  shows "wpx D E (on_block_new env b) (\<lambda>_. stays D E) m"
proof (rule on_block_new_wpx [OF ok])
  fix m'
  assume "block_queued b m m'"
  then obtain t where st: "mc_state m' = (mc_state m)\<lparr>ss_measurements := (ss_measurements (mc_state m))
         \<lparr>ms_convergenza := (ms_convergenza (ss_measurements (mc_state m)))(block_id b \<mapsto> t)\<rparr>\<rparr>"
    and q: "mc_block_queue m' = mc_block_queue m @ [b]"
    by (auto simp: block_queued_def)
  have "round_ok (mc_state m') (mc_block_queue m')" if "round_ok (mc_state m) (mc_block_queue m)"
    using that by (auto simp: st q round_ok_def voting_def buffered_def)
  then show "stays D E m'"
    using s provided_cong [of m' "mc_state m'" m D E]
    by (auto simp: st q stays_def node_inv_def parameters_ok_def place_ok_def phase_ok_def split: phase.splits)
qed

text \<open>A vote that is counted.\<close>

lemma count_vote_buffered:
  assumes i: "node_inv m" and x: "expects (mc_state m) p" and v: "v = 0 \<or> v = 1"
    and m2: "m2 = with_state (count_vote v) (with_state (no_longer_awaited p) m)"
  shows "buffered (mc_state m2) = Suc (buffered (mc_state m))"
    and "round_complete (mc_state m2) \<longleftrightarrow> buffered (mc_state m2) = unat (ss_k (mc_state m))"
proof -
  let ?st = "mc_state m"
  have "round_ok ?st (mc_block_queue m)"
    using i x by (simp add: node_inv_def phase_ok_def expects_def)
  moreover obtain b0 b1 where b: "ss_response_buffer ?st = (b0, b1)" by fastforce
  ultimately have lt: "unat b0 + unat b1 < unat (ss_k ?st)" by (simp add: round_ok_def buffered_def)
  have kb: "unat (ss_k ?st) < 2 ^ 64" using unsigned_less [of "ss_k ?st"] by simp
  have Suc_b: "unat (b0 + 1) = Suc (unat b0)" "unat (b1 + 1) = Suc (unat b1)"
    using lt kb by (simp_all add: unat_word_ariths)
  show buf: "buffered (mc_state m2) = Suc (buffered ?st)"
    using v Suc_b b by (auto simp: buffered_def m2 count_vote_def no_longer_awaited_def)
  obtain c0 c1 where c: "ss_response_buffer (mc_state m2) = (c0, c1)" by fastforce
  then have "unat (c0 + c1) = unat c0 + unat c1"
    using buf lt kb b by (simp add: buffered_def unat_word_ariths)
  moreover have "ss_k (mc_state m2) = ss_k ?st" by (simp add: m2 count_vote_def no_longer_awaited_def)
  ultimately show "round_complete (mc_state m2) \<longleftrightarrow> buffered (mc_state m2) = unat (ss_k ?st)"
    using c by (auto simp: round_complete_def buffered_def word_unat_eq_iff)
qed

lemma count_vote_inv:
  assumes s: "stays D E m" and x: "expects (mc_state m) p" and v: "v = 0 \<or> v = 1"
    and m2: "m2 = with_state (count_vote v) (with_state (no_longer_awaited p) m)"
  shows "round_complete (mc_state m2) \<Longrightarrow> evaluable D E m2 \<and> evaluating D E m2"
    and "\<not> round_complete (mc_state m2) \<Longrightarrow> stays D E m2"
proof -
  let ?st = "mc_state m"
  have l: "ss_phase ?st = Listening" and a: "awaits (waiting m) p"
    using x by (auto simp: expects_def)
  have r: "round_ok ?st (mc_block_queue m)" and par: "parameters_ok ?st" and pl: "place_ok ?st"
    and kd: "keys_distinct (waiting m)" and pr: "provided D E m"
    and ts: "\<forall>b\<in>set (mc_block_queue m). ms_convergenza (ss_measurements ?st) (block_id b) \<noteq> None"
    using s l by (auto simp: stays_def node_inv_def phase_ok_def)
  obtain b0 b1 where b: "ss_response_buffer ?st = (b0, b1)" by fastforce
  have lt: "unat b0 + unat b1 < unat (ss_k ?st)" using r b by (simp add: round_ok_def buffered_def)
  have kb: "unat (ss_k ?st) < 2 ^ 64" using unsigned_less [of "ss_k ?st"] by simp
  define b0' where "b0' = (if v = 0 then b0 + 1 else b0)"
  define b1' where "b1' = (if v = 0 then b1 else b1 + 1)"
  have st2: "mc_state m2 = ?st\<lparr>ss_waiting_response_map := AList.delete p (waiting m),
      ss_response_buffer := (b0', b1')\<rparr>" and frame: "mc_block_queue m2 = mc_block_queue m"
    using v b by (auto simp: m2 count_vote_def no_longer_awaited_def b0'_def b1'_def)
  have inv: "node_inv m" using s by (simp add: stays_def)
  note buf = count_vote_buffered(1) [OF inv x v m2] and rc = count_vote_buffered(2) [OF inv x v m2]
  have w: "Suc (length (waiting m2)) = length (waiting m)" "keys_distinct (waiting m2)"
    using wm.size_unawait [OF kd a] wm.wf_unawait [OF kd] by (simp_all add: st2)
  have parts: "parameters_ok (mc_state m2)" "place_ok (mc_state m2)" "provided D E m2" "voting (mc_state m2)"
    "ss_last_color (mc_state m2) \<in> {OK, KO}" "ss_phase (mc_state m2) = Listening"
    "\<exists>b bs. mc_block_queue m2 = b # bs \<and> block_id b = ss_decision_block (mc_state m2)"
    "\<forall>b\<in>set (mc_block_queue m2). ms_convergenza (ss_measurements (mc_state m2)) (block_id b) \<noteq> None"
    "ss_confidence_counter (mc_state m2) < ss_beta (mc_state m2)"
    using r par pl pr ts l provided_cong [of m2 "mc_state m2" m D E]
    by (auto simp: st2 frame round_ok_def parameters_ok_def place_ok_def voting_def)
  have sum: "buffered ?st + length (waiting m) \<le> unat (ss_k ?st)" using r by (simp add: round_ok_def)
  show "stays D E m2" if "\<not> round_complete (mc_state m2)"
  proof (rule round_running_inv)
    show "round_ok (mc_state m2) (mc_block_queue m2)"
      using parts that rc buf lt b sum w(1) by (auto simp: round_ok_def st2 buffered_def)
  qed (use parts w in auto)
  assume "round_complete (mc_state m2)"
  then have k: "buffered (mc_state m2) = unat (ss_k ?st)" using rc by simp
  have "length (waiting m2) = 0" using sum buf w(1) k by linarith
  then have "waiting m2 = []" by simp
  moreover from this have "round_ready D E m2"
    using parts place_order_valid [of "mc_state m2"]
    by (auto simp: round_ready_def provided_def place_ok_def)
  moreover have "single_majority (mc_state m2)"
    using k parts(1) par
    by (auto simp: single_majority_def parameters_ok_def buffered_def votes_def word_less_nat_alt
        word_le_nat_alt st2)
  moreover have "block_known E (mc_state m2)"
    using parts(7,8) by (auto simp: block_known_def)
  ultimately show "evaluable D E m2 \<and> evaluating D E m2"
    using parts by (simp add: evaluable_def evaluating_def)
qed

lemma no_longer_awaited_inv:
  assumes s: "stays D E m" and a: "awaits (waiting m) p"
  shows "stays D E (with_state (no_longer_awaited p) m)"
proof -
  have k: "keys_distinct (waiting m)" using s by (simp add: inv_defs)
  show ?thesis
    using wm.size_unawait [OF k a] wm.wf_unawait [OF k, of p]
    by (intro queried_inv [OF no_longer_awaited_queried s]) simp_all
qed

lemma on_response_inv:
  assumes ok: "env_ok D E env" and s: "stays D E m"
  shows "wpx D E (on_response env p payload) (\<lambda>_. stays D E) m"
proof (rule on_response_wpx [OF ok])
  fix m2
  assume "expects (mc_state m) p" "sm_vote payload \<in> {0, 1}"
    "m2 = with_state (count_vote (sm_vote payload)) (with_state (no_longer_awaited p) m)"
    "round_complete (mc_state m2)"
  then show "evaluable D E m2"
    using count_vote_inv(1) [OF s] by blast
next
  fix again m'
  assume h: "response_handled env p payload m again m'"
  let ?m1 = "with_state (no_longer_awaited p) m"
  let ?m2 = "with_state (count_vote (sm_vote payload)) ?m1"
  show "stays D E m'"
  proof (cases "expects (mc_state m) p")
    case False
    with h s show ?thesis by (simp add: response_handled_def)
  next
    case x: True
    show ?thesis
    proof (cases "sm_vote payload = 0 \<or> sm_vote payload = 1")
      case False
      with h x have "m' = ?m1" by (auto simp: response_handled_def Let_def)
      with x show ?thesis using no_longer_awaited_inv [OF s] by (simp add: expects_def)
    next
      case True
      note c = count_vote_inv [OF s x True refl]
      from h x True have "if round_complete (mc_state ?m2) then round_evaluated env ?m2 m' else m' = ?m2"
        by (auto simp: response_handled_def Let_def)
      then show ?thesis
        using c round_evaluated_inv by (auto split: if_splits)
    qed
  qed
qed

lemma on_request_inv:
  assumes ok: "env_ok D E env" and s: "stays D E m"
  shows "wpx D E (on_request env p payload) (\<lambda>_. stays D E) m"
proof (rule on_request_wpx [OF ok])
  show "delay_ok E (mc_state m)" using s by (simp add: inv_defs)
  fix again m'
  assume h: "request_answered env p payload m again m'"
  have k: "keys_distinct (waiting m)" using s by (simp add: inv_defs)
  have "stays D E m'" if "sent env p t v n m m'" for t v n
    using sent_queried [OF that] k by (intro queried_inv [OF _ s]) auto
  with h s show "stays D E m'"
    by (auto simp: request_answered_def Let_def split: if_splits option.splits)
qed

lemma members_outnumber:
  assumes s: "stays D E m" and d: "\<not> D" and l: "length (waiting m) < unat (ss_k (mc_state m))"
  shows "\<exists>i\<in>others m. \<not> awaits (waiting m) (members m ! i)"
  using s d l by (intro free_peer) (auto simp: inv_defs)

lemma on_unavailable_inv:
  assumes ok: "env_ok D E env" and s: "stays D E m"
  shows "wpx D E (on_unavailable env p) (\<lambda>_. stays D E) m"
proof (rule on_unavailable_wpx [OF ok])
  let ?m1 = "with_state (no_longer_awaited p) m"
  assume x: "expects (mc_state m) p"
  then have a: "awaits (waiting m) p" by (simp add: expects_def)
  have s1: "stays D E ?m1" by (rule no_longer_awaited_inv [OF s a])
  have k: "keys_distinct (waiting m)" using s by (simp add: inv_defs)
  have "length (waiting m) \<le> unat (ss_k (mc_state m))"
    using s x by (auto simp: inv_defs expects_def round_ok_def)
  then have "length (waiting ?m1) < unat (ss_k (mc_state ?m1))"
    using wm.size_unawait [OF k a] by (simp add: no_longer_awaited_def)
  then have "D \<or> (\<exists>i\<in>others ?m1. \<not> awaits (waiting ?m1) (members ?m1 ! i))"
    using members_outnumber [OF s1] by auto
  then show "can_ask D E ?m1"
    using s1 place_order_valid [of "mc_state ?m1"] unfolding can_ask_def by (simp add: inv_defs)
next
  fix again m'
  assume h: "unavailable_handled env p m again m'"
  let ?m1 = "with_state (no_longer_awaited p) m"
  show "stays D E m'"
  proof (cases "expects (mc_state m) p")
    case False
    with h s show ?thesis by (simp add: unavailable_handled_def)
  next
    case True
    then have a: "awaits (waiting m) p" by (simp add: expects_def)
    have k: "keys_distinct (waiting m)" using s by (simp add: inv_defs)
    from h True obtain peer where o: "other_peer_asked env ?m1 peer m'"
      by (auto simp: unavailable_handled_def)
    show ?thesis
    proof (rule queried_inv [OF _ s])
      show "queried m m'"
        using o queried_trans [OF no_longer_awaited_queried] by (auto simp: other_peer_asked_def)
      show "keys_distinct (waiting m')" "length (waiting m') \<le> length (waiting m)"
        using o wm.size_unawait [OF k a] by (simp_all add: other_peer_asked_def)
    qed
  qed
qed

lemma on_peer_message_inv:
  assumes ok: "env_ok D E env" and s: "stays D E m"
  shows "wpx D E (on_peer_message env message p payload) (\<lambda>_. stays D E) m"
  using on_request_inv [OF ok s] on_response_inv [OF ok s] on_unavailable_inv [OF ok s] s
  by (simp add: on_peer_message_def wp_simps)

lemma handle_unresponsive_peers_inv:
  assumes ok: "env_ok D E env" and s: "stays D E m"
  shows "wpx D E (handle_unresponsive_peers env) (\<lambda>_. stays D E) m"
proof (rule handle_unresponsive_peers_wpx [OF ok])
  show "delay_ok E (mc_state m)" "order_valid (mc_state m)" "keys_distinct (waiting m)"
    using s place_order_valid by (auto simp: inv_defs)
  have "length (waiting m) \<le> unat (ss_k (mc_state m))"
    using s by (auto simp: inv_defs round_ok_def split: phase.splits)
  then show "D \<or> distinct (members m) \<and> length (waiting m) \<le> card (others m)"
    using s by (auto simp: inv_defs)
next
  fix m'
  assume h: "unresponsive_handled env m m'"
  show "stays D E m'"
  proof (cases "byzantine bz_hang_idx (mc_state m)")
    case True
    with h s show ?thesis by (simp add: unresponsive_handled_def)
  next
    case False
    with h obtain clock gone ps m1 where g: "distinct gone" "set gone = expired_peers clock m"
      "length ps = length gone" "same_but_world m m1" "peers_asked env ps (forget gone m1) m'"
      by (auto simp: unresponsive_handled_def)
    have eq: "mc_state m1 = mc_state m" using g(4) by (simp add: same_but_world_def)
    have k: "keys_distinct (waiting m1)" using s eq by (simp add: inv_defs)
    have gone: "\<forall>p\<in>set gone. awaits (waiting m1) p"
      using g(2) eq by (auto simp: expired_peers_def)
    note fw = forget_waiting [OF k g(1) gone]
    note pd = peers_askedD [OF g(5) fw(1)]
    show ?thesis
    proof (rule queried_inv [OF _ s])
      show "queried m m'"
        using same_but_world_queried [OF g(4)] forget_queried [of m1 gone] pd(1)
        by (blast intro: queried_trans)
      show "keys_distinct (waiting m')" by (rule pd(2))
      show "length (waiting m') \<le> length (waiting m)" using pd(3) fw(3) g(3) eq by simp
    qed
  qed
qed

section \<open>The membership\<close>

lemma position_mem: "position x xs = Some i \<Longrightarrow> x \<in> set xs"
  using position_None [of x xs] by auto

lemma position_remove_at:
  assumes "distinct xs" and "position x xs = Some n" and "i < length xs" and "i \<noteq> n"
  shows "position x (remove_at i xs) = Some (if i < n then n - 1 else n)"
proof -
  let ?j = "if i < n then n - 1 else n"
  have n: "n < length xs" "xs ! n = x" using position_Some [OF assms(2)] by auto
  have "?j < length (remove_at i xs)" using n(1) assms(3,4) by auto
  moreover have "remove_at i xs ! ?j = x"
    using n assms(3,4) by (auto simp: remove_at_def nth_append min_def)
  ultimately show ?thesis
    using position_distinct [OF distinct_remove_at(1) [OF assms(1,3)], of ?j] by simp
qed

lemma with_members_inv:
  assumes s: "stays D E m" and ps: "distinct ps" "position (ss_id (mc_state m)) ps = Some i" "i < 2 ^ 64"
    and k: "D \<or> unat (ss_k (mc_state m)) < length ps"
  shows "stays D E (with_state (with_members ps) m)"
proof -
  let ?m = "with_state (with_members ps) m"
  have i: "unat (of_nat i :: u64) = i" using ps(3) by (simp add: unat_of_nat)
  have pl: "place_ok (mc_state ?m)" using ps i by (simp add: place_ok_def)
  have "card (others ?m) = length ps - 1"
    using card_others [OF place_order_valid [OF pl]] by simp
  with k have "provided D E ?m"
    using s by (auto simp: inv_defs delay_ok_def)
  moreover have "phase_ok (mc_state ?m) (mc_block_queue ?m)"
    using s by (auto simp: inv_defs round_ok_def voting_def buffered_def split: phase.splits)
  ultimately show ?thesis
    using s pl by (simp add: stays_def node_inv_def parameters_ok_def)
qed

lemma enough_members:
  "stays D E m \<Longrightarrow> D \<or> unat (ss_k (mc_state m)) < length (members m)"
  using card_others [of m] place_order_valid [of "mc_state m"] by (auto simp: inv_defs)

lemma on_peer_connected_inv:
  assumes s: "stays D E m"
  shows "wpx D E (on_peer_connected p) (\<lambda>_. stays D E) m"
proof -
  have pl: "distinct (members m)" "position (ss_id (mc_state m)) (members m) = Some (unat (ss_order (mc_state m)))"
    using s by (auto simp: inv_defs)
  then have me: "ss_id (mc_state m) \<in> set (members m)"
    by (blast intro: position_mem)
  have lt: "unat (ss_order (mc_state m)) < 2 ^ 64"
    using unsigned_less [of "ss_order (mc_state m)"] by simp
  have "stays D E (with_state (with_members (members m @ [p])) m)" if "p \<notin> set (members m)"
    using pl me that enough_members [OF s]
    by (intro with_members_inv [OF s _ _ lt]) (auto simp: position_append)
  with s me show ?thesis
    by (simp add: on_peer_connected_wpx)
qed

lemma member_left_inv:
  assumes s: "stays D E m" and i: "i < length (members m)"
    and me: "ss_id (mc_state m) \<in> set (remove_at i (members m))"
    and k: "D \<or> unat (ss_k (mc_state m)) < length (members m) - 1"
  shows "stays D E (with_state (with_members (remove_at i (members m))) m)"
proof -
  let ?o = "unat (ss_order (mc_state m))"
  have pl: "distinct (members m)" "position (ss_id (mc_state m)) (members m) = Some ?o"
    using s by (auto simp: inv_defs)
  have "i \<noteq> ?o"
    using me distinct_remove_at(2) [OF pl(1) i] position_Some [OF pl(2)] by auto
  then have p: "position (ss_id (mc_state m)) (remove_at i (members m)) = Some (if i < ?o then ?o - 1 else ?o)"
    using position_remove_at [OF pl i] by simp
  have lt: "?o < 2 ^ 64" using unsigned_less [of "ss_order (mc_state m)"] by simp
  then have "(if i < ?o then ?o - 1 else ?o) < 2 ^ 64"
    by (rule le_less_trans [rotated]) simp
  then show ?thesis
    using distinct_remove_at(1) [OF pl(1) i] p k i
    by (intro with_members_inv [OF s]) auto
qed

text \<open>The peer that disconnects must be another member, unless panics are allowed.\<close>

definition may_leave :: "bool \<Rightarrow> peer_id \<Rightarrow> 'w machine \<Rightarrow> bool" where
  "may_leave D p m \<longleftrightarrow> p \<in> set (members m) \<and> p \<noteq> ss_id (mc_state m) \<and> length (members m) \<le> 2 ^ 64
     \<and> (D \<or> unat (ss_k (mc_state m)) < length (members m) - 1)"

lemma on_peer_disconnected_inv:
  assumes s: "stays D E m" and p: "D \<and> (\<forall>p m. E p m) \<or> may_leave D p m"
  shows "wpx D E (on_peer_disconnected p) (\<lambda>_. stays D E) m"
proof (cases "D \<and> (\<forall>p m. E p m)")
  case True
  then show ?thesis
    by (intro on_peer_disconnected_partial member_left_inv [OF s]) auto
next
  case False
  with p have l: "may_leave D p m" by simp
  then obtain i where i: "position p (members m) = Some i"
    using position_in_set by (fastforce simp: may_leave_def)
  have pl: "distinct (members m)" "ss_id (mc_state m) \<in> set (members m)"
    using s by (auto simp: inv_defs intro: position_mem)
  have "ss_id (mc_state m) \<in> set (remove_at i (members m))"
    using pl l distinct_remove_at(2) [OF pl(1)] position_Some [OF i] by (auto simp: may_leave_def)
  then show ?thesis
    using l i position_Some [OF i] member_left_inv [OF s, of i]
    by (simp add: on_peer_disconnected_wpx may_leave_def Let_def)
qed

end
