(* ===== verification/Node_Publishing.thy ===== *)
theory Node_Publishing
  imports Node_Invariant
begin

text \<open>
  Publishing: the two loops that wait for the validator, what the finalized block carries, and
  that publishing changes neither the state nor the queue of blocks.
\<close>

section \<open>Waiting for the validator\<close>

definition waited :: "event \<Rightarrow> nat \<Rightarrow> 'w machine \<Rightarrow> 'w machine \<Rightarrow> bool" where
  "waited e n m m' \<longleftrightarrow> mc_state m' = mc_state m \<and> mc_block_queue m' = mc_block_queue m
     \<and> io_trace (mc_io m') = io_trace (mc_io m) @ concat (replicate n [Slept (from_secs 1), e])"

lemma waited_0: "mc_state m' = mc_state m \<Longrightarrow> mc_block_queue m' = mc_block_queue m \<Longrightarrow>
    io_trace (mc_io m') = io_trace (mc_io m) \<Longrightarrow> waited e 0 m m'"
  by (simp add: waited_def)

text \<open>The loop ends with an answer other than \<open>BlockNotReady\<close>.\<close>

definition wait_result ::
  "event \<Rightarrow> ('w \<Rightarrow> (sdk_error + 'a) \<times> 'w) \<Rightarrow> sdk_error + 'a \<Rightarrow> 'w machine
     \<Rightarrow> sdk_error + 'a \<Rightarrow> 'w machine \<Rightarrow> bool" where
  "wait_result e f r m r' m' \<longleftrightarrow> r' \<noteq> Inl BlockNotReady
     \<and> (\<exists>n. waited e n m m' \<and> (r' = r \<or> (\<exists>w. r' = fst (f w))))"

lemma wait_result_step:
  assumes "wait_result e f (fst (f w)) m1 r' m'"
    and "mc_state m1 = mc_state m" and "mc_block_queue m1 = mc_block_queue m"
    and "io_trace (mc_io m1) = io_trace (mc_io m) @ [Slept (from_secs 1), e]"
  shows "wait_result e f r m r' m'"
proof -
  from assms(1) obtain n where n: "waited e n m1 m'" "r' \<noteq> Inl BlockNotReady" "\<exists>w. r' = fst (f w)"
    by (auto simp: wait_result_def)
  then have "waited e (Suc n) m m'" using assms(2-4) by (simp add: waited_def)
  with n show ?thesis by (auto simp: wait_result_def)
qed

definition marking :: "(unit, 'w machine) comp \<Rightarrow> bool" where
  "marking mark \<longleftrightarrow> (\<exists>g. mark = modifyM (\<lambda>m. m\<lparr>mc_log_guard := g (mc_log_guard m)\<rparr>))"

lemma marking_set [simp]: "marking (set_not_ready_to_summarize b)" "marking (set_not_ready_to_finalize b)"
proof -
  show "marking (set_not_ready_to_summarize b)"
    unfolding marking_def set_not_ready_to_summarize_def
    by (rule exI [where x = "\<lambda>g. g\<lparr>lg_not_ready_to_summarize := b\<rparr>"]) simp
  show "marking (set_not_ready_to_finalize b)"
    unfolding marking_def set_not_ready_to_finalize_def
    by (rule exI [where x = "\<lambda>g. g\<lparr>lg_not_ready_to_finalize := b\<rparr>"]) simp
qed

lemma wait_until_ready_partial:
  assumes "marking mark"
  shows "wpx True E (wait_until_ready env mark (ioM (call e f)) r) (wait_result e f r m) m"
  unfolding wpx_outcome
proof (intro allI impI)
  fix res
  assume "wait_until_ready env mark (ioM (call e f)) r m = Some res"
  then show "outcome_ok E (wait_result e f r m) res"
  proof (rule wait_until_ready.raw_induct [where P = "\<lambda>env mark request r m res.
        marking mark \<and> request = ioM (call e f) \<longrightarrow> outcome_ok E (wait_result e f r m) res",
        rotated, THEN mp])
    show "marking mark \<and> ioM (call e f) = ioM (call e f)" using assms by simp
    fix rec env mark request r m res
    assume IH: "\<And>env mark request r m res. rec env mark request r m = Some res \<Longrightarrow>
        marking mark \<and> request = ioM (call e f) \<longrightarrow> outcome_ok E (wait_result e f r m) res"
      and eq: "(if r = Inl BlockNotReady then thenM mark (thenM (ioM (sleep env (from_secs 1)))
          (bindM request (rec env mark request))) m else returnM r m) = Some res"
    show "marking mark \<and> request = ioM (call e f) \<longrightarrow> outcome_ok E (wait_result e f r m) res"
    proof
      assume h: "marking mark \<and> request = ioM (call e f)"
      show "outcome_ok E (wait_result e f r m) res"
      proof (cases "r = Inl BlockNotReady")
        case False
        with eq have "res = Return r m" by (simp add: returnM_def)
        with False show ?thesis
          by (auto simp: outcome_ok_def wait_result_def intro!: exI [where x = 0] waited_0)
      next
        case True
        have again: "wpx True E (rec env mark request r1) (wait_result e f r1 m1) m1" for r1 m1
          using IH h unfolding wpx_outcome by blast
        obtain g where g: "mark = modifyM (\<lambda>m. m\<lparr>mc_log_guard := g (mc_log_guard m)\<rparr>)"
          using h by (auto simp: marking_def)
        have "wpx True E (thenM mark (thenM (ioM (sleep env (from_secs 1)))
            (bindM request (rec env mark request)))) (wait_result e f r m) m"
          unfolding g conjunct2 [OF h] sleep_def
          by (auto simp: wp_simps intro!: wpx_conseq [OF again [unfolded g conjunct2 [OF h]]]
              elim!: wait_result_step)
        with eq True show ?thesis
          unfolding wpx_outcome by simp
      qed
    qed
  qed
qed

text \<open>The states of the world in which the request is made, one second apart.\<close>

definition nth_request :: "('w, 'm) env_scheme \<Rightarrow> ('w \<Rightarrow> (sdk_error + 'a) \<times> 'w) \<Rightarrow> nat \<Rightarrow> 'w \<Rightarrow> 'w" where
  "nth_request env f n w = ((\<lambda>w. ev_sleep env (from_secs 1) (snd (f w))) ^^ n) w"

definition becomes_ready :: "('w, 'm) env_scheme \<Rightarrow> ('w \<Rightarrow> (sdk_error + 'a) \<times> 'w) \<Rightarrow> bool" where
  "becomes_ready env f \<longleftrightarrow> (\<forall>w. \<exists>n x. fst (f (nth_request env f n w)) = Inr x
     \<and> (\<forall>i<n. fst (f (nth_request env f i w)) = Inl BlockNotReady))"

lemma wait_until_ready_returns:
  assumes "marking mark" and "io_world (mc_io m) = snd (f w)"
    and "fst (f (nth_request env f n w)) = Inr x"
    and "\<forall>i<n. fst (f (nth_request env f i w)) = Inl BlockNotReady"
  shows "wp (wait_until_ready env mark (ioM (call e f)) (fst (f w))) (\<lambda>r _. r = Inr x) m"
  using assms(2-)
proof (induction n arbitrary: w m)
  case 0
  then show ?case
    by (subst wpx_def, subst wait_until_ready.simps) (simp add: nth_request_def returnM_def)
next
  case (Suc n)
  let ?w = "ev_sleep env (from_secs 1) (snd (f w))"
  obtain g where g: "mark = modifyM (\<lambda>m. m\<lparr>mc_log_guard := g (mc_log_guard m)\<rparr>)"
    using assms(1) by (auto simp: marking_def)
  have nr: "fst (f w) = Inl BlockNotReady" using Suc.prems(3) by (auto simp: nth_request_def)
  have shift: "nth_request env f i ?w = nth_request env f (Suc i) w" for i
    by (simp add: nth_request_def funpow_Suc_right del: funpow.simps)
  have IH: "wp (wait_until_ready env mark (ioM (call e f)) (fst (f ?w))) (\<lambda>r _. r = Inr x) m1"
    if "io_world (mc_io m1) = snd (f ?w)" for m1
    using Suc.prems that by (intro Suc.IH) (auto simp: shift)
  have "wait_until_ready env mark (ioM (call e f)) (fst (f w)) m
      = thenM mark (thenM (ioM (sleep env (from_secs 1)))
          (bindM (ioM (call e f)) (wait_until_ready env mark (ioM (call e f))))) m"
    by (subst wait_until_ready.simps) (simp add: nr)
  then show ?case
    using IH Suc.prems(1) unfolding wpx_def [of _ _ "wait_until_ready env mark (ioM (call e f)) (fst (f w))"]
    by (simp flip: wpx_def) (auto simp: g sleep_def wp_simps)
qed

text \<open>One service call with its retries, in every reading.\<close>

definition answers :: "bool \<Rightarrow> (panic \<Rightarrow> 'w machine \<Rightarrow> bool) \<Rightarrow> ('w, 'm) env_scheme
    \<Rightarrow> ('w \<Rightarrow> (sdk_error + 'a) \<times> 'w) \<Rightarrow> bool" where
  "answers D E env f \<longleftrightarrow> D \<and> (\<forall>p m. E p m) \<or> becomes_ready env f"

lemma request_until_ready_wpx:
  assumes "marking mark" and a: "answers D E env f"
    and Q: "\<And>n r m'. waited e n m1 m' \<Longrightarrow> r \<noteq> Inl BlockNotReady \<Longrightarrow> \<exists>w. r = fst (f w) \<Longrightarrow>
      (D \<and> (\<forall>p m. E p m)) \<or> (\<exists>x. r = Inr x) \<Longrightarrow> Q r m'"
    and m1: "m1 = m\<lparr>mc_io := (mc_io m)\<lparr>io_world := snd (f (io_world (mc_io m))),
      io_trace := io_trace (mc_io m) @ [e]\<rparr>\<rparr>"
  shows "wpx D E (bindM (ioM (call e f)) (wait_until_ready env mark (ioM (call e f)))) Q m"
proof -
  let ?w = "io_world (mc_io m)"
  let ?c = "wait_until_ready env mark (ioM (call e f)) (fst (f ?w))"
  let ?ok = "\<lambda>r. (D \<and> (\<forall>p m. E p m)) \<or> (\<exists>x. r = Inr x)"
  have part: "wlp ?c (wait_result e f (fst (f ?w)) m1) m1"
    by (rule wait_until_ready_partial [OF assms(1)])
  have "wpx D E ?c (\<lambda>r _. ?ok r) m1"
  proof (cases "D \<and> (\<forall>p m. E p m)")
    case True
    then show ?thesis by (auto simp: wpx_def split: option.splits outcome.splits)
  next
    case False
    with a obtain n x where n: "fst (f (nth_request env f n ?w)) = Inr x"
      "\<forall>i<n. fst (f (nth_request env f i ?w)) = Inl BlockNotReady"
      by (auto simp: answers_def becomes_ready_def dest: spec [where x = ?w])
    have "io_world (mc_io m1) = snd (f ?w)" by (simp add: m1)
    from wait_until_ready_returns [OF assms(1) this n, of e] show ?thesis
      by (auto intro: wp_imp_wpx elim!: wpx_conseq)
  qed
  then have "wpx D E ?c (\<lambda>r m'. ?ok r \<and> wait_result e f (fst (f ?w)) m1 r m') m1"
    using part by (rule wpx_conj)
  then have "wpx D E ?c Q m1"
    by (rule wpx_conseq) (auto simp: wait_result_def intro: Q)
  then show ?thesis
    by (simp add: wp_simps m1)
qed

section \<open>Finalizing and publishing\<close>

text \<open>The block carries the word \<open>Snowball\<close> and the summary the validator gave.\<close>

definition finalized ::
  "('w, 'm) env_scheme \<Rightarrow> 'w machine \<Rightarrow> block_id \<Rightarrow> 'w machine \<Rightarrow> bool" where
  "finalized env m b m' \<longleftrightarrow> mc_state m' = mc_state m \<and> mc_block_queue m' = mc_block_queue m
     \<and> (\<exists>w w' summary i j. fst (ev_summarize_block env w) = Inr summary
        \<and> fst (ev_finalize_block env (create_consensus summary) w') = Inr b
        \<and> io_trace (mc_io m') = io_trace (mc_io m)
            @ SummarizeBlock # concat (replicate i [Slept (from_secs 1), SummarizeBlock])
            @ FinalizeBlock (create_consensus summary)
              # concat (replicate j [Slept (from_secs 1), FinalizeBlock (create_consensus summary)]))"

definition publishing_ok ::
  "bool \<Rightarrow> (panic \<Rightarrow> 'w machine \<Rightarrow> bool) \<Rightarrow> ('w, 'm) env_scheme \<Rightarrow> bool" where
  "publishing_ok D E env \<longleftrightarrow> D \<and> (\<forall>p m. E p m)
     \<or> becomes_ready env (ev_summarize_block env) \<and> (\<forall>c. becomes_ready env (ev_finalize_block env c))"

lemma publishing_okD:
  assumes "publishing_ok D E env"
  shows "answers D E env (ev_summarize_block env)" and "answers D E env (ev_finalize_block env c)"
  using assms by (auto simp: publishing_ok_def answers_def)

lemma finalize_block_wpx:
  assumes ok: "publishing_ok D E env" and Q: "\<And>b m'. finalized env m b m' \<Longrightarrow> Q b m'"
  shows "wpx D E (finalize_block env) Q m"
proof -
  let ?fin = "\<lambda>summary. bindM (expectM (ExpectFailed ''Failed to summarize block'') summary) (\<lambda>summary.
     bindM (ioM (call (FinalizeBlock (create_consensus summary)) (ev_finalize_block env (create_consensus summary))))
       (\<lambda>result. bindM (wait_until_ready env (set_not_ready_to_finalize True)
       (ioM (call (FinalizeBlock (create_consensus summary)) (ev_finalize_block env (create_consensus summary)))) result)
       (\<lambda>result. thenM (set_not_ready_to_finalize False)
       (expectM (ExpectFailed ''Failed to finalize block'') result))))"
  let ?m1 = "m\<lparr>mc_io := (mc_io m)\<lparr>io_world := snd (ev_summarize_block env (io_world (mc_io m))),
      io_trace := io_trace (mc_io m) @ [SummarizeBlock]\<rparr>\<rparr>"
  have second: "wpx D E (?fin s) Q m3"
    if s: "waited SummarizeBlock i ?m1 m2" "\<exists>w. s = fst (ev_summarize_block env w)"
      "(D \<and> (\<forall>p m. E p m)) \<or> (\<exists>x. s = Inr x)"
      and m3: "mc_state m3 = mc_state m2" "mc_block_queue m3 = mc_block_queue m2" "mc_io m3 = mc_io m2"
    for s i m2 m3
  proof (cases s)
    case (Inl e)
    with s(3) show ?thesis by (simp add: wp_simps)
  next
    case (Inr summary)
    let ?c = "create_consensus summary"
    let ?m4 = "m3\<lparr>mc_io := (mc_io m3)\<lparr>io_world := snd (ev_finalize_block env ?c (io_world (mc_io m3))),
      io_trace := io_trace (mc_io m3) @ [FinalizeBlock ?c]\<rparr>\<rparr>"
    have last: "wpx D E (thenM (set_not_ready_to_finalize False)
       (expectM (ExpectFailed ''Failed to finalize block'') r)) Q m5"
      if r: "waited (FinalizeBlock ?c) j ?m4 m5" "\<exists>w. r = fst (ev_finalize_block env ?c w)"
        "(D \<and> (\<forall>p m. E p m)) \<or> (\<exists>x. r = Inr x)" for r j m5
    proof (cases r)
      case (Inl e)
      with r(3) show ?thesis by (simp add: wp_simps set_not_ready_to_finalize_def)
    next
      case Inr2: (Inr b)
      have "finalized env m b (m5\<lparr>mc_log_guard := (mc_log_guard m5)\<lparr>lg_not_ready_to_finalize := False\<rparr>\<rparr>)"
        unfolding finalized_def
        using s(1,2) r(1,2) Inr Inr2 m3 by (simp add: waited_def) metis
      with Inr2 Q show ?thesis
        by (simp add: wp_simps set_not_ready_to_finalize_def)
    qed
    have "wpx D E (bindM (bindM (ioM (call (FinalizeBlock ?c) (ev_finalize_block env ?c)))
      (wait_until_ready env (set_not_ready_to_finalize True) (ioM (call (FinalizeBlock ?c) (ev_finalize_block env ?c)))))
      (\<lambda>r. thenM (set_not_ready_to_finalize False)
       (expectM (ExpectFailed ''Failed to finalize block'') r))) Q m3"
      unfolding wpx_bindM [of _ _ "bindM _ _"]
      by (rule request_until_ready_wpx [OF marking_set(2) publishing_okD(2) [OF ok] _ refl], rule last)
    then show ?thesis
      using Inr by (simp add: wpx_expectM wpx_bindM [of _ _ "expectM _ _"] bindM_assoc)
  qed
  have "wpx D E (bindM (bindM (ioM (call SummarizeBlock (ev_summarize_block env)))
      (wait_until_ready env (set_not_ready_to_summarize True) (ioM (call SummarizeBlock (ev_summarize_block env)))))
      (\<lambda>summary. thenM (set_not_ready_to_summarize False) (?fin summary))) Q m"
    unfolding wpx_bindM [of _ _ "bindM _ _"]
    by (rule request_until_ready_wpx [OF marking_set(1) publishing_okD(1) [OF ok] _ refl])
      (auto simp: wpx_thenM set_not_ready_to_summarize_def wpx_modifyM intro!: second)
  then show ?thesis
    by (simp add: finalize_block_def summarize_block_def finalize_block_svc_def Let_def bindM_assoc)
qed

text \<open>Only an idle node in the first place publishes.\<close>

definition published :: "('w, 'm) env_scheme \<Rightarrow> 'w machine \<Rightarrow> 'w machine \<Rightarrow> bool" where
  "published env m m' \<longleftrightarrow>
     (if ss_phase (mc_state m) = Idle \<and> ss_order (mc_state m) = 0 then \<exists>b. finalized env m b m' else m' = m)"

lemma try_publish_wpx:
  assumes ok: "publishing_ok D E env" and Q: "\<And>m'. published env m m' \<Longrightarrow> Q () m'"
  shows "wpx D E (try_publish env) Q m"
  by (auto simp: try_publish_def wp_simps published_def intro!: Q finalize_block_wpx [OF ok]) blast

lemma try_publish_inv:
  assumes "publishing_ok D E env" and "stays D E m"
  shows "wpx D E (try_publish env) (\<lambda>_. stays D E) m"
  using assms by (auto simp: published_def finalized_def intro!: try_publish_wpx
      intro: same_state_inv split: if_splits)

end
