(* ===== verification/Storage.thy ===== *)
theory Storage
  imports Messages
begin

text \<open>
  \<open>storage/\<close>: the store that keeps the engine's state. A write guard hands out the data and,
  when it is dropped (also by a panic), the disk store writes the data to its file; the memory
  store does nothing. \<open>get_storage\<close> chooses the store from the location setting. The stored
  type is any type with a JSON encoder and decoder; the contract of the two stores is the
  locale \<open>store\<close>, that of a store that survives a restart \<open>durable_store\<close>.
\<close>

section \<open>Destructors\<close>

text \<open>
  A destructor runs after the body, whether it returned or panicked. A panic of the destructor
  while a panic unwinds the stack aborts the process; either way the last panic is the outcome.
\<close>

definition finallyM :: "('a, 's) comp \<Rightarrow> (unit, 's) comp \<Rightarrow> ('a, 's) comp" where
  "finallyM m d s = (case m s of
      None \<Rightarrow> None
    | Some (Return a s') \<Rightarrow> thenM d (returnM a) s'
    | Some (Panicked p s') \<Rightarrow> thenM d (panicM p) s')"

lemma wpx_finallyM [wp_simps]:
  "wpx D E (finallyM m d) Q s
     = wpx D (\<lambda>p. wpx D E d (\<lambda>_. E p)) m (\<lambda>a. wpx D E d (\<lambda>_. Q a)) s"
  by (auto simp: wpx_def finallyM_def thenM_def bindM_def returnM_def panicM_def
      split: option.splits outcome.splits)

section \<open>The two stores\<close>

datatype 't storage =
    MemStorage (storage_data: 't)
  | DiskStorage (storage_data: 't) (storage_path: string)

text \<open>\<open>Deref\<close> and \<open>DerefMut\<close> of the guards give the data of the store.\<close>

primrec put_data :: "'t \<Rightarrow> 't storage \<Rightarrow> 't storage" where
  "put_data d (MemStorage _) = MemStorage d"
| "put_data d (DiskStorage _ path) = DiskStorage d path"

definition mem_storage_new :: "('t, 's) comp \<Rightarrow> ('t storage, 's) comp" where
  "mem_storage_new dflt = bindM dflt (\<lambda>d. returnM (MemStorage d))"

text \<open>\<open>DiskStorage::from_path\<close>; a file that cannot be opened counts as a new one.\<close>

definition from_path ::
  "('w, 'm) env_scheme \<Rightarrow> ('t \<Rightarrow> string option) \<Rightarrow> (string \<Rightarrow> 't option) \<Rightarrow> string \<Rightarrow> ('t, 'w io) comp
     \<Rightarrow> (string + 't storage, 'w io) comp" where
  "from_path env to_json of_json path dflt =
     bindM (ask (ev_open_file env path)) (\<lambda>file. case file of
       Contents contents \<Rightarrow> (case of_json contents of
           None \<Rightarrow> returnM (Inl ''Couldn't read file: '')
         | Some d \<Rightarrow> returnM (Inr (DiskStorage d path)))
     | ReadFailed err \<Rightarrow> returnM (Inl (''Couldn't read file: '' @ err))
     | OpenFailed \<Rightarrow>
         bindM dflt (\<lambda>d. case to_json d of
             None \<Rightarrow> returnM (Inl ''File write failed: '')
           | Some s \<Rightarrow> bindM (write_file env path s) (\<lambda>r. case r of
               Inl err \<Rightarrow> returnM (Inl (''File write failed: '' @ err))
             | Inr _ \<Rightarrow> returnM (Inr (DiskStorage d path)))))"

text \<open>\<open>Drop\<close> of a write guard.\<close>

definition drop_write_guard ::
  "('w, 'm) env_scheme \<Rightarrow> ('t \<Rightarrow> string option) \<Rightarrow> 't storage \<Rightarrow> (unit, 'w io) comp" where
  "drop_write_guard env to_json sto = (case sto of
       MemStorage _ \<Rightarrow> returnM ()
     | DiskStorage d path \<Rightarrow>
         bindM (unwrapM (ExpectFailed ''Couldn't convert value to string!'') (to_json d)) (\<lambda>s.
         bindM (write_file env path s) (\<lambda>r.
         expectM (ExpectFailed ''File write failed while dropping DiskStorageWriteGuard!'') r)))"

section \<open>Choosing the store\<close>

text \<open>\<open>splitn(2, c)\<close>: the text before the first \<open>c\<close> and all that follows it.\<close>

fun splitn2 :: "char \<Rightarrow> string \<Rightarrow> string list" where
  "splitn2 c [] = [[]]"
| "splitn2 c (x # xs) = (if x = c then [[], xs] else
     (case splitn2 c xs of [] \<Rightarrow> [] | y # ys \<Rightarrow> (x # y) # ys))"

definition get_storage ::
  "('w, 'm) env_scheme \<Rightarrow> ('t \<Rightarrow> string option) \<Rightarrow> (string \<Rightarrow> 't option) \<Rightarrow> string \<Rightarrow> ('t, 'w io) comp
     \<Rightarrow> (string + 't storage, 'w io) comp" where
  "get_storage env to_json of_json location dflt =
     (if location = ''memory'' then bindM (mem_storage_new dflt) (\<lambda>s. returnM (Inr s))
      else if take 4 location = ''disk'' then
        (let split = splitn2 (CHR ''+'') location in
         if length split \<noteq> 2 then returnM (Inl (''Invalid location: '' @ location))
         else bindM (from_path env to_json of_json (split ! 1) dflt) (\<lambda>r.
           bindM (expectM (UnwrapFailed ''from_path'') r) (\<lambda>s. returnM (Inr s))))
      else returnM (Inl (''Unknown storage location type: '' @ location)))"

lemma splitn2_no: "c \<notin> set xs \<Longrightarrow> splitn2 c xs = [xs]"
  by (induction xs) auto

lemma splitn2_at: "c \<notin> set xs \<Longrightarrow> splitn2 c (xs @ c # ys) = [xs, ys]"
  by (induction xs) auto

lemma splitn2_eq:
  "splitn2 c xs = (if c \<in> set xs then [takeWhile (\<lambda>x. x \<noteq> c) xs, tl (dropWhile (\<lambda>x. x \<noteq> c) xs)] else [xs])"
  by (induction xs) auto

section \<open>The contract of a store\<close>

text \<open>
  The engine writes through a guard: it puts data into the store and drops the guard. Reading
  gives what was put, and the last of several puts counts.
\<close>

locale store =
  fixes get :: "'sto \<Rightarrow> 't" and put :: "'t \<Rightarrow> 'sto \<Rightarrow> 'sto"
  assumes get_put: "get (put d s) = d"
    and put_put: "put d' (put d s) = put d' s"
    and put_get: "put (get s) s = s"
begin

text \<open>Updates through guards, one after the other, compose.\<close>

definition update_via :: "('t \<Rightarrow> 't) \<Rightarrow> 'sto \<Rightarrow> 'sto" where
  "update_via f s = put (f (get s)) s"

lemma update_via_comp: "update_via g (update_via f s) = update_via (g \<circ> f) s"
  by (simp add: update_via_def get_put put_put)

lemma get_updates: "get (fold update_via fs s) = fold (\<lambda>f. f) fs (get s)"
  by (induction fs arbitrary: s) (simp_all add: update_via_def get_put)

end

text \<open>
  A durable store: once a guard is dropped without a panic, opening the store again yields
  what the codec makes of the data.
\<close>

locale durable_store = store get put
  for get :: "'sto \<Rightarrow> 't" and put :: "'t \<Rightarrow> 'sto \<Rightarrow> 'sto" +
  fixes drop_guard :: "'sto \<Rightarrow> (unit, 's) comp" and reopen :: "'sto \<Rightarrow> ('sto, 's) comp" and recode :: "'t \<Rightarrow> 't option" and durable :: "'sto \<Rightarrow> bool"
  assumes durable_put: "durable (put d s) = durable s"
    and reopen_dropped: "durable s \<Longrightarrow> drop_guard s w = Some (Return () w') \<Longrightarrow> recode (get s) = Some d \<Longrightarrow>
      \<exists>w''. reopen s w' = Some (Return (put d s) w'')"
begin

text \<open>A crash after any number of guarded updates loses nothing of the last dropped one.\<close>

lemma recovery:
  assumes "durable s" and "drop_guard (fold update_via fs s) w = Some (Return () w')"
    and "recode (fold (\<lambda>f. f) fs (get s)) = Some d"
  shows "\<exists>s' w''. reopen (fold update_via fs s) w' = Some (Return s' w'') \<and> get s' = d"
proof -
  have "durable (fold update_via fs s)"
    using assms(1) by (induction fs arbitrary: s) (simp_all add: update_via_def durable_put)
  from reopen_dropped [OF this assms(2)] assms(3) show ?thesis
    by (fastforce simp: get_updates get_put)
qed

end

text \<open>Both stores satisfy the contract, and the disk store is durable.\<close>

text \<open>
  What a file system must do: a successful write of a file is what the next open of it reads.
\<close>

definition lawful_files :: "('w, 'm) env_scheme \<Rightarrow> bool" where
  "lawful_files env \<longleftrightarrow> (\<forall>path c w r w'. ev_write_file env path c w = (Inr r, w') \<longrightarrow>
     fst (ev_open_file env path w') = Contents c)"

definition reopen_disk ::
  "('w, 'm) env_scheme \<Rightarrow> ('t \<Rightarrow> string option) \<Rightarrow> (string \<Rightarrow> 't option) \<Rightarrow> ('t, 'w io) comp
     \<Rightarrow> 't storage \<Rightarrow> ('t storage, 'w io) comp" where
  "reopen_disk env to_json of_json dflt sto =
     bindM (get_storage env to_json of_json (''disk+'' @ storage_path sto) dflt)
       (expectM (ExplicitPanic ''Failed to load state''))"

definition recode_json :: "('t \<Rightarrow> string option) \<Rightarrow> (string \<Rightarrow> 't option) \<Rightarrow> 't \<Rightarrow> 't option" where
  "recode_json to_json of_json d = Option.bind (to_json d) of_json"

definition on_disk :: "('w, 'm) env_scheme \<Rightarrow> 't storage \<Rightarrow> bool" where
  "on_disk env sto \<longleftrightarrow> lawful_files env \<and> (\<exists>d path. sto = DiskStorage d path)"

lemma get_storage_disk:
  "get_storage env to_json of_json (''disk+'' @ path) dflt
     = bindM (from_path env to_json of_json path dflt) (\<lambda>r.
         bindM (expectM (UnwrapFailed ''from_path'') r) (\<lambda>s. returnM (Inr s)))"
  by (simp add: get_storage_def)

interpretation sto: store storage_data put_data
proof
  fix d d' :: 't and s :: "'t storage"
  show "storage_data (put_data d s) = d" "put_data d' (put_data d s) = put_data d' s"
    "put_data (storage_data s) s = s"
    by (cases s; simp)+
qed

interpretation disk: durable_store storage_data put_data
    "drop_write_guard env to_json :: 't storage \<Rightarrow> _" "reopen_disk env to_json of_json dflt" "recode_json to_json of_json" "on_disk env"
  for env :: "('w, 'm) env_scheme" and to_json :: "'t \<Rightarrow> string option" and of_json and dflt
proof
  fix d :: 't and s :: "'t storage" and w w' :: "'w io"
  show "on_disk env (put_data d s) = on_disk env s"
    by (cases s) (auto simp: on_disk_def)
  assume "on_disk env s" "drop_write_guard env to_json s w = Some (Return () w')"
    "recode_json to_json of_json (storage_data s) = Some d"
  then obtain d0 path content r1 w1 where s: "s = DiskStorage d0 path" "to_json d0 = Some content"
      "of_json content = Some d" and lf: "lawful_files env"
    and wr: "ev_write_file env path content (io_world w) = (Inr r1, w1)" "io_world w' = w1"
    by (auto simp: on_disk_def drop_write_guard_def recode_json_def bindM_def unwrapM_def expectM_def
        write_file_def call_def returnM_def panicM_def Let_def
        split: option.splits sum.splits prod.splits)
  have "fst (ev_open_file env path (io_world w')) = Contents content"
    using lf wr by (auto simp: lawful_files_def)
  with s show "\<exists>w''. reopen_disk env to_json of_json dflt s w' = Some (Return (put_data d s) w'')"
    unfolding reopen_disk_def get_storage_disk
    by (auto simp: from_path_def bindM_def ask_def returnM_def expectM_def
        split: prod.splits)
qed

end
