(* ===== verification/Engine.thy ===== *)
theory Engine
  imports Node_Publishing Storage
begin

text \<open>
  \<open>engine.rs\<close>: how an update reaches its handler, one turn of the engine's loop with its write
  guard, and the start of the engine. The updates the channel yields are a list, one entry per
  call of \<open>recv_timeout\<close>. The state lives in the store; while a guard is held it is the
  machine's state, and the drop of the guard writes it out.
\<close>

section \<open>Updates\<close>

text \<open>\<open>handle_update\<close> never returns an error; the boolean says whether to go on.\<close>

definition handle_update ::
  "('w, 'm) node_env_scheme \<Rightarrow> incoming \<Rightarrow> (bool, 'w machine) comp" where
  "handle_update env incoming_message = (case incoming_message of
       Update (BlockNew b) \<Rightarrow> bindM (on_block_new env b) (\<lambda>_. returnM True)
     | Update (BlockValid b) \<Rightarrow> bindM (on_block_valid b) (\<lambda>_. returnM True)
     | Update (BlockInvalid b) \<Rightarrow> bindM (on_block_invalid b) (\<lambda>_. returnM True)
     | Update (BlockCommit b) \<Rightarrow> bindM (on_block_commit b) (\<lambda>_. returnM True)
     | Update (PeerMessage message sender_id) \<Rightarrow>
         bindM (decode_payload env (pm_content message)) (\<lambda>payload.
         bindM (on_peer_message env (pm_message_type message) sender_id payload) (\<lambda>_. returnM True))
     | Update Shutdown \<Rightarrow> returnM False
     | Update (PeerConnected info) \<Rightarrow> bindM (on_peer_connected info) (\<lambda>_. returnM True)
     | Update (PeerDisconnected p) \<Rightarrow> bindM (on_peer_disconnected p) (\<lambda>_. returnM True)
     | RecvTimeout \<Rightarrow> returnM True
     | RecvDisconnected \<Rightarrow> returnM False)"

section \<open>One turn of the loop\<close>

text \<open>The variables of \<open>start\<close> that the loop changes.\<close>

record loop_vars =
  lv_block_publishing_ticker :: ticker
  lv_byzantine_churn_timeout :: timeout
  lv_timestamp_log :: instant

text \<open>
  \<open>enabled && check_expired() && churn_idx.contains(order)\<close>: the timer is only looked at (and
  marked expired) when the tests are enabled.
\<close>

definition churn_check ::
  "('w, 'm) env_scheme \<Rightarrow> timeout \<Rightarrow> (bool \<times> timeout, 'w machine) comp" where
  "churn_check env timeout =
     bindM (getM mc_state) (\<lambda>st.
     if bz_enabled (ss_byzantine_test st) then
       bindM (ioM (check_expired env timeout)) (\<lambda>(over, timeout').
       returnM (over \<and> ss_order st \<in> bz_churn_idx (ss_byzantine_test st), timeout'))
     else returnM (False, timeout))"

text \<open>The end of a turn: the publishing ticker, and the clock of the periodic log line.\<close>

definition turn_end ::
  "('w, 'm) node_env_scheme \<Rightarrow> loop_vars \<Rightarrow> (bool \<times> loop_vars, 'w machine) comp" where
  "turn_end env lv =
     bindM (ticker_tick (ioM (now env)) (try_publish env) (lv_block_publishing_ticker lv)) (\<lambda>ticker.
     let lv = lv\<lparr>lv_block_publishing_ticker := ticker\<rparr> in
     bindM (ioM (now env)) (\<lambda>t.
     if t - lv_timestamp_log lv > from_millis 4500
     then bindM (ioM (now env)) (\<lambda>t'. returnM (True, lv\<lparr>lv_timestamp_log := t'\<rparr>))
     else returnM (True, lv)))"

definition turn_body ::
  "('w, 'm) node_env_scheme \<Rightarrow> incoming \<Rightarrow> loop_vars \<Rightarrow> (bool \<times> loop_vars, 'w machine) comp" where
  "turn_body env incoming_message lv =
     bindM (churn_check env (lv_byzantine_churn_timeout lv)) (\<lambda>(crash, timeout).
     let lv = lv\<lparr>lv_byzantine_churn_timeout := timeout\<rparr> in
     if crash then returnM (False, lv)
     else
       thenM (handle_queue env)
       (bindM (handle_update env incoming_message) (\<lambda>again.
       if \<not> again then returnM (False, lv)
       else thenM (handle_unresponsive_peers env) (turn_end env lv))))"

text \<open>The guard of the turn, and its drop at the end of the turn or while a panic unwinds.\<close>

definition drop_state_guard ::
  "('w, 'm) node_env_scheme \<Rightarrow> snowball_state storage \<Rightarrow> (unit, 'w machine) comp" where
  "drop_state_guard env sto = bindM (getM mc_state) (\<lambda>st.
     ioM (drop_write_guard env (nv_state_to_json env) (put_data st sto)))"

definition turn ::
  "('w, 'm) node_env_scheme \<Rightarrow> snowball_state storage \<Rightarrow> incoming \<Rightarrow> loop_vars
     \<Rightarrow> (bool \<times> loop_vars, 'w machine) comp" where
  "turn env sto incoming_message lv =
     finallyM (turn_body env incoming_message lv) (drop_state_guard env sto)"

text \<open>The loop on the updates the channel yields; the result says whether it is still running.\<close>

primrec engine_loop ::
  "('w, 'm) node_env_scheme \<Rightarrow> snowball_state storage \<Rightarrow> incoming list \<Rightarrow> loop_vars
     \<Rightarrow> (bool, 'w machine) comp" where
  "engine_loop env sto [] lv = returnM True"
| "engine_loop env sto (i # is) lv =
     bindM (turn env sto i lv) (\<lambda>(go, lv). if go then engine_loop env sto is lv else returnM False)"

section \<open>Starting\<close>

text \<open>The engine is its configuration, which \<open>start\<close> completes with the settings.\<close>

record snowball_engine =
  se_config :: config

definition snowball_engine_new :: "config \<Rightarrow> snowball_engine" where
  "snowball_engine_new cfg = \<lparr>se_config = cfg\<rparr>"

text \<open>\<open>start\<close> up to the creation of the node: the settings and the store.\<close>

definition engine_setup ::
  "('w, 'm) node_env_scheme \<Rightarrow> config \<Rightarrow> startup_state
     \<Rightarrow> (config \<times> snowball_state storage, 'w io) comp" where
  "engine_setup env cfg startup =
     (let chain_head = chain_head_block startup in
      bindM (load_settings env cfg (block_id chain_head)) (\<lambda>cfg.
      bindM (get_storage env (nv_state_to_json env) (nv_state_of_json env) (cfg_storage_location cfg)
        (snowball_state_new (local_peer_id startup) (block_num chain_head) cfg)) (\<lambda>r.
      bindM (expectM (ExplicitPanic ''Failed to load state'') r) (\<lambda>sto.
      returnM (cfg, sto)))))"

text \<open>
  From the store to the loop. The machine starts with the state of the store; the guard for the
  construction of the node is a temporary, dropped at the end of that statement.
\<close>

definition initial_machine :: "snowball_state storage \<Rightarrow> 'w io \<Rightarrow> 'w machine" where
  "initial_machine sto io = \<lparr>mc_state = storage_data sto, mc_log_guard = default_log_guard,
     mc_block_queue = [], mc_io = io\<rparr>"

text \<open>
  The timer of the simulated crash. The log line between drawing the delay and starting the timer
  takes a write guard to read the node's order; when the line is let through, the drop of that
  guard writes the state.
\<close>

definition churn_timer ::
  "('w, 'm) node_env_scheme \<Rightarrow> config \<Rightarrow> snowball_state storage \<Rightarrow> (timeout, 'w machine) comp" where
  "churn_timer env cfg sto =
     bindM (random_value env (unat (cfg_byzantine_max_churn_timeout_millis cfg))) (\<lambda>random_wait.
     thenM (whenM (ev_log_info env) (drop_state_guard env sto))
     (bindM (ioM (timeout_new env (from_millis (of_nat random_wait)))) (\<lambda>churn.
     ioM (timeout_start env churn))))"

definition engine_enter ::
  "('w, 'm) node_env_scheme \<Rightarrow> config \<Rightarrow> snowball_state storage \<Rightarrow> startup_state
     \<Rightarrow> (loop_vars, 'w machine) comp" where
  "engine_enter env cfg sto startup =
     bindM (ioM (ticker_new env (cfg_block_publishing_delay cfg))) (\<lambda>ticker.
     thenM (finallyM (node_new env (chain_head_block startup)) (drop_state_guard env sto))
     (bindM (ioM (now env)) (\<lambda>timestamp_log.
     bindM (churn_timer env cfg sto) (\<lambda>churn.
     returnM \<lparr>lv_block_publishing_ticker = ticker, lv_byzantine_churn_timeout = churn,
       lv_timestamp_log = timestamp_log\<rparr>))))"

text \<open>The rest is forgotten when the engine ends: only the world and the trace remain.\<close>

definition leave_machine :: "('a, 'w machine) outcome option \<Rightarrow> ('a, 'w io) outcome option" where
  "leave_machine r = map_option (\<lambda>r. case r of
       Return a m \<Rightarrow> Return a (mc_io m) | Panicked p m \<Rightarrow> Panicked p (mc_io m)) r"

definition engine_start ::
  "('w, 'm) node_env_scheme \<Rightarrow> config \<Rightarrow> startup_state \<Rightarrow> incoming list \<Rightarrow> (bool, 'w io) comp" where
  "engine_start env cfg startup updates =
     bindM (engine_setup env cfg startup) (\<lambda>(cfg, sto) io.
       leave_machine (bindM (engine_enter env cfg sto startup) (engine_loop env sto updates)
         (initial_machine sto io)))"

definition engine_version :: string where
  "engine_version = ''0.1''"

definition engine_name :: string where
  "engine_name = ''Snowball''"

definition additional_protocols :: "(string \<times> string) list" where
  "additional_protocols = []"

section \<open>Display of a block\<close>

text \<open>\<open>{:0x}\<close>: hexadecimal digits without padding.\<close>

definition hex_digit :: "nat \<Rightarrow> char" where
  "hex_digit d = (if d < 10 then char_of (48 + d) else char_of (87 + d))"

definition hex_byte :: "u8 \<Rightarrow> string" where
  "hex_byte b = (let n = unat b in
     if n < 16 then [hex_digit n] else [hex_digit (n div 16), hex_digit (n mod 16)])"

definition to_hex :: "bytes \<Rightarrow> string" where
  "to_hex bs = concat (map hex_byte bs)"

definition display_block :: "block \<Rightarrow> string" where
  "display_block b = ''Block('' @ decimal (unat (block_num b)) @ '', id: '' @ to_hex (block_id b)
     @ '', prev: '' @ to_hex (previous_id b) @ '')''"

end
