(* ===== verification/Engine_Invariant.thy ===== *)
theory Engine_Invariant
  imports Engine
begin

text \<open>
  The invariant over the whole engine: a turn of the loop keeps it, from the start of the
  engine it holds for as long as the engine runs, and under a reliable validator and enough
  members a turn returns.
\<close>

section \<open>A turn\<close>

text \<open>What an update needs so that its handler does not panic.\<close>

definition decodes :: "('w, 'm) node_env_scheme \<Rightarrow> bytes \<Rightarrow> bool" where
  "decodes env content \<longleftrightarrow> (\<exists>s payload. from_utf8 content = Some s \<and> nv_message_of_json env s = Some payload)"

definition deliverable ::
  "bool \<Rightarrow> (panic \<Rightarrow> 'w machine \<Rightarrow> bool) \<Rightarrow> ('w, 'm) node_env_scheme \<Rightarrow> incoming \<Rightarrow> 'w machine \<Rightarrow> bool" where
  "deliverable D E env i m \<longleftrightarrow> D \<and> (\<forall>p m. E p m) \<or> (case i of
       Update (PeerMessage message _) \<Rightarrow> decodes env (pm_content message)
     | Update (PeerDisconnected p) \<Rightarrow> may_leave D p m
     | _ \<Rightarrow> True)"

lemma handle_update_inv:
  assumes ok: "env_ok D E env" and s: "stays D E m" and d: "deliverable D E env i m"
  shows "wpx D E (handle_update env i) (\<lambda>_. stays D E) m"
proof (cases i)
  case (Update u)
  show ?thesis
  proof (cases u)
    case (BlockNew b)
    then show ?thesis
      using on_block_new_inv [OF ok s] Update by (simp add: handle_update_def wpx_fun)
  next
    case (PeerMessage message p)
    have "decodes env (pm_content message) \<or> (\<forall>p m. E p m)"
      using d Update PeerMessage by (auto simp: deliverable_def)
    then show ?thesis
      using on_peer_message_inv [OF ok s] Update PeerMessage
      by (auto simp: handle_update_def decode_payload_def decodes_def wpx_fun wpx_unwrapM split: option.splits)
  next
    case (PeerConnected p)
    then show ?thesis
      using on_peer_connected_inv [OF s] Update by (simp add: handle_update_def wpx_fun)
  next
    case (PeerDisconnected p)
    have "D \<and> (\<forall>p m. E p m) \<or> may_leave D p m"
      using d Update PeerDisconnected by (simp add: deliverable_def)
    then show ?thesis
      using on_peer_disconnected_inv [OF s] Update PeerDisconnected
      by (simp add: handle_update_def wpx_fun)
  qed (use s Update in \<open>simp_all add: handle_update_def wp_simps on_block_valid_def on_block_invalid_def
        on_block_commit_def\<close>)
qed (use s in \<open>simp_all add: handle_update_def wp_simps\<close>)

text \<open>The queue is handled before the update; it does not touch the membership.\<close>

definition same_membership :: "'w machine \<Rightarrow> 'w machine \<Rightarrow> bool" where
  "same_membership m m' \<longleftrightarrow> members m' = members m \<and> ss_id (mc_state m') = ss_id (mc_state m)
     \<and> ss_k (mc_state m') = ss_k (mc_state m)"

lemma vote_started_membership:
  assumes "vote_started env b m m'" and "waiting m = []"
  shows "same_membership m m'"
proof -
  obtain m1 where n: "new_round_from env (with_state (start_vote b) m) m1"
    and m': "m' = with_state switch_phase m1"
    using assms(1) by (auto simp: vote_started_def)
  have "queried (clear_buffer (with_state (start_vote b) m)) m1"
    using new_round_fromD(1) [OF n] assms(2) by simp
  from queriedD(17,3,8) [OF this] show ?thesis
    by (simp add: same_membership_def m' clear_buffer_def)
qed

lemma queue_handled_membership:
  assumes h: "queue_handled env m m'" and s: "stays D E m"
  shows "same_membership m m'"
proof (cases "mc_block_queue m")
  case Nil
  with h show ?thesis by (simp add: queue_handled_def same_membership_def)
next
  case (Cons b bs)
  show ?thesis
  proof (cases "block_id b = ss_decision_block (mc_state m)")
    case True
    with h Cons show ?thesis by (simp add: queue_handled_def same_membership_def)
  next
    case False
    with Cons s have w: "waiting m = []"
      by (auto simp: inv_defs round_ok_def split: phase.splits)
    from h Cons False obtain head where "block_examined env b head m m'"
      by (auto simp: queue_handled_def)
    then show ?thesis
      using vote_started_membership [of env "block_id b" _ m'] w
      by (auto simp: block_examined_def acted_def same_membership_def split: if_splits)
  qed
qed

lemma deliverable_membership:
  "same_membership m m' \<Longrightarrow> deliverable D E env i m \<Longrightarrow> deliverable D E env i m'"
  by (auto simp: deliverable_def may_leave_def same_membership_def split: incoming.splits update.splits)

lemma handle_queue_keeps:
  assumes ok: "env_ok D E env" and s: "stays D E m"
  shows "wpx D E (handle_queue env) (\<lambda>_ m'. stays D E m' \<and> same_membership m m') m"
proof -
  have "wlp (handle_queue env) (\<lambda>_ m'. same_membership m m') m"
  proof (rule handle_queue_wpx)
    show "env_ok True (\<lambda>_ _. True) env" using ok by (simp add: env_ok_def)
    fix b bs
    assume "mc_block_queue m = b # bs" "block_id b \<noteq> ss_decision_block (mc_state m)"
    then have "ss_phase (mc_state m) \<noteq> Listening"
      using s by (auto simp: inv_defs round_ok_def split: phase.splits)
    from idle_ready [OF s this] show "round_ready True (\<lambda>_ _. True) m"
      by (simp add: round_ready_def delay_ok_def)
  next
    show "queue_handled env m m' \<Longrightarrow> same_membership m m'" for m'
      using queue_handled_membership s by blast
  qed
  with handle_queue_inv [OF ok s] show ?thesis by (rule wpx_conj)
qed

text \<open>A body that keeps the invariant keeps it under the ticker and with the churn timer.\<close>

lemma io_inv: "stays D E m \<Longrightarrow> stays D E (m\<lparr>mc_io := io\<rparr>)"
  by (erule same_state_inv) simp_all

lemma now_inv:
  assumes "stays D E m" and "\<And>t m'. stays D E m' \<Longrightarrow> Q t m'"
  shows "wpx D E (ioM (now env)) Q m"
  using assms(1) by (auto simp: now_def wp_simps intro!: assms(2) io_inv)

lemma tick_inv:
  assumes ok: "publishing_ok D E env" and s: "stays D E m" and Q: "\<And>t m'. stays D E m' \<Longrightarrow> Q t m'"
  shows "wpx D E (ticker_tick (ioM (now env)) (try_publish env) tk) Q m"
proof -
  have "wpx D E (try_publish env) (\<lambda>_. wpx D E (ioM (now env)) (\<lambda>t'. Q (tk\<lparr>tk_last := t'\<rparr>))) m1"
    if "stays D E m1" for m1
    using try_publish_inv [OF ok that] by (rule wpx_conseq) (auto intro: now_inv Q)
  then show ?thesis
    unfolding ticker_tick_def wpx_bindM
    by (intro now_inv [OF s]) (auto simp: Let_def wpx_fun intro: Q)
qed

lemma churn_check_inv:
  assumes s: "stays D E m" and Q: "\<And>r m'. stays D E m' \<Longrightarrow> same_membership m m' \<Longrightarrow> Q r m'"
  shows "wpx D E (churn_check env t) Q m"
  using s by (auto simp: churn_check_def wp_simps check_expired_wp split_beta same_membership_def
      intro!: Q io_inv)

lemma same_membership_trans: "same_membership a b \<Longrightarrow> same_membership b c \<Longrightarrow> same_membership a c"
  by (simp add: same_membership_def)

lemma turn_end_inv:
  assumes "publishing_ok D E env" and "stays D E m"
  shows "wpx D E (turn_end env lv) (\<lambda>_. stays D E) m"
  unfolding turn_end_def wpx_bindM
  by (rule tick_inv [OF assms]) (auto simp: Let_def wpx_fun wpx_if intro!: now_inv)

lemma turn_body_inv:
  assumes ok: "env_ok D E env" "publishing_ok D E env" and s: "stays D E m"
    and d: "deliverable D E env i m"
  shows "wpx D E (turn_body env i lv) (\<lambda>_. stays D E) m"
proof -
  have rest: "wpx D E (thenM (handle_unresponsive_peers env) (turn_end env lv)) (\<lambda>_. stays D E) m1"
    if "stays D E m1" for lv and m1 :: "'a machine"
    unfolding wpx_thenM
    by (rule wpx_conseq [OF handle_unresponsive_peers_inv [OF ok(1) that]]) (rule turn_end_inv [OF ok(2)])
  have after: "wpx D E (bindM (handle_update env i) (\<lambda>again. if \<not> again then returnM (False, lv)
       else thenM (handle_unresponsive_peers env) (turn_end env lv))) (\<lambda>_. stays D E) m1"
    if "stays D E m1" "deliverable D E env i m1" for lv and m1 :: "'a machine"
    unfolding wpx_bindM
    by (rule wpx_conseq [OF handle_update_inv [OF ok(1) that]]) (simp add: wpx_returnM rest)
  have all: "wpx D E (thenM (handle_queue env) (bindM (handle_update env i) (\<lambda>again.
       if \<not> again then returnM (False, lv)
       else thenM (handle_unresponsive_peers env) (turn_end env lv)))) (\<lambda>_. stays D E) m1"
    if "stays D E m1" "same_membership m m1" for lv m1
    unfolding wpx_thenM [of _ _ "handle_queue env"]
    by (rule wpx_conseq [OF handle_queue_keeps [OF ok(1) that(1)]], rule after)
      (use that(2) d in \<open>auto intro: deliverable_membership same_membership_trans\<close>)
  show ?thesis
    unfolding turn_body_def wpx_bindM [of _ _ "churn_check env _"]
    by (rule churn_check_inv [OF s]) (simp add: Let_def wpx_returnM split_beta all)
qed

section \<open>The guard of the turn\<close>

definition persists ::
  "(panic \<Rightarrow> 'w machine \<Rightarrow> bool) \<Rightarrow> ('w, 'm) node_env_scheme \<Rightarrow> 't storage \<Rightarrow> bool" where
  "persists E env sto \<longleftrightarrow> (\<forall>p m. E p m) \<or> (\<forall>p m. \<not> E p m) \<and>
     ((\<exists>d. sto = MemStorage d)
      \<or> (\<forall>st. nv_state_to_json env st \<noteq> None) \<and> (\<forall>path c w. \<exists>r. fst (ev_write_file env path c w) = Inr r))"

lemma drop_state_guard_wpx:
  assumes p: "persists E env sto" and Q: "\<And>io. Q () (m\<lparr>mc_io := io\<rparr>)"
  shows "wpx D E (drop_state_guard env sto) Q m"
proof (cases sto)
  case (MemStorage d)
  then show ?thesis
    using Q [of "mc_io m"] by (simp add: drop_state_guard_def drop_write_guard_def wp_simps)
next
  case (DiskStorage d path)
  have wr: "E e t" if "fst (ev_write_file env path c w) = Inl x" for c w x e t
  proof -
    have "(\<forall>p m. E p m) \<or> (\<exists>r. fst (ev_write_file env path c w) = Inr r)"
      using p DiskStorage by (auto simp: persists_def)
    with that show ?thesis by auto
  qed
  have js: "E e t" if "nv_state_to_json env st = None" for st e t
    using p that DiskStorage by (cases "E e t") (auto simp: persists_def dest: spec [where x = st])
  show ?thesis
    using DiskStorage Q
    by (auto simp: drop_state_guard_def drop_write_guard_def wp_simps write_file_def
        split: option.splits sum.splits intro: wr js)
qed

lemma guarded_wpx:
  assumes p: "persists E env sto" and m: "wpx D E body (\<lambda>a m'. \<forall>io. Q a (m'\<lparr>mc_io := io\<rparr>)) m"
  shows "wpx D E (finallyM body (drop_state_guard env sto)) Q m"
proof -
  have "wpx D E (drop_state_guard env sto) (\<lambda>_. E e) m'" if "E e m'" for e m'
  proof (cases "\<forall>p m. E p m")
    case True
    then show ?thesis by (intro drop_state_guard_wpx [OF p]) simp
  next
    case False
    with p that show ?thesis by (auto simp: persists_def)
  qed
  then show ?thesis
    unfolding wpx_finallyM
    by (intro wpx_mono [OF m]) (auto intro: drop_state_guard_wpx [OF p])
qed

lemma turn_inv:
  assumes ok: "env_ok D E env" "publishing_ok D E env" "persists E env sto"
    and s: "stays D E m" and d: "deliverable D E env i m"
  shows "wpx D E (turn env sto i lv) (\<lambda>_. stays D E) m"
  unfolding turn_def
  by (rule guarded_wpx [OF ok(3)], rule wpx_conseq [OF turn_body_inv [OF ok(1,2) s d]])
    (blast intro: io_inv)

section \<open>The loop\<close>

text \<open>Updates that can be delivered in whatever state.\<close>

definition harmless ::
  "bool \<Rightarrow> (panic \<Rightarrow> 'w machine \<Rightarrow> bool) \<Rightarrow> ('w, 'm) node_env_scheme \<Rightarrow> incoming \<Rightarrow> bool" where
  "harmless D E env i \<longleftrightarrow> D \<and> (\<forall>p m. E p m) \<or> (case i of
       Update (PeerMessage message _) \<Rightarrow> decodes env (pm_content message)
     | Update (PeerDisconnected p) \<Rightarrow> False
     | _ \<Rightarrow> True)"

lemma harmless_deliverable: "harmless D E env i \<Longrightarrow> deliverable D E env i m"
  by (auto simp: harmless_def deliverable_def split: incoming.splits update.splits)

lemma engine_loop_inv:
  assumes ok: "env_ok D E env" "publishing_ok D E env" "persists E env sto"
    and s: "stays D E m" and h: "\<forall>i\<in>set is. harmless D E env i"
  shows "wpx D E (engine_loop env sto is lv) (\<lambda>_. stays D E) m"
  using s h
proof (induction "is" arbitrary: lv m)
  case Nil
  then show ?case by (simp add: wp_simps)
next
  case (Cons i "is")
  have "wpx D E (turn env sto i lv) (\<lambda>_. stays D E) m"
    using Cons.prems by (intro turn_inv [OF ok]) (auto intro: harmless_deliverable)
  then show ?case
    unfolding engine_loop.simps wpx_bindM
    by (rule wpx_conseq) (use Cons in \<open>auto simp: wpx_returnM split: prod.splits\<close>)
qed

section \<open>The start\<close>

text \<open>A configuration the algorithm can work with.\<close>

definition config_ok :: "config \<Rightarrow> bool" where
  "config_ok cfg \<longleftrightarrow> 0 < unat (cfg_k cfg) \<and> unat (cfg_k cfg) < 2 * unat (cfg_alfa cfg)
     \<and> 0 < unat (cfg_beta cfg) \<and> distinct (cfg_members cfg) \<and> length (cfg_members cfg) \<le> 2 ^ 64"

text \<open>A state the engine can start from: a fresh one is such a state.\<close>

definition startable :: "snowball_state \<Rightarrow> bool" where
  "startable st \<longleftrightarrow> parameters_ok st \<and> place_ok st \<and> ss_phase st = Idle \<and> ss_waiting_response_map st = []"

lemma snowball_state_new_startable:
  assumes "config_ok cfg"
  shows "wpx D E (snowball_state_new p n cfg) (\<lambda>st _. startable st) s = (p \<in> set (cfg_members cfg) \<or> E (UnwrapFailed ''position'') s)"
proof (cases "p \<in> set (cfg_members cfg)")
  case True
  then obtain i where i: "position p (cfg_members cfg) = Some i"
    using position_in_set by fast
  then have "unat (of_nat i :: u64) = i"
    using position_Some [OF i] assms by (auto simp: unat_of_nat config_ok_def)
  with True i assms show ?thesis
    by (simp add: snowball_state_new_def wp_simps startable_def parameters_ok_def place_ok_def config_ok_def)
next
  case False
  then have "position p (cfg_members cfg) = None" by simp
  with False show ?thesis by (simp add: snowball_state_new_def wp_simps del: position_None)
qed

lemma random_value_range:
  assumes l: "lawful_uniform env" and n: "(\<forall>p m. E p m) \<or> 0 < n"
    and Q: "\<And>i w. i < n \<Longrightarrow> Q i (with_world w m)"
  shows "wpx D E (random_value env n) Q m"
proof (cases "0 < n")
  case True
  then show ?thesis using l Q by (intro random_value_wpx)
next
  case False
  with l n show ?thesis by (simp add: random_value_def wpx_def lawful_uniform_def)
qed

lemma churn_timer_inv:
  assumes ok: "lawful_uniform env" "persists E env sto" and s: "stays D E m"
    and r: "(\<forall>p m. E p m) \<or> 0 < unat (cfg_byzantine_max_churn_timeout_millis cfg)"
    and Q: "\<And>t m'. stays D E m' \<Longrightarrow> Q t m'"
  shows "wpx D E (churn_timer env cfg sto) Q m"
proof -
  have timer: "wpx D E (bindM (ioM (timeout_new env d)) (\<lambda>churn. ioM (timeout_start env churn))) Q m'"
    if "stays D E m'" for m' d
    using that by (auto simp: timeout_new_def now_def wp_simps intro!: Q io_inv)
  have written: "wpx D E (whenM b (drop_state_guard env sto)) (\<lambda>_. stays D E) m'" if "stays D E m'" for m' b
    using that by (cases b) (auto simp: whenM_def wpx_returnM intro!: drop_state_guard_wpx [OF ok(2)] io_inv)
  have w: "stays D E (with_world w m)" for w using s by (auto simp: with_world_def intro: io_inv)
  show ?thesis
    unfolding churn_timer_def wpx_bindM [of _ _ "random_value _ _"] wpx_thenM_fun
    by (rule random_value_range [OF ok(1) r], rule wpx_conseq [OF written [OF w] timer])
qed

lemma engine_enter_inv:
  assumes ok: "lawful_uniform env" "persists E env sto" and st: "startable (storage_data sto)"
    and pr: "provided D E (initial_machine sto io)"
    and r: "(\<forall>p m. E p m) \<or> 0 < unat (cfg_byzantine_max_churn_timeout_millis cfg)"
  shows "wpx D E (engine_enter env cfg sto startup) (\<lambda>_. stays D E) (initial_machine sto io)"
proof -
  have base: "stays D E m"
    if "mc_state m = (storage_data sto)\<lparr>ss_chain_head := b\<rparr>" "mc_block_queue m = []" for m b
    using st pr that by (simp add: inv_defs startable_def initial_machine_def keys_distinct_def
        delay_ok_def others_def)
  have new: "wpx D E (finallyM (node_new env b) (drop_state_guard env sto)) (\<lambda>_. stays D E) m"
    if "mc_state m = storage_data sto" for m b
    by (rule guarded_wpx [OF ok(2)])
      (use that in \<open>auto simp: node_new_def wp_simps initialize_block_def intro!: base [where b = "block_id b"]\<close>)
  have rest: "wpx D E (bindM (ioM (now env)) (\<lambda>timestamp_log. bindM (churn_timer env cfg sto) (\<lambda>churn.
     returnM \<lparr>lv_block_publishing_ticker = ticker, lv_byzantine_churn_timeout = churn,
       lv_timestamp_log = timestamp_log\<rparr>))) (\<lambda>_. stays D E) m"
    if "stays D E m" for m ticker
    unfolding wpx_bindM
    by (rule now_inv [OF that], rule churn_timer_inv [OF ok _ r]) (simp_all add: wpx_returnM)
  show ?thesis
    unfolding engine_enter_def wpx_bindM [of _ _ "ioM (ticker_new _ _)"]
    by (simp add: ticker_new_def now_def wpx_ioM wpx_bindM [of _ _ "ask _"] wpx_ask wpx_returnM,
        unfold wpx_thenM, rule wpx_conseq [OF new])
      (simp add: initial_machine_def, rule rest [unfolded now_def])
qed

end
