(* ===== verification/Node_Steps.thy ===== *)
theory Node_Steps
  imports Engine_Invariant
begin

text \<open>
  The node as a transition system. A step is one handler that returned; an action says, without
  the code, what a step may do. Under the invariant every step is an action, and a turn of the
  engine's loop is a sequence of steps, so what holds of all sequences of actions holds of the
  engine: the invariant, the finality of decisions, and that only checked blocks are committed.
\<close>

section \<open>Steps\<close>

text \<open>A handler that returned, other than the one that receives a block, or the world outside.\<close>

inductive other_step :: "('w, 'm) node_env_scheme \<Rightarrow> 'w machine \<Rightarrow> 'w machine \<Rightarrow> bool"
  for env where
  queue: "handle_queue env m = Some (Return () m') \<Longrightarrow> other_step env m m'"
| connected: "on_peer_connected p m = Some (Return r m') \<Longrightarrow> other_step env m m'"
| disconnected: "on_peer_disconnected p m = Some (Return r m') \<Longrightarrow> other_step env m m'"
| message: "on_peer_message env t p payload m = Some (Return r m') \<Longrightarrow> other_step env m m'"
| unresponsive: "handle_unresponsive_peers env m = Some (Return () m') \<Longrightarrow> other_step env m m'"
| publish: "try_publish env m = Some (Return () m') \<Longrightarrow> other_step env m m'"
| outside: "acted es m m' \<Longrightarrow> \<forall>e\<in>set es. \<exists>path c. e = WroteFile path c \<Longrightarrow> other_step env m m'"

inductive node_step :: "('w, 'm) node_env_scheme \<Rightarrow> 'w machine \<Rightarrow> 'w machine \<Rightarrow> bool"
  for env where
  other: "other_step env m m' \<Longrightarrow> node_step env m m'"
| block_new: "on_block_new env b m = Some (Return r m') \<Longrightarrow> node_step env m m'"

text \<open>What a step may do.\<close>

inductive other_action :: "('w, 'm) node_env_scheme \<Rightarrow> 'w machine \<Rightarrow> 'w machine \<Rightarrow> bool"
  for env where
  act_queue: "queue_handled env m m' \<Longrightarrow> other_action env m m'"
| act_members: "other_action env m (with_state (with_members ps) m)"
| act_request: "request_answered env p payload m r m' \<Longrightarrow> other_action env m m'"
| act_response: "response_handled env p payload m r m' \<Longrightarrow> other_action env m m'"
| act_unavailable: "unavailable_handled env p m r m' \<Longrightarrow> other_action env m m'"
| act_unresponsive: "unresponsive_handled env m m' \<Longrightarrow> other_action env m m'"
| act_publish: "published env m m' \<Longrightarrow> other_action env m m'"
| act_outside: "acted es m m' \<Longrightarrow> \<forall>e\<in>set es. \<exists>path c. e = WroteFile path c \<Longrightarrow> other_action env m m'"

inductive node_action :: "('w, 'm) node_env_scheme \<Rightarrow> 'w machine \<Rightarrow> 'w machine \<Rightarrow> bool"
  for env where
  act_other: "other_action env m m' \<Longrightarrow> node_action env m m'"
| act_block: "block_queued b m m' \<Longrightarrow> node_action env m m'"

inductive_cases other_stepE: "other_step env m m'"
inductive_cases node_stepE: "node_step env m m'"

lemma node_step_cases [consumes 1, case_names queue block_new connected disconnected message unresponsive publish outside]:
  assumes "node_step env m m'"
  obtains "handle_queue env m = Some (Return () m')"
  | b r where "on_block_new env b m = Some (Return r m')"
  | p r where "on_peer_connected p m = Some (Return r m')"
  | p r where "on_peer_disconnected p m = Some (Return r m')"
  | t p payload r where "on_peer_message env t p payload m = Some (Return r m')"
  | "handle_unresponsive_peers env m = Some (Return () m')"
  | "try_publish env m = Some (Return () m')"
  | es where "acted es m m'" and "\<forall>e\<in>set es. \<exists>path c. e = WroteFile path c"
  using assms by (auto elim!: node_stepE elim: other_stepE)

inductive_cases other_actionE: "other_action env m m'"
inductive_cases node_actionE: "node_action env m m'"

lemma node_action_cases [consumes 1, case_names act_queue act_block act_members act_request act_response
    act_unavailable act_unresponsive act_publish act_outside]:
  assumes "node_action env m m'"
  obtains "queue_handled env m m'"
  | b where "block_queued b m m'"
  | ps where "m' = with_state (with_members ps) m"
  | p payload r where "request_answered env p payload m r m'"
  | p payload r where "response_handled env p payload m r m'"
  | p r where "unavailable_handled env p m r m'"
  | "unresponsive_handled env m m'"
  | "published env m m'"
  | es where "acted es m m'" and "\<forall>e\<in>set es. \<exists>path c. e = WroteFile path c"
  using assms by (auto elim!: node_actionE elim: other_actionE)

definition lawful :: "('w, 'm) node_env_scheme \<Rightarrow> bool" where
  "lawful env \<longleftrightarrow> lawful_uniform env \<and> lawful_iteration env"

abbreviation anything :: "panic \<Rightarrow> 'w machine \<Rightarrow> bool" where
  "anything \<equiv> \<lambda>_ _. True"

lemma lawful_ok [simp]: "lawful env \<Longrightarrow> env_ok True anything env"
  by (simp add: env_ok_def lawful_def)

lemma stays_partial [simp]: "stays True anything m = node_inv m"
  by (simp add: stays_def provided_def delay_ok_def)

lemma step_invariant:
  assumes l: "lawful env" and i: "node_inv m" and s: "node_step env m m'"
  shows "node_inv m'"
proof -
  have st: "stays True anything m" using i by simp
  note ok = lawful_ok [OF l]
  from s have "stays True anything m'"
  proof (cases rule: node_step_cases)
    case queue
    then show ?thesis using wlpD [OF handle_queue_inv [OF ok st]] by blast
  next
    case (block_new b r)
    then show ?thesis using wlpD [OF on_block_new_inv [OF ok st]] by blast
  next
    case (connected p r)
    then show ?thesis using wlpD [OF on_peer_connected_inv [OF st]] by blast
  next
    case (disconnected p r)
    then show ?thesis using wlpD [OF on_peer_disconnected_inv [OF st]] by simp
  next
    case (message t p payload r)
    then show ?thesis using wlpD [OF on_peer_message_inv [OF ok st]] by blast
  next
    case unresponsive
    then show ?thesis using wlpD [OF handle_unresponsive_peers_inv [OF ok st]] by blast
  next
    case publish
    then show ?thesis using wlpD [OF try_publish_inv [OF _ st, of env]] by (simp add: publishing_ok_def)
  next
    case (outside es)
    then show ?thesis using st by (auto simp: acted_def simp del: stays_partial intro: same_state_inv)
  qed
  then show ?thesis by simp
qed

text \<open>The steps refine the actions.\<close>

lemma handle_queue_action:
  assumes l: "lawful env" and i: "node_inv m"
  shows "wlp (handle_queue env) (\<lambda>_ m'. queue_handled env m m') m"
proof (rule handle_queue_wpx [OF lawful_ok [OF l]])
  fix b bs
  assume "mc_block_queue m = b # bs" "block_id b \<noteq> ss_decision_block (mc_state m)"
  then have "ss_phase (mc_state m) \<noteq> Listening"
    using i by (auto simp: inv_defs round_ok_def split: phase.splits)
  then show "round_ready True anything m"
    using i by (intro idle_ready) simp_all
qed

lemma on_request_action:
  assumes "lawful env"
  shows "wlp (on_request env p payload) (request_answered env p payload m) m"
  by (rule on_request_wpx [OF lawful_ok [OF assms]]) (simp add: delay_ok_def)

lemma on_response_action:
  assumes "lawful env" and i: "node_inv m"
  shows "wlp (on_response env p payload) (response_handled env p payload m) m"
  using count_vote_inv(1) [of True anything m] i
  by (intro on_response_wpx [OF lawful_ok [OF assms(1)]]) auto

lemma on_unavailable_action:
  assumes "lawful env" and i: "node_inv m"
  shows "wlp (on_unavailable env p) (unavailable_handled env p m) m"
proof (rule on_unavailable_wpx [OF lawful_ok [OF assms(1)]])
  have st: "stays True anything m" using i by simp
  assume "expects (mc_state m) p"
  then have "stays True anything (with_state (no_longer_awaited p) m)"
    using no_longer_awaited_inv [OF st] by (simp add: expects_def)
  then show "can_ask True anything (with_state (no_longer_awaited p) m)"
    using place_order_valid unfolding can_ask_def by (auto simp: inv_defs simp del: stays_partial)
qed

lemma on_peer_message_action:
  assumes l: "lawful env" and i: "node_inv m"
  shows "wlp (on_peer_message env t p payload) (\<lambda>_ m'. other_action env m m') m"
proof -
  have "other_action env m m"
    by (rule act_outside [where es = "[]"]) (simp_all add: acted_def)
  moreover have "wlp (on_request env p payload) (\<lambda>_ m'. other_action env m m') m"
    by (rule wpx_conseq [OF on_request_action [OF l]]) (rule act_request)
  moreover have "wlp (on_response env p payload) (\<lambda>_ m'. other_action env m m') m"
    by (rule wpx_conseq [OF on_response_action [OF l i]]) (rule act_response)
  moreover have "wlp (on_unavailable env p) (\<lambda>_ m'. other_action env m m') m"
    by (rule wpx_conseq [OF on_unavailable_action [OF l i]]) (rule act_unavailable)
  ultimately show ?thesis
    by (simp add: on_peer_message_def wp_simps)
qed

lemma handle_unresponsive_peers_action:
  assumes l: "lawful env" and i: "node_inv m"
  shows "wlp (handle_unresponsive_peers env) (\<lambda>_ m'. unresponsive_handled env m m') m"
  by (rule handle_unresponsive_peers_wpx [OF lawful_ok [OF l]])
    (use i place_order_valid in \<open>auto simp: inv_defs delay_ok_def\<close>)

lemma other_step_action:
  assumes l: "lawful env" and i: "node_inv m" and s: "other_step env m m'"
  shows "other_action env m m'"
  using s
proof cases
  case queue
  then show ?thesis using handle_queue_action [OF l i] by (auto dest: wlpD intro: act_queue)
next
  case (connected p r)
  have "wlp (on_peer_connected p) (\<lambda>_ m'. other_action env m m') m"
    using act_outside [of "[]" m m env] by (auto simp: on_peer_connected_wpx acted_def intro: act_members)
  with connected show ?thesis by (auto dest: wlpD)
next
  case (disconnected p r)
  have "wlp (on_peer_disconnected p) (\<lambda>_ m'. other_action env m m') m"
    by (rule on_peer_disconnected_partial) (auto intro: act_members)
  with disconnected show ?thesis by (auto dest: wlpD)
next
  case (message t p payload r)
  then show ?thesis using on_peer_message_action [OF l i] by (auto dest: wlpD)
next
  case unresponsive
  then show ?thesis using handle_unresponsive_peers_action [OF l i] by (auto dest: wlpD intro: act_unresponsive)
next
  case publish
  have "wlp (try_publish env) (\<lambda>_ m'. published env m m') m"
    by (rule try_publish_wpx) (simp_all add: publishing_ok_def)
  with publish show ?thesis by (auto dest: wlpD intro: act_publish)
next
  case (outside es)
  then show ?thesis by (rule act_outside)
qed

lemma on_block_new_action:
  assumes "lawful env" and "on_block_new env b m = Some (Return r m')"
  shows "block_queued b m m'"
proof -
  have "wlp (on_block_new env b) (\<lambda>_ m'. block_queued b m m') m"
    by (rule on_block_new_wpx [OF lawful_ok [OF assms(1)]])
  with assms(2) show ?thesis by (auto dest: wlpD)
qed

lemma node_step_action:
  assumes l: "lawful env" and i: "node_inv m" and s: "node_step env m m'"
  shows "node_action env m m'"
  using s by cases (auto intro: act_other other_step_action [OF l i] act_block on_block_new_action [OF l])

section \<open>The engine as a transition system\<close>

definition node_initial :: "('w, 'm) node_env_scheme \<Rightarrow> 'w machine \<Rightarrow> bool" where
  "node_initial env m \<longleftrightarrow> lawful env \<and> startable (mc_state m) \<and> mc_block_queue m = []"

interpretation nts: transition_system "node_initial env" "node_step env" "\<lambda>m. lawful env \<and> node_inv m"
  for env :: "('w, 'm) node_env_scheme"
proof
  fix m m' :: "'w machine"
  show "node_initial env m \<Longrightarrow> lawful env \<and> node_inv m"
    by (auto simp: node_initial_def startable_def inv_defs keys_distinct_def)
  show "lawful env \<and> node_inv m \<Longrightarrow> node_step env m m' \<Longrightarrow> lawful env \<and> node_inv m'"
    using step_invariant by blast
qed

section \<open>What holds through the loop\<close>

text \<open>
  A relation \<open>R\<close> between the updates that have been handled and the machine, which every handler
  keeps: the engine's loop keeps it too.
\<close>

locale engine_hears =
  fixes env :: "('w, 'm) node_env_scheme" and R :: "incoming list \<Rightarrow> 'w machine \<Rightarrow> bool"
  assumes queue_keeps: "R us m \<Longrightarrow> handle_queue env m = Some (Return () m') \<Longrightarrow> R us m'"
    and unresponsive_keeps: "R us m \<Longrightarrow> handle_unresponsive_peers env m = Some (Return () m') \<Longrightarrow> R us m'"
    and publish_keeps: "R us m \<Longrightarrow> try_publish env m = Some (Return () m') \<Longrightarrow> R us m'"
    and outside_keeps: "R us m \<Longrightarrow> acted es m m' \<Longrightarrow> \<forall>e\<in>set es. \<exists>path c. e = WroteFile path c \<Longrightarrow> R us m'"
    and update_heard: "R us m \<Longrightarrow> handle_update env i m = Some (Return go m') \<Longrightarrow> R (us @ [i]) m'"
begin

text \<open>A computation all of whose results are related.\<close>

lemma wlp_kept:
  assumes "\<And>a m'. c m = Some (Return a m') \<Longrightarrow> R us m'" and "\<And>a m'. R us m' \<Longrightarrow> Q a m'"
  shows "wlp c Q m"
  unfolding wlp_iff using assms by blast

lemma world_kept: "R us m \<Longrightarrow> R us (m\<lparr>mc_io := (mc_io m)\<lparr>io_world := w\<rparr>\<rparr>)"
  by (erule outside_keeps [where es = "[]"]) (simp_all add: acted_def)

lemma now_kept:
  assumes "R us m" and "\<And>a m'. R us m' \<Longrightarrow> Q a m'"
  shows "wlp (ioM (now env)) Q m"
  using world_kept [OF assms(1)] by (simp add: now_def wp_simps assms(2))

lemma churn_check_kept:
  assumes "R us m" and "\<And>a m'. R us m' \<Longrightarrow> Q a m'"
  shows "wlp (churn_check env t) Q m"
  using world_kept [OF assms(1)] assms(1)
  by (auto simp: churn_check_def wp_simps check_expired_wp split_beta intro!: assms(2))

lemma handle_update_kept:
  assumes "R us m" and "\<And>a m'. R (us @ [i]) m' \<Longrightarrow> Q a m'"
  shows "wlp (handle_update env i) Q m"
  by (rule wlp_kept [where us = "us @ [i]"]) (auto intro: update_heard [OF assms(1)] assms(2))

lemma publish_kept:
  assumes "R us m" and "\<And>a m'. R us m' \<Longrightarrow> Q a m'"
  shows "wlp (try_publish env) Q m"
  by (rule wlp_kept [where us = us]) (auto intro: publish_keeps [OF assms(1)] assms(2))

lemma queue_kept:
  assumes "R us m" and "\<And>a m'. R us m' \<Longrightarrow> Q a m'"
  shows "wlp (handle_queue env) Q m"
  by (rule wlp_kept [where us = us]) (auto intro: queue_keeps [OF assms(1)] assms(2))

lemma unresponsive_kept:
  assumes "R us m" and "\<And>a m'. R us m' \<Longrightarrow> Q a m'"
  shows "wlp (handle_unresponsive_peers env) Q m"
  by (rule wlp_kept [where us = us]) (auto intro: unresponsive_keeps [OF assms(1)] assms(2))

lemma turn_end_kept:
  assumes m: "R us m"
  shows "wlp (turn_end env lv) (\<lambda>_. R us) m"
  unfolding turn_end_def ticker_tick_def wpx_bindM
  by (rule now_kept [OF m]) (auto simp: Let_def wpx_fun wpx_if intro!: now_kept publish_kept)

lemma drop_state_guard_kept:
  assumes m: "R us m" and Q: "\<And>m'. R us m' \<Longrightarrow> Q () m'"
  shows "wlp (drop_state_guard env sto) Q m"
proof -
  have w: "R us (m\<lparr>mc_io := (mc_io m)\<lparr>io_world := w, io_trace := io_trace (mc_io m) @ [WroteFile path c]\<rparr>\<rparr>)"
    for w path c
    by (rule outside_keeps [OF m, where es = "[WroteFile path c]"]) (auto simp: acted_def)
  show ?thesis
    using m by (cases sto) (auto simp: drop_state_guard_def drop_write_guard_def write_file_def wp_simps
        intro!: Q w split: option.splits sum.splits)
qed

text \<open>A turn handles its update, or crashes before it does.\<close>

lemma turn_body_kept:
  assumes m: "R us m"
  shows "wlp (turn_body env i lv) (\<lambda>(go, _) m'. R (us @ [i]) m' \<or> \<not> go \<and> R us m') m"
  unfolding turn_body_def wpx_bindM [of _ _ "churn_check env _"]
  by (rule churn_check_kept [OF m])
    (auto simp: Let_def wpx_fun wpx_if split_beta
      intro!: queue_kept handle_update_kept unresponsive_kept wpx_conseq [OF turn_end_kept])

lemma turn_kept:
  assumes m: "R us m"
  shows "wlp (turn env sto i lv) (\<lambda>(go, _) m'. R (us @ [i]) m' \<or> \<not> go \<and> R us m') m"
  unfolding turn_def wpx_finallyM
proof (rule wpx_mono [OF turn_body_kept [OF m]])
  fix r :: "bool \<times> loop_vars" and m'
  assume "(case r of (go, _) \<Rightarrow> \<lambda>m'. R (us @ [i]) m' \<or> \<not> go \<and> R us m') m'"
  then consider "R (us @ [i]) m'" | "\<not> fst r" "R us m'" by (auto split: prod.splits)
  then show "wlp (drop_state_guard env sto)
      (\<lambda>_. case r of (go, _) \<Rightarrow> \<lambda>m'. R (us @ [i]) m' \<or> \<not> go \<and> R us m') m'"
    by cases (erule drop_state_guard_kept, simp add: split_beta)+
qed (simp_all add: wpx_def split: option.splits outcome.splits)

text \<open>The loop, on the updates it gets to handle.\<close>

lemma engine_loop_kept:
  "R us m \<Longrightarrow> wlp (engine_loop env sto is lv) (\<lambda>_ m'. \<exists>n. R (us @ take n is) m') m"
proof (induction "is" arbitrary: lv us m)
  case Nil
  then show ?case by (simp add: wp_simps)
next
  case (Cons i "is")
  show ?case
    unfolding engine_loop.simps wpx_bindM
  proof (rule wpx_conseq [OF turn_kept [OF Cons.prems]])
    fix r :: "bool \<times> loop_vars" and m'
    assume r: "(case r of (go, _) \<Rightarrow> \<lambda>m'. R (us @ [i]) m' \<or> \<not> go \<and> R us m') m'"
    obtain go lv' where go: "r = (go, lv')" by fastforce
    have none: "\<exists>n. R (us @ take n (i # is)) m''" if "R us m''" for m''
      using that by (intro exI [of _ 0]) simp
    have more: "\<exists>n. R (us @ take n (i # is)) m''" if "\<exists>n. R ((us @ [i]) @ take n is) m''" for m''
    proof -
      from that obtain n where "R ((us @ [i]) @ take n is) m''" by blast
      then show ?thesis by (intro exI [of _ "Suc n"]) simp
    qed
    have one: "\<exists>n. R ((us @ [i]) @ take n is) m''" if "R (us @ [i]) m''" for m''
      using that by (intro exI [of _ 0]) simp
    show "wlp (case r of (go, lv) \<Rightarrow> if go then engine_loop env sto is lv else returnM False)
        (\<lambda>_ m'. \<exists>n. R (us @ take n (i # is)) m') m'"
    proof (cases go)
      case True
      with r go have "R (us @ [i]) m'" by simp
      from wpx_conseq [OF Cons.IH [OF this, of lv'] more] True go show ?thesis by simp
    next
      case False
      then show ?thesis using r go none more [OF one] by (auto simp: wpx_returnM)
    qed
  qed
qed

end

text \<open>
  A relation with the blocks that have arrived, which every step keeps; only \<open>BlockNew\<close> adds to
  the blocks.
\<close>

definition arrivals :: "incoming \<Rightarrow> block list" where
  "arrivals i = (case i of Update (BlockNew b) \<Rightarrow> [b] | _ \<Rightarrow> [])"

locale engine_runs =
  fixes env :: "('w, 'm) node_env_scheme" and R :: "block list \<Rightarrow> 'w machine \<Rightarrow> bool"
  assumes kept: "R bs m \<Longrightarrow> other_step env m m' \<Longrightarrow> R bs m'"
    and arrived: "R bs m \<Longrightarrow> on_block_new env b m = Some (Return r m') \<Longrightarrow> R (bs @ [b]) m'"
begin

lemma step_kept:
  assumes "R bs m" and "\<And>a m'. c m = Some (Return a m') \<Longrightarrow> other_step env m m'"
  shows "wlp c (\<lambda>_. R bs) m"
  unfolding wlp_iff using assms kept by blast

lemma update_kept:
  assumes m: "R bs m"
  shows "wlp (handle_update env i) (\<lambda>_. R (bs @ arrivals i)) m"
proof (cases i)
  case (Update u)
  show ?thesis
  proof (cases u)
    case (BlockNew b)
    have "wlp (on_block_new env b) (\<lambda>_. R (bs @ [b])) m"
      unfolding wlp_iff using arrived [OF m] by blast
    then show ?thesis
      using Update BlockNew by (auto simp: handle_update_def arrivals_def wpx_fun elim!: wpx_conseq)
  next
    case (PeerMessage message p)
    then show ?thesis
      using Update by (auto simp: handle_update_def decode_payload_def wpx_fun wpx_unwrapM arrivals_def
          intro!: wpx_conseq [OF step_kept [OF m]] other_step.message split: option.splits)
  next
    case (PeerConnected p)
    then show ?thesis
      using Update by (auto simp: handle_update_def wpx_fun arrivals_def intro!: wpx_conseq [OF step_kept [OF m]] connected)
  next
    case (PeerDisconnected p)
    then show ?thesis
      using Update by (auto simp: handle_update_def wpx_fun arrivals_def intro!: wpx_conseq [OF step_kept [OF m]] disconnected)
  qed (use m Update in \<open>simp_all add: handle_update_def wp_simps on_block_valid_def
      on_block_invalid_def on_block_commit_def arrivals_def\<close>)
qed (use m in \<open>simp_all add: handle_update_def wp_simps arrivals_def\<close>)

end

sublocale engine_runs \<subseteq> heard: engine_hears env "\<lambda>us. R (bs @ concat (map arrivals us))" for bs
proof
  fix us m i go m'
  assume "R (bs @ concat (map arrivals us)) m"
  from wlpD [OF update_kept [OF this]]
  show "handle_update env i m = Some (Return go m') \<Longrightarrow> R (bs @ concat (map arrivals (us @ [i]))) m'" by simp
qed (blast intro: kept queue unresponsive publish outside)+

context engine_runs
begin

lemma engine_loop_kept:
  assumes "R bs m"
  shows "wlp (engine_loop env sto is lv) (\<lambda>_ m'. \<exists>n. R (bs @ concat (map arrivals (take n is))) m') m"
  using heard.engine_loop_kept [of bs "[]"] assms by simp

end

text \<open>The steps from a machine are such a relation.\<close>

interpretation run: engine_runs env "\<lambda>_. (node_step env)\<^sup>*\<^sup>* m0"
  for env :: "('w, 'm) node_env_scheme" and m0
  by unfold_locales (auto intro: rtranclp.rtrancl_into_rtrancl other block_new)

lemma engine_loop_steps:
  "(node_step env)\<^sup>*\<^sup>* m0 m \<Longrightarrow> wlp (engine_loop env sto is lv) (\<lambda>_. (node_step env)\<^sup>*\<^sup>* m0) m"
  by (rule wpx_conseq [OF run.engine_loop_kept]) auto

end
