(* ===== verification/Protocol.thy ===== *)
theory Protocol
  imports Snowball_State
begin

text \<open>
  What a node promises about blocks, without rounds, peers and counters: a vote on a block
  begins, the preferred decision is revised, the vote ends with a commit or without. The node's
  steps are shown to be such steps elsewhere; here the promise is stated and its consequences
  are proved.
\<close>

section \<open>The abstract node\<close>

record protocol =
  pr_listening :: bool
  pr_seq :: u64
  pr_block :: block_id
  pr_decisions :: "u64 \<rightharpoonup> decision_state"
  pr_checked :: "block_id list"
  pr_committed :: "block_id list"

definition begin_vote :: "block_id \<Rightarrow> protocol \<Rightarrow> protocol" where
  "begin_vote b p = p\<lparr>pr_listening := True, pr_seq := pr_seq p + 1, pr_block := b,
     pr_decisions := (pr_decisions p)(pr_seq p + 1 \<mapsto> OK), pr_checked := pr_checked p @ [b]\<rparr>"

definition revise :: "decision_state \<Rightarrow> protocol \<Rightarrow> protocol" where
  "revise c p = p\<lparr>pr_decisions := (pr_decisions p)(pr_seq p \<mapsto> c)\<rparr>"

definition end_vote :: "decision_state \<Rightarrow> protocol \<Rightarrow> protocol" where
  "end_vote c p = (revise c p)\<lparr>pr_listening := False,
     pr_committed := pr_committed p @ (if c = OK then [pr_block p] else [])\<rparr>"

inductive protocol_step :: "protocol \<Rightarrow> protocol \<Rightarrow> bool" where
  stutter: "protocol_step p p"
| begins: "\<not> pr_listening p \<Longrightarrow> protocol_step p (begin_vote b p)"
| revises: "pr_listening p \<Longrightarrow> c \<in> {OK, KO} \<Longrightarrow> protocol_step p (revise c p)"
| ends: "pr_listening p \<Longrightarrow> c \<in> {OK, KO} \<Longrightarrow> protocol_step p (end_vote c p)"

inductive_cases protocol_stepE: "protocol_step p q"

lemmas vote_defs = begin_vote_def revise_def end_vote_def

section \<open>Commits\<close>

text \<open>
  Only checked blocks are committed, at most one per vote. \<open>pr_checked\<close> has one entry per vote
  begun.
\<close>

definition commits_ok :: "protocol \<Rightarrow> bool" where
  "commits_ok p \<longleftrightarrow> set (pr_committed p) \<subseteq> set (pr_checked p)
     \<and> (pr_listening p \<longrightarrow> pr_block p \<in> set (pr_checked p))
     \<and> length (pr_committed p) + (if pr_listening p then 1 else 0) \<le> length (pr_checked p)"

definition protocol_initial :: "protocol \<Rightarrow> bool" where
  "protocol_initial p \<longleftrightarrow> \<not> pr_listening p \<and> pr_committed p = [] \<and> pr_checked p = []"

interpretation pts: transition_system protocol_initial protocol_step commits_ok
proof
  fix p q
  show "protocol_initial p \<Longrightarrow> commits_ok p"
    by (simp add: protocol_initial_def commits_ok_def)
  assume "commits_ok p" "protocol_step p q"
  then show "commits_ok q"
    by (auto simp: commits_ok_def vote_defs elim!: protocol_stepE)
qed

section \<open>Finality\<close>

text \<open>The number of votes begun between two states, and what it says of the sequence number.\<close>

lemma votes_begun:
  assumes "protocol_step\<^sup>*\<^sup>* p q"
  shows "length (pr_checked p) \<le> length (pr_checked q)"
    and "pr_seq q = pr_seq p + of_nat (length (pr_checked q) - length (pr_checked p))"
    and "\<not> pr_listening p \<Longrightarrow> pr_listening q \<Longrightarrow> length (pr_checked p) < length (pr_checked q)"
proof -
  have "length (pr_checked p) \<le> length (pr_checked q)
    \<and> pr_seq q = pr_seq p + of_nat (length (pr_checked q) - length (pr_checked p))
    \<and> (\<not> pr_listening p \<and> pr_listening q \<longrightarrow> length (pr_checked p) < length (pr_checked q))"
    using assms
  proof (induction rule: rtranclp_induct)
    case base
    then show ?case by simp
  next
    case (step q r)
    then show ?case
      by (auto simp: vote_defs Suc_diff_le elim!: protocol_stepE)
  qed
  then show "length (pr_checked p) \<le> length (pr_checked q)"
    "pr_seq q = pr_seq p + of_nat (length (pr_checked q) - length (pr_checked p))"
    "\<not> pr_listening p \<Longrightarrow> pr_listening q \<Longrightarrow> length (pr_checked p) < length (pr_checked q)"
    by auto
qed

lemma of_nat_fresh: "0 < n \<Longrightarrow> n < 2 ^ 64 \<Longrightarrow> (s :: u64) + of_nat n \<noteq> s"
  by (auto simp: word_of_nat_eq_0_iff dest: nat_dvd_not_less)

text \<open>
  Once no vote is on, the decision on the current sequence number stays, for as long as the
  sequence number does not come back: for \<open>2 ^ 64 - 1\<close> further votes.
\<close>

lemma decision_final:
  assumes "protocol_step\<^sup>*\<^sup>* p q" and "\<not> pr_listening p"
    and "length (pr_checked q) < length (pr_checked p) + 2 ^ 64"
  shows "pr_decisions q (pr_seq p) = pr_decisions p (pr_seq p)"
  using assms(1,3)
proof (induction rule: rtranclp_induct)
  case base
  then show ?case by simp
next
  case (step q r)
  note v = votes_begun [OF step.hyps(1)]
  let ?n = "length (pr_checked q) - length (pr_checked p)"
  have IH: "pr_decisions q (pr_seq p) = pr_decisions p (pr_seq p)"
    using step.IH step.prems votes_begun(1) [OF r_into_rtranclp [of protocol_step, OF step.hyps(2)]]
    by linarith
  from step.hyps(2) show ?case
  proof cases
    case stutter
    with IH show ?thesis by simp
  next
    case (begins b)
    then have "Suc ?n < 2 ^ 64" using step.prems v(1) by (simp add: vote_defs)
    then have "pr_seq p + of_nat (Suc ?n) \<noteq> pr_seq p" by (intro of_nat_fresh) simp_all
    then have "pr_seq q + 1 \<noteq> pr_seq p" using v(2) by (simp add: add.assoc add.commute)
    with begins IH show ?thesis by (simp add: vote_defs)
  next
    case (revises c)
    then have "?n < 2 ^ 64" "0 < ?n" using step.prems v(1) v(3) [OF assms(2)] by (auto simp: vote_defs)
    then have "pr_seq q \<noteq> pr_seq p" using of_nat_fresh [of ?n "pr_seq p"] v(2) by simp
    with revises IH show ?thesis by (simp add: vote_defs)
  next
    case (ends c)
    then have "?n < 2 ^ 64" "0 < ?n" using step.prems v(1) v(3) [OF assms(2)] by (auto simp: vote_defs)
    then have "pr_seq q \<noteq> pr_seq p" using of_nat_fresh [of ?n "pr_seq p"] v(2) by simp
    with ends IH show ?thesis by (simp add: vote_defs)
  qed
qed

end
