(* ===== verification/Node_Protocol.thy ===== *)
theory Node_Protocol
  imports Node_Steps Protocol
begin

text \<open>
  The simulation: what a node's state and its trace of calls show of the protocol, and that every
  step of the node is a step of the protocol. The consequences proved of the protocol then hold
  of the node, and through \<open>engine_loop_steps\<close> of the engine.
\<close>

section \<open>The view\<close>

definition checks_of :: "event list \<Rightarrow> block_id list" where
  "checks_of t = concat (map (\<lambda>e. case e of CheckBlocks bs \<Rightarrow> bs | _ \<Rightarrow> []) t)"

definition commits_of :: "event list \<Rightarrow> block_id list" where
  "commits_of t = concat (map (\<lambda>e. case e of CommitBlock b \<Rightarrow> [b] | _ \<Rightarrow> []) t)"

lemma view_append [simp]:
  "checks_of (t @ u) = checks_of t @ checks_of u" "commits_of (t @ u) = commits_of t @ commits_of u"
  "checks_of [] = []" "commits_of [] = []"
  by (simp_all add: checks_of_def commits_of_def)

definition protocol_view :: "'w machine \<Rightarrow> protocol" where
  "protocol_view m = \<lparr>
     pr_listening = (ss_phase (mc_state m) = Listening),
     pr_seq = ss_seq_num (mc_state m),
     pr_block = ss_decision_block (mc_state m),
     pr_decisions = ss_decision_map (mc_state m),
     pr_checked = checks_of (io_trace (mc_io m)),
     pr_committed = commits_of (io_trace (mc_io m))\<rparr>"

text \<open>Calls that are neither checks nor commits.\<close>

definition quiet :: "event list \<Rightarrow> bool" where
  "quiet es \<longleftrightarrow> (\<forall>e\<in>set es. (\<forall>bs. e \<noteq> CheckBlocks bs) \<and> (\<forall>b. e \<noteq> CommitBlock b))"

lemma quiet_simps [simp]:
  "quiet []" "quiet (e # es) \<longleftrightarrow> (\<forall>bs. e \<noteq> CheckBlocks bs) \<and> (\<forall>b. e \<noteq> CommitBlock b) \<and> quiet es"
  "quiet (es @ fs) \<longleftrightarrow> quiet es \<and> quiet fs"
  by (auto simp: quiet_def)

lemma quiet_concat: "quiet (concat ess) \<longleftrightarrow> (\<forall>es\<in>set ess. quiet es)"
  by (auto simp: quiet_def)

lemma quiet_replicate: "quiet es \<Longrightarrow> quiet (concat (replicate n es))" "quiet [e] \<Longrightarrow> quiet (replicate n e)"
  by (auto simp: quiet_def)

lemma quiet_view: "quiet es \<Longrightarrow> checks_of es = []" "quiet es \<Longrightarrow> commits_of es = []"
  by (auto simp: quiet_def checks_of_def commits_of_def split: event.splits)

text \<open>The fields of the state the view shows.\<close>

definition view_state :: "snowball_state \<Rightarrow> phase \<times> u64 \<times> block_id \<times> (u64 \<rightharpoonup> decision_state)" where
  "view_state st = (ss_phase st, ss_seq_num st, ss_decision_block st, ss_decision_map st)"

definition quietly :: "'w machine \<Rightarrow> 'w machine \<Rightarrow> bool" where
  "quietly m m' \<longleftrightarrow> view_state (mc_state m') = view_state (mc_state m)
     \<and> (\<exists>es. quiet es \<and> io_trace (mc_io m') = io_trace (mc_io m) @ es)"

lemma quietly_view: "quietly m m' \<Longrightarrow> protocol_view m' = protocol_view m"
  by (auto simp: quietly_def view_state_def protocol_view_def quiet_view)

lemma quietly_trans: "quietly a b \<Longrightarrow> quietly b c \<Longrightarrow> quietly a c"
proof -
  assume a: "quietly a b" "quietly b c"
  then obtain es fs where "quiet es" "quiet fs" "io_trace (mc_io b) = io_trace (mc_io a) @ es"
    "io_trace (mc_io c) = io_trace (mc_io b) @ fs" by (auto simp: quietly_def)
  then have "quiet (es @ fs) \<and> io_trace (mc_io c) = io_trace (mc_io a) @ (es @ fs)" by simp
  with a show "quietly a c" unfolding quietly_def by metis
qed

lemma quietly_refl [simp]: "quietly m m"
  by (auto simp: quietly_def intro: exI [where x = "[]"])

lemma quietlyI:
  assumes "queried m m'" and "quiet es" and "io_trace (mc_io m') = io_trace (mc_io m) @ es"
  shows "quietly m m'"
  using assms(2,3) queriedD [OF assms(1)] by (auto simp: quietly_def view_state_def)

lemma quietly_traceI:
  assumes "io_trace (mc_io m') = io_trace (mc_io m) @ es" and "quiet es"
    and "view_state (mc_state m') = view_state (mc_state m)"
  shows "quietly m m'"
  using assms by (auto simp: quietly_def)

lemma queried_view: "queried m m' \<Longrightarrow> view_state (mc_state m') = view_state (mc_state m)"
  by (simp add: view_state_def queriedD)

lemma quietly_state:
  assumes "view_state (mc_state m') = view_state (mc_state m)" and "io_trace (mc_io m') = io_trace (mc_io m)"
  shows "quietly m m'"
  using assms by (auto simp: quietly_def intro: exI [where x = "[]"])

section \<open>Quiet actions\<close>

lemma request_events_quiet: "request_events env st p es \<Longrightarrow> quiet es"
  by (auto simp: request_events_def quiet_replicate split: if_splits)

lemma sent_quietly: "sent env p t v n m m' \<Longrightarrow> quietly m m'"
  by (auto simp: sent_def quiet_replicate queried_view split: if_splits elim!: quietly_traceI)

lemma other_peer_quietly: "other_peer_asked env m p m' \<Longrightarrow> quietly m m'"
  by (auto simp: other_peer_asked_def intro: quietlyI request_events_quiet)

lemma peers_asked_quietly: "peers_asked env ps m m' \<Longrightarrow> quietly m m'"
  by (induction ps arbitrary: m) (auto intro: quietly_trans other_peer_quietly)

lemma new_round_quietly: "new_round_from env m m' \<Longrightarrow> quietly m m'"
proof -
  assume "new_round_from env m m'"
  then obtain ps ess where q: "queried (clear_buffer m) m'"
    and e: "list_all2 (request_events env (mc_state m)) ps ess"
    and t: "io_trace (mc_io m') = io_trace (mc_io m) @ concat ess"
    by (auto simp: new_round_from_def round_started_def)
  have "quiet (concat ess)"
    using e request_events_quiet by (fastforce simp: quiet_concat list_all2_conv_all_nth in_set_conv_nth)
  then have "quietly (clear_buffer m) m'" using t by (intro quietlyI [OF q]) simp_all
  moreover have "quietly m (clear_buffer m)"
    by (rule quietly_state) (simp_all add: view_state_def clear_buffer_def)
  ultimately show "quietly m m'" by (blast intro: quietly_trans)
qed

lemma no_longer_awaited_quietly: "quietly m (with_state (no_longer_awaited p) m)"
  by (rule quietly_state) (simp_all add: view_state_def no_longer_awaited_def)

lemma forget_quietly: "quietly m (forget ps m)"
  by (induction ps arbitrary: m) (auto intro: quietly_trans no_longer_awaited_quietly)

lemma unresponsive_quietly: "unresponsive_handled env m m' \<Longrightarrow> quietly m m'"
proof -
  assume h: "unresponsive_handled env m m'"
  have "quietly m m'" if w: "same_but_world m m1" "peers_asked env ps (forget gone m1) m'" for gone ps m1
  proof -
    have "quietly m m1" using w(1) by (intro quietly_state) (simp_all add: same_but_world_def)
    then show ?thesis
      using forget_quietly peers_asked_quietly [OF w(2)] by (blast intro: quietly_trans)
  qed
  with h show ?thesis by (auto simp: unresponsive_handled_def split: if_splits)
qed

lemma published_quietly: "published env m m' \<Longrightarrow> quietly m m'"
proof -
  assume p: "published env m m'"
  have "quietly m m'" if "finalized env m b m'" for b
    using that by (auto simp: finalized_def quiet_replicate elim!: quietly_traceI)
  with p show "quietly m m'" by (auto simp: published_def split: if_splits)
qed

section \<open>Actions on blocks\<close>

lemma vote_started_view:
  assumes "vote_started env b m m'" and "ss_phase (mc_state m) = Idle"
  shows "protocol_view m' = (protocol_view m)\<lparr>pr_listening := True, pr_seq := pr_seq (protocol_view m) + 1,
    pr_block := b, pr_decisions := (pr_decisions (protocol_view m))(pr_seq (protocol_view m) + 1 \<mapsto> OK)\<rparr>"
proof -
  obtain m1 where n: "new_round_from env (with_state (start_vote b) m) m1"
    and m': "m' = with_state switch_phase m1"
    using assms(1) by (auto simp: vote_started_def)
  have q: "quietly (with_state (start_vote b) m) m1" by (rule new_round_quietly [OF n])
  then have "ss_phase (mc_state m1) = Idle" using assms(2) by (simp add: quietly_def view_state_def)
  then show ?thesis
    using quietly_view [OF q] by (simp add: m' protocol_view_def)
qed

lemma queue_handled_step:
  assumes h: "queue_handled env m m'" and i: "node_inv m"
  shows "protocol_step (protocol_view m) (protocol_view m')"
proof (cases "m' = m")
  case True
  then show ?thesis by (simp add: stutter)
next
  case False
  with h obtain b bs head where q: "mc_block_queue m = b # bs"
    and n: "block_id b \<noteq> ss_decision_block (mc_state m)" and x: "block_examined env b head m m'"
    by (auto simp: queue_handled_def split: list.splits if_splits)
  have idle: "ss_phase (mc_state m) = Idle"
    using i q n by (auto simp: inv_defs round_ok_def split: phase.splits)
  show ?thesis
  proof (cases "block_num b < block_num head")
    case True
    then have "quietly m m'"
      using x by (auto simp: block_examined_def acted_def elim!: quietly_traceI)
    then show ?thesis by (simp add: quietly_view stutter)
  next
    case False
    with x obtain m1 where m1: "acted [GetChainHead, CheckBlocks [block_id b]] m m1"
      "vote_started env (block_id b) m1 m'" by (auto simp: block_examined_def)
    have "protocol_view m1 = (protocol_view m)\<lparr>pr_checked := pr_checked (protocol_view m) @ [block_id b]\<rparr>"
      using m1(1) by (simp add: protocol_view_def acted_def checks_of_def commits_of_def)
    then have "protocol_view m' = begin_vote (block_id b) (protocol_view m)"
      using vote_started_view [OF m1(2)] m1(1) idle by (simp add: begin_vote_def acted_def)
    moreover have "\<not> pr_listening (protocol_view m)" using idle by (simp add: protocol_view_def)
    ultimately show ?thesis by (metis begins)
  qed
qed

lemma record_majority_map:
  assumes "voting st"
  shows "\<exists>c\<in>{OK, KO}. ss_decision_map (record_majority i st) = (ss_decision_map st)(ss_seq_num st \<mapsto> c)"
proof -
  let ?d = "ss_decision_map (record_majority i st)"
  obtain c where c: "?d (ss_seq_num st) = Some c" "c \<in> {OK, KO}"
    using record_majority_voting [OF assms, of i] by (auto simp: voting_def)
  have "?d = (ss_decision_map st)(ss_seq_num st \<mapsto> c)"
    using c(1) by (auto simp: record_majority_def Let_def fun_eq_iff split: if_splits)
  with c(2) show ?thesis by blast
qed

lemma round_evaluated_step:
  assumes r: "round_evaluated env m m'" and v: "voting (mc_state m)" and l: "ss_phase (mc_state m) = Listening"
  shows "protocol_step (protocol_view m) (protocol_view m')"
proof (cases "winner (mc_state m)")
  case None
  let ?m = "with_state (ss_confidence_counter_update (\<lambda>_. 0)) m"
  have "quietly m ?m" by (rule quietly_state) (simp_all add: view_state_def)
  moreover have "quietly ?m m'" using r None by (auto simp: round_evaluated_def intro: new_round_quietly)
  ultimately have "quietly m m'" by (rule quietly_trans)
  then show ?thesis by (simp add: quietly_view stutter)
next
  case (Some i)
  let ?m = "with_state (record_majority i) m"
  obtain c where c: "c \<in> {OK, KO}" "ss_decision_map (record_majority i (mc_state m))
      = (ss_decision_map (mc_state m))(ss_seq_num (mc_state m) \<mapsto> c)"
    using record_majority_map [OF v] by blast
  have view: "protocol_view ?m = revise c (protocol_view m)"
    using c(2) by (simp add: protocol_view_def revise_def)
  have li: "pr_listening (protocol_view m)" using l by (simp add: protocol_view_def)
  show ?thesis
  proof (cases "ss_beta (mc_state ?m) \<le> ss_confidence_counter (mc_state ?m)")
    case True
    then have d: "decided env (with_state switch_phase ?m) m'"
      using r Some by (simp add: round_evaluated_def Let_def)
    then have "protocol_view m' = end_vote c (protocol_view m)"
      using c l by (auto simp: decided_def Let_def protocol_view_def end_vote_def revise_def
          checks_of_def commits_of_def)
    then show ?thesis using ends [OF li c(1)] by simp
  next
    case False
    then have "quietly ?m m'"
      using r Some by (auto simp: round_evaluated_def Let_def intro: new_round_quietly)
    then show ?thesis using revises [OF li c(1)] view by (simp add: quietly_view)
  qed
qed

lemma response_handled_step:
  assumes h: "response_handled env p payload m r m'" and i: "node_inv m"
  shows "protocol_step (protocol_view m) (protocol_view m')"
proof (cases "expects (mc_state m) p")
  case False
  with h have "m' = m" by (simp add: response_handled_def)
  then show ?thesis by (simp add: stutter)
next
  case x: True
  let ?v = "sm_vote payload"
  let ?m1 = "with_state (no_longer_awaited p) m"
  let ?m2 = "with_state (count_vote ?v) ?m1"
  have q1: "quietly m ?m1" by (rule no_longer_awaited_quietly)
  have "quietly ?m1 ?m2" by (rule quietly_state) (simp_all add: view_state_def count_vote_def)
  with q1 have q2: "quietly m ?m2" by (rule quietly_trans)
  show ?thesis
  proof (cases "?v = 0 \<or> ?v = 1")
    case False
    with h x have "m' = ?m1" by (auto simp: response_handled_def Let_def)
    with q1 show ?thesis by (simp add: quietly_view stutter)
  next
    case v: True
    show ?thesis
    proof (cases "round_complete (mc_state ?m2)")
      case False
      with h x v have "m' = ?m2" by (auto simp: response_handled_def Let_def)
      with q2 show ?thesis by (simp add: quietly_view stutter)
    next
      case True
      with h x v have "round_evaluated env ?m2 m'" by (auto simp: response_handled_def Let_def)
      moreover have "evaluating True anything ?m2"
        using count_vote_inv(1) [of True anything m p ?v] i x v True by simp
      ultimately show ?thesis
        using round_evaluated_step [of env ?m2 m'] quietly_view [OF q2] by (simp add: evaluating_def)
    qed
  qed
qed

text \<open>The simulation.\<close>

lemma node_action_protocol:
  assumes i: "node_inv m" and a: "node_action env m m'"
  shows "protocol_step (protocol_view m) (protocol_view m')"
proof -
  have quiet: "protocol_step (protocol_view m) (protocol_view m')" if "quietly m m'"
    using that by (simp add: quietly_view stutter)
  from a show ?thesis
  proof (cases rule: node_action_cases)
    case act_queue
    then show ?thesis using i by (rule queue_handled_step)
  next
    case (act_block b)
    then show ?thesis
      by (intro quiet quietly_state) (auto simp: block_queued_def view_state_def)
  next
    case (act_members ps)
    then show ?thesis by (intro quiet quietly_state) (auto simp: view_state_def)
  next
    case (act_request p payload r)
    then show ?thesis
      by (auto simp: request_answered_def Let_def stutter intro: quiet sent_quietly
          split: if_splits option.splits)
  next
    case (act_response p payload r)
    then show ?thesis using i by (rule response_handled_step)
  next
    case (act_unavailable p r)
    then show ?thesis
      using quietly_trans [OF no_longer_awaited_quietly other_peer_quietly]
      by (auto simp: unavailable_handled_def stutter intro!: quiet split: if_splits)
  next
    case act_unresponsive
    then show ?thesis by (intro quiet unresponsive_quietly)
  next
    case act_publish
    then show ?thesis by (intro quiet published_quietly)
  next
    case (act_outside es)
    then have "quiet es" by (auto simp: quiet_def)
    with act_outside show ?thesis
      by (intro quiet) (auto simp: acted_def elim!: quietly_traceI)
  qed
qed

lemma node_steps_protocol:
  assumes "(node_step env)\<^sup>*\<^sup>* m m'" and "lawful env" and "node_inv m"
  shows "protocol_step\<^sup>*\<^sup>* (protocol_view m) (protocol_view m')"
  using assms(1)
proof (induction rule: rtranclp_induct)
  case base
  then show ?case by simp
next
  case (step t u)
  have "node_inv t" using nts.steps_inv [OF step.hyps(1)] assms(2,3) by blast
  then have "protocol_step (protocol_view t) (protocol_view u)"
    using node_action_protocol node_step_action [OF assms(2)] step.hyps(2) by blast
  with step.IH show ?case by simp
qed

end
