(* ===== verification/Node_Stalls.thy ===== *)
theory Node_Stalls
  imports Node_Protocol
begin

text \<open>
  A round waits for as many votes as the sample size, and asks a peer again only when one is
  unavailable or silent. When an awaited peer answers with something that is not a vote, it is
  no longer awaited and its answer is not counted: the round is then short of votes for ever,
  and so is the node, which decides no further block.
\<close>

definition short_of_votes :: "'w machine \<Rightarrow> bool" where
  "short_of_votes m \<longleftrightarrow> ss_phase (mc_state m) = Listening
     \<and> buffered (mc_state m) + length (waiting m) < unat (ss_k (mc_state m))"

lemma short_cong:
  assumes "short_of_votes m" and "queried m m'" and "length (waiting m') = length (waiting m)"
  shows "short_of_votes m'"
  using assms queriedD [OF assms(2)] by (simp add: short_of_votes_def buffered_queried)

text \<open>A vote that is not one makes the round short.\<close>

lemma invalid_vote_short:
  assumes i: "node_inv m" and x: "expects (mc_state m) p"
  shows "short_of_votes (with_state (no_longer_awaited p) m)"
proof -
  have l: "ss_phase (mc_state m) = Listening" and a: "awaits (waiting m) p"
    using x by (auto simp: expects_def)
  have "keys_distinct (waiting m)" and s: "buffered (mc_state m) + length (waiting m) \<le> unat (ss_k (mc_state m))"
    using i l by (auto simp: inv_defs round_ok_def)
  then have "Suc (length (AList.delete p (waiting m))) = length (waiting m)"
    using a by (intro wm.size_unawait)
  then have "buffered (mc_state m) + length (AList.delete p (waiting m)) < unat (ss_k (mc_state m))"
    using s by linarith
  then show ?thesis
    using l by (simp add: short_of_votes_def no_longer_awaited_def buffered_def)
qed

lemma valid_vote_short:
  assumes i: "node_inv m" and s: "short_of_votes m" and x: "expects (mc_state m) p" and v: "v = 0 \<or> v = 1"
    and m2: "m2 = with_state (count_vote v) (with_state (no_longer_awaited p) m)"
  shows "\<not> round_complete (mc_state m2) \<and> short_of_votes m2"
proof -
  let ?st = "mc_state m"
  obtain b0 b1 where b: "ss_response_buffer ?st = (b0, b1)" by fastforce
  have a: "awaits (waiting m) p" and l: "ss_phase ?st = Listening" using x by (auto simp: expects_def)
  have k: "keys_distinct (waiting m)" using i by (simp add: inv_defs)
  have w: "Suc (length (AList.delete p (waiting m))) = length (waiting m)"
    by (rule wm.size_unawait [OF k a])
  have lt: "unat b0 + unat b1 + length (waiting m) < unat (ss_k ?st)" and kb: "unat (ss_k ?st) < 2 ^ 64"
    using s b unsigned_less [of "ss_k ?st"] by (auto simp: short_of_votes_def buffered_def)
  have "unat (b0 + 1) = Suc (unat b0)" "unat (b1 + 1) = Suc (unat b1)"
    using lt kb by (simp_all add: unat_word_ariths)
  then have buf: "buffered (mc_state m2) = Suc (unat b0 + unat b1)"
    using v b by (auto simp: buffered_def m2 count_vote_def no_longer_awaited_def)
  have other: "waiting m2 = AList.delete p (waiting m)" "ss_k (mc_state m2) = ss_k ?st"
    "ss_phase (mc_state m2) = Listening"
    using l by (simp_all add: m2 count_vote_def no_longer_awaited_def)
  have "short_of_votes m2"
    using buf other w lt by (simp add: short_of_votes_def)
  moreover have "\<not> round_complete (mc_state m2)"
  proof
    assume "round_complete (mc_state m2)"
    then have "unat (fst (ss_response_buffer (mc_state m2)) + snd (ss_response_buffer (mc_state m2)))
        = unat (ss_k ?st)"
      using other(2) by (simp add: round_complete_def)
    moreover have "buffered (mc_state m2) < unat (ss_k ?st)"
      using buf w lt by linarith
    ultimately show False
      using kb by (simp add: buffered_def unat_word_ariths)
  qed
  ultimately show ?thesis by simp
qed

text \<open>Nothing the node does from then on ends the vote.\<close>

lemma response_short:
  assumes i: "node_inv m" and s: "short_of_votes m" and h: "response_handled env p payload m r m'"
  shows "short_of_votes m'"
proof (cases "expects (mc_state m) p")
  case False
  with h s show ?thesis by (simp add: response_handled_def)
next
  case x: True
  show ?thesis
  proof (cases "sm_vote payload = 0 \<or> sm_vote payload = 1")
    case False
    with h x have "m' = with_state (no_longer_awaited p) m" by (auto simp: response_handled_def Let_def)
    then show ?thesis using invalid_vote_short [OF i x] by simp
  next
    case True
    from valid_vote_short [OF i s x True refl] h x True show ?thesis
      by (auto simp: response_handled_def Let_def)
  qed
qed

lemma unavailable_short:
  assumes i: "node_inv m" and s: "short_of_votes m" and h: "unavailable_handled env p m r m'"
  shows "short_of_votes m'"
proof (cases "expects (mc_state m) p")
  case False
  with h s show ?thesis by (simp add: unavailable_handled_def)
next
  case True
  have k: "keys_distinct (waiting m)" using i by (simp add: inv_defs)
  have w: "Suc (length (AList.delete p (waiting m))) = length (waiting m)"
    using True by (intro wm.size_unawait [OF k]) (simp add: expects_def)
  from h True obtain q where "other_peer_asked env (with_state (no_longer_awaited p) m) q m'"
    by (auto simp: unavailable_handled_def)
  then show ?thesis
    using w queried_trans [OF no_longer_awaited_queried [of m p]]
    by (intro short_cong [OF s]) (auto simp: other_peer_asked_def)
qed

lemma unresponsive_short:
  assumes i: "node_inv m" and s: "short_of_votes m" and h: "unresponsive_handled env m m'"
  shows "short_of_votes m'"
proof (cases "byzantine bz_hang_idx (mc_state m)")
  case True
  with h s show ?thesis by (simp add: unresponsive_handled_def)
next
  case False
  with h obtain clock gone ps m1 where g: "distinct gone" "set gone = expired_peers clock m"
    "length ps = length gone" "same_but_world m m1" "peers_asked env ps (forget gone m1) m'"
    by (auto simp: unresponsive_handled_def)
  have eq: "mc_state m1 = mc_state m" using g(4) by (simp add: same_but_world_def)
  have k: "keys_distinct (waiting m1)" using i eq by (simp add: inv_defs)
  have gone: "\<forall>p\<in>set gone. awaits (waiting m1) p"
    using g(2) eq by (auto simp: expired_peers_def)
  note fw = forget_waiting [OF k g(1) gone]
  note pd = peers_askedD [OF g(5) fw(1)]
  show ?thesis
  proof (rule short_cong [OF s])
    show "queried m m'"
      using same_but_world_queried [OF g(4)] forget_queried [of m1 gone] pd(1)
      by (blast intro: queried_trans)
    show "length (waiting m') = length (waiting m)" using pd(3) fw(3) g(3) eq by simp
  qed
qed

lemma action_short:
  assumes i: "node_inv m" and s: "short_of_votes m" and a: "node_action env m m'"
  shows "short_of_votes m'"
  using a
proof (cases rule: node_action_cases)
  case act_queue
  have "round_ok (mc_state m) (mc_block_queue m)"
    using i s by (simp add: inv_defs short_of_votes_def)
  with act_queue have "m' = m" by (auto simp: queue_handled_def round_ok_def)
  with s show ?thesis by simp
next
  case (act_block b)
  with s show ?thesis by (auto simp: block_queued_def short_of_votes_def buffered_def)
next
  case (act_members ps)
  with s show ?thesis by (simp add: short_of_votes_def buffered_def)
next
  case (act_request p payload r)
  have "short_of_votes m'" if "sent env p t v n m m'" for t v n
    using sent_queried [OF that] by (intro short_cong [OF s]) auto
  with act_request s show ?thesis
    by (auto simp: request_answered_def Let_def split: if_splits option.splits)
next
  case (act_response p payload r)
  then show ?thesis by (rule response_short [OF i s])
next
  case (act_unavailable p r)
  then show ?thesis by (rule unavailable_short [OF i s])
next
  case act_unresponsive
  then show ?thesis by (rule unresponsive_short [OF i s])
next
  case act_publish
  with s show ?thesis by (auto simp: published_def finalized_def short_of_votes_def split: if_splits)
next
  case (act_outside es)
  with s show ?thesis by (simp add: acted_def short_of_votes_def)
qed

lemma steps_short:
  assumes "(node_step env)\<^sup>*\<^sup>* m m'" and "lawful env" and "node_inv m" and "short_of_votes m"
  shows "short_of_votes m'"
  using assms(1)
proof (induction rule: rtranclp_induct)
  case base
  then show ?case by (rule assms(4))
next
  case (step t u)
  have "node_inv t" using nts.steps_inv [OF step.hyps(1)] assms(2,3) by blast
  with step show ?case using action_short node_step_action [OF assms(2)] by blast
qed

text \<open>Nor does it commit anything: the view of the protocol does not leave the vote.\<close>

lemma action_no_commit:
  assumes i: "node_inv m" and s: "short_of_votes m" and a: "node_action env m m'"
  shows "commits_of (io_trace (mc_io m')) = commits_of (io_trace (mc_io m))"
proof -
  have l: "pr_listening (protocol_view m)" "pr_listening (protocol_view m')"
    using s action_short [OF i s a] by (simp_all add: protocol_view_def short_of_votes_def)
  have "pr_committed (protocol_view m') = pr_committed (protocol_view m)"
    using node_action_protocol [OF i a] l by (cases rule: protocol_stepE) (auto simp: vote_defs)
  then show ?thesis by (simp add: protocol_view_def)
qed

lemma steps_no_commit:
  assumes "(node_step env)\<^sup>*\<^sup>* m m'" and "lawful env" and "node_inv m" and "short_of_votes m"
  shows "commits_of (io_trace (mc_io m')) = commits_of (io_trace (mc_io m))"
  using assms(1)
proof (induction rule: rtranclp_induct)
  case base
  then show ?case by simp
next
  case (step t u)
  have "node_inv t" "short_of_votes t"
    using nts.steps_inv [OF step.hyps(1)] steps_short [OF step.hyps(1)] assms(2-4) by blast+
  then show ?case using step action_no_commit node_step_action [OF assms(2)] by metis
qed

end
