(* ===== verification/Snowball_Spec.thy ===== *)
theory Snowball_Spec
  imports Node_Handlers
begin

text \<open>
  The Snowball algorithm on natural numbers, as the specification of \<open>on_values_ready\<close>: a round
  of answers either gives a colour its majority or none, the counters follow, and the vote is
  decided when one colour has had the majority in enough rounds in a row. The refinement says
  that the code computes this as long as its counters do not wrap, and the properties of the
  algorithm are proved here once, on the numbers.
\<close>

section \<open>The algorithm\<close>

record snowball =
  sb_preferred :: decision_state
  sb_last :: decision_state
  sb_count :: nat
  sb_support :: "decision_state \<Rightarrow> nat"

definition majority_for :: "decision_state \<Rightarrow> snowball \<Rightarrow> snowball" where
  "majority_for c s =
     (let sup = (sb_support s)(c := Suc (sb_support s c)) in s\<lparr>
        sb_preferred := if sup (sb_preferred s) < sup c then c else sb_preferred s,
        sb_last := c,
        sb_count := if c = sb_last s then Suc (sb_count s) else 1,
        sb_support := sup\<rparr>)"

text \<open>The answers of a round: how many for \<open>KO\<close> and how many for \<open>OK\<close>.\<close>

definition round_winner :: "nat \<Rightarrow> nat \<times> nat \<Rightarrow> decision_state option" where
  "round_winner \<alpha> v = (if \<alpha> \<le> fst v then Some KO else if \<alpha> \<le> snd v then Some OK else None)"

text \<open>What the outcome of a round does to the counters.\<close>

definition after_outcome :: "decision_state option \<Rightarrow> snowball \<Rightarrow> snowball" where
  "after_outcome r s = (case r of None \<Rightarrow> s\<lparr>sb_count := 0\<rparr> | Some c \<Rightarrow> majority_for c s)"

lemma after_outcome_simps [simp]:
  "after_outcome None s = s\<lparr>sb_count := 0\<rparr>" "after_outcome (Some c) s = majority_for c s"
  by (simp_all add: after_outcome_def)

definition snowball_round ::
  "nat \<Rightarrow> nat \<Rightarrow> nat \<times> nat \<Rightarrow> snowball \<Rightarrow> snowball \<times> decision_state option" where
  "snowball_round \<alpha> \<beta> v s =
     (let r = round_winner \<alpha> v; s' = after_outcome r s in
      (s', if r \<noteq> None \<and> \<beta> \<le> sb_count s' then Some (sb_preferred s') else None))"

text \<open>The start of a vote: the block is preferred.\<close>

definition fresh_vote :: snowball where
  "fresh_vote = \<lparr>sb_preferred = OK, sb_last = OK, sb_count = 0, sb_support = (\<lambda>_. 0)\<rparr>"

section \<open>Refinement\<close>

definition abs_support :: "u64x2 \<Rightarrow> decision_state \<Rightarrow> nat" where
  "abs_support a c = (case c of OK \<Rightarrow> unat (snd a) | KO \<Rightarrow> unat (fst a) | Undecided \<Rightarrow> 0)"

definition abs_vote :: "snowball_state \<Rightarrow> snowball" where
  "abs_vote st = \<lparr>
     sb_preferred = the (ss_decision_map st (ss_seq_num st)),
     sb_last = ss_last_color st,
     sb_count = unat (ss_confidence_counter st),
     sb_support = abs_support (ss_decision_array st)\<rparr>"

text \<open>No counter is at its last value.\<close>

definition counters_fit :: "snowball_state \<Rightarrow> bool" where
  "counters_fit st \<longleftrightarrow> unat (ss_confidence_counter st) < 2 ^ 64 - 1
     \<and> unat (fst (ss_decision_array st)) < 2 ^ 64 - 1 \<and> unat (snd (ss_decision_array st)) < 2 ^ 64 - 1"

lemma unat_Suc_u64: "unat (x :: u64) < 2 ^ 64 - 1 \<Longrightarrow> unat (x + 1) = Suc (unat x)"
  by (simp add: unat_word_ariths)

lemma record_majority_refines:
  assumes f: "counters_fit st" and v: "voting st" and i: "i = 0 \<or> i = 1"
  shows "abs_vote (record_majority i st) = majority_for (colour i) (abs_vote st)"
proof -
  obtain a0 a1 where a: "ss_decision_array st = (a0, a1)" by fastforce
  have u: "unat (a0 + 1) = Suc (unat a0)" "unat (a1 + 1) = Suc (unat a1)"
    "unat (ss_confidence_counter st + 1) = Suc (unat (ss_confidence_counter st))"
    using f a by (auto simp: counters_fit_def intro!: unat_Suc_u64)
  have sup: "abs_support (if i = 0 then (a0 + 1, a1) else (a0, a1 + 1))
      = (abs_support (a0, a1))(colour i := Suc (abs_support (a0, a1) (colour i)))"
    using i u by (auto simp: abs_support_def colour_def fun_eq_iff split: decision_state.splits)
  from v consider (ok) "ss_decision_map st (ss_seq_num st) = Some OK"
    | (ko) "ss_decision_map st (ss_seq_num st) = Some KO"
    by (auto simp: voting_def)
  then show ?thesis
    using i a u sup
    by cases (auto simp: abs_vote_def record_majority_def majority_for_def Let_def support_def
        abs_support_def colour_def word_less_nat_alt)
qed

lemma winner_refines:
  "map_option colour (winner st) = round_winner (unat (ss_alfa st))
     (unat (fst (ss_response_buffer st)), unat (snd (ss_response_buffer st)))"
  by (auto simp: winner_def round_winner_def votes_def colour_def word_le_nat_alt)

text \<open>What a new round and a decision leave of the vote.\<close>

lemma abs_vote_cong:
  assumes "ss_decision_map st' = ss_decision_map st" "ss_seq_num st' = ss_seq_num st"
    "ss_last_color st' = ss_last_color st" "ss_confidence_counter st' = ss_confidence_counter st"
    "ss_decision_array st' = ss_decision_array st"
  shows "abs_vote st' = abs_vote st"
  using assms by (simp add: abs_vote_def)

lemma new_round_abs:
  assumes "new_round_from env m m'" and "waiting m = []"
  shows "abs_vote (mc_state m') = abs_vote (mc_state m)" "ss_phase (mc_state m') = ss_phase (mc_state m)"
  using queriedD [OF new_round_fromD(1) [OF assms]]
  by (auto intro!: abs_vote_cong simp: clear_buffer_def)

text \<open>The end of a vote: its decision is recorded and told, the counters stay.\<close>

lemma decided_refines:
  assumes "decided env (with_state switch_phase m) m'" and l: "ss_phase (mc_state m) = Listening"
  shows "abs_vote (mc_state m') = abs_vote (mc_state m) \<and> ss_phase (mc_state m') = Idle
    \<and> (\<exists>c body more. sb_preferred (abs_vote (mc_state m)) = c
      \<and> ss_decision_map (mc_state m') (ss_seq_num (mc_state m)) = Some c
      \<and> io_trace (mc_io m') = io_trace (mc_io m)
          @ [if c = OK then CommitBlock (ss_decision_block (mc_state m)) else FailBlock (ss_decision_block (mc_state m)),
             Posted ''http://log.collector:5000/collect'' body] @ more)"
proof -
  let ?st = "mc_state m"
  from assms(1) obtain c elapsed body chain where dec: "ss_decision_map ?st (ss_seq_num ?st) = Some c"
    and st: "mc_state m' = switch_phase ((switch_phase ?st)\<lparr>ss_chain_head := chain,
      ss_measurements := (ss_measurements ?st)\<lparr>ms_convergenza :=
        (ms_convergenza (ss_measurements ?st))(ss_decision_block ?st \<mapsto> elapsed)\<rparr>\<rparr>)"
    and tr: "io_trace (mc_io m') = io_trace (mc_io m)
     @ [if c = OK then CommitBlock (ss_decision_block ?st) else FailBlock (ss_decision_block ?st),
        Posted ''http://log.collector:5000/collect'' body]
     @ (if ss_order ?st = 0 then [InitializeBlock None] else [])"
    by (auto simp: decided_def Let_def)
  have "abs_vote (mc_state m') = abs_vote ?st" unfolding st by (rule abs_vote_cong) simp_all
  moreover have "sb_preferred (abs_vote ?st) = c" using dec by (simp add: abs_vote_def)
  moreover have "ss_phase (mc_state m') = Idle" using l by (simp add: st)
  moreover have "ss_decision_map (mc_state m') (ss_seq_num ?st) = Some c" using dec by (simp add: st)
  ultimately show ?thesis using tr by blast
qed

lemma round_evaluated_refines:
  assumes r: "round_evaluated env m m'" and w: "waiting m = []" and l: "ss_phase (mc_state m) = Listening"
    and v: "voting (mc_state m)" and f: "counters_fit (mc_state m)"
    and sr: "snowball_round (unat (ss_alfa (mc_state m))) (unat (ss_beta (mc_state m)))
      (unat (fst (ss_response_buffer (mc_state m))), unat (snd (ss_response_buffer (mc_state m))))
      (abs_vote (mc_state m)) = (s', d)"
  shows "abs_vote (mc_state m') = s'"
    and "d = None \<Longrightarrow> ss_phase (mc_state m') = Listening"
    and "d = Some c \<Longrightarrow> ss_phase (mc_state m') = Idle
      \<and> ss_decision_map (mc_state m') (ss_seq_num (mc_state m)) = Some c
      \<and> (\<exists>body more. io_trace (mc_io m') = io_trace (mc_io m)
          @ [if c = OK then CommitBlock (ss_decision_block (mc_state m))
             else FailBlock (ss_decision_block (mc_state m)),
             Posted ''http://log.collector:5000/collect'' body] @ more)"
proof -
  let ?st = "mc_state m"
  have goal: "abs_vote (mc_state m') = s' \<and> (case d of None \<Rightarrow> ss_phase (mc_state m') = Listening
    | Some c \<Rightarrow> ss_phase (mc_state m') = Idle \<and> ss_decision_map (mc_state m') (ss_seq_num ?st) = Some c
      \<and> (\<exists>body more. io_trace (mc_io m') = io_trace (mc_io m)
          @ [if c = OK then CommitBlock (ss_decision_block ?st) else FailBlock (ss_decision_block ?st),
             Posted ''http://log.collector:5000/collect'' body] @ more))"
  proof (cases "winner ?st")
    case None
    let ?m = "with_state (ss_confidence_counter_update (\<lambda>_. 0)) m"
    have "s' = (abs_vote ?st)\<lparr>sb_count := 0\<rparr> \<and> d = None"
      using sr None winner_refines [of ?st] by (auto simp: snowball_round_def)
    moreover have "abs_vote (mc_state ?m) = (abs_vote ?st)\<lparr>sb_count := 0\<rparr>"
      by (simp add: abs_vote_def)
    moreover have "new_round_from env ?m m'" using r None by (simp add: round_evaluated_def)
    ultimately show ?thesis
      using new_round_abs [of env ?m m'] w l by simp
  next
    case (Some i)
    let ?m = "with_state (record_majority i) m"
    have i: "i = 0 \<or> i = 1" using Some by (auto simp: winner_def split: if_splits)
    have rw: "round_winner (unat (ss_alfa ?st)) (unat (fst (ss_response_buffer ?st)), unat (snd (ss_response_buffer ?st)))
        = Some (colour i)"
      using winner_refines [of ?st] Some by simp
    have abs: "abs_vote (mc_state ?m) = majority_for (colour i) (abs_vote ?st)"
      using record_majority_refines [OF f v i] by simp
    have s': "s' = abs_vote (mc_state ?m)" and d: "d = (if unat (ss_beta ?st) \<le> sb_count s' then Some (sb_preferred s') else None)"
      using sr rw abs by (auto simp: snowball_round_def Let_def)
    have le: "unat (ss_beta ?st) \<le> sb_count s' \<longleftrightarrow> ss_beta (mc_state ?m) \<le> ss_confidence_counter (mc_state ?m)"
      by (simp add: s' abs_vote_def word_le_nat_alt)
    show ?thesis
    proof (cases "ss_beta (mc_state ?m) \<le> ss_confidence_counter (mc_state ?m)")
      case True
      then have "decided env (with_state switch_phase ?m) m'"
        using r Some by (simp add: round_evaluated_def Let_def)
      from decided_refines [OF this] l d le True s' show ?thesis by auto
    next
      case False
      then have n: "new_round_from env ?m m'"
        using r Some by (simp add: round_evaluated_def Let_def)
      then show ?thesis
        using new_round_abs [OF n] s' d le False w l by simp
    qed
  qed
  then show "abs_vote (mc_state m') = s'" "d = None \<Longrightarrow> ss_phase (mc_state m') = Listening"
    "d = Some c \<Longrightarrow> ss_phase (mc_state m') = Idle
      \<and> ss_decision_map (mc_state m') (ss_seq_num ?st) = Some c
      \<and> (\<exists>body more. io_trace (mc_io m') = io_trace (mc_io m)
          @ [if c = OK then CommitBlock (ss_decision_block ?st) else FailBlock (ss_decision_block ?st),
             Posted ''http://log.collector:5000/collect'' body] @ more)"
    by auto
qed

section \<open>Properties of the algorithm\<close>

text \<open>
  Of a sequence of outcomes: the rounds a colour won, and the rounds in a row, up to the last
  one, that it won.
\<close>

definition wins :: "'c \<Rightarrow> 'c option list \<Rightarrow> nat" where
  "wins c rs = length (filter (\<lambda>r. r = Some c) rs)"

definition streak :: "'c \<Rightarrow> 'c option list \<Rightarrow> nat" where
  "streak c rs = length (takeWhile (\<lambda>r. r = Some c) (rev rs))"

lemma wins_simps [simp]:
  "wins c [] = 0" "wins c (rs @ [r]) = wins c rs + (if r = Some c then 1 else 0)"
  by (simp_all add: wins_def)

lemma streak_simps [simp]:
  "streak c [] = 0" "streak c (rs @ [r]) = (if r = Some c then Suc (streak c rs) else 0)"
  by (simp_all add: streak_def)

lemma wins_le: "wins c rs \<le> length rs"
  by (simp add: wins_def)

lemma streak_le: "streak c rs \<le> length rs"
  using length_takeWhile_le [of "\<lambda>r. r = Some c" "rev rs"] by (simp add: streak_def)

text \<open>
  What the counters of a vote mean: the support of a colour is the number of rounds it won, the
  preferred colour has the most, and the confidence counter is the streak of the last colour,
  the only one that can have a streak.
\<close>

definition counters_mean :: "decision_state option list \<Rightarrow> snowball \<Rightarrow> bool" where
  "counters_mean rs s \<longleftrightarrow> (\<forall>c. sb_support s c = wins c rs)
     \<and> sb_preferred s \<in> {OK, KO} \<and> (\<forall>c\<in>{OK, KO}. wins c rs \<le> wins (sb_preferred s) rs)
     \<and> sb_last s \<in> {OK, KO} \<and> sb_count s = streak (sb_last s) rs
     \<and> (\<forall>c. 0 < streak c rs \<longrightarrow> c = sb_last s)"

lemma majority_counters:
  assumes m: "counters_mean rs s" and c: "c \<in> {OK, KO}"
  shows "counters_mean (rs @ [Some c]) (majority_for c s)"
proof -
  have sup: "sb_support s d = wins d rs" for d using m by (simp add: counters_mean_def)
  have pref: "sb_preferred s \<in> {OK, KO}" "wins OK rs \<le> wins (sb_preferred s) rs"
    "wins KO rs \<le> wins (sb_preferred s) rs"
    using m by (auto simp: counters_mean_def)
  have cnt: "sb_count s = streak (sb_last s) rs" "\<And>d. 0 < streak d rs \<Longrightarrow> d = sb_last s"
    using m by (auto simp: counters_mean_def)
  have "sb_support (majority_for c s) d = wins d (rs @ [Some c])" for d
    by (simp add: majority_for_def Let_def sup)
  moreover have "sb_preferred (majority_for c s) \<in> {OK, KO}"
    using pref(1) c by (simp add: majority_for_def Let_def)
  moreover have "wins d (rs @ [Some c]) \<le> wins (sb_preferred (majority_for c s)) (rs @ [Some c])"
    if "d \<in> {OK, KO}" for d
    using pref c that by (auto simp: majority_for_def Let_def sup)
  moreover have "sb_count (majority_for c s) = streak c (rs @ [Some c])"
    using cnt by (cases "c = sb_last s") (auto simp: majority_for_def Let_def)
  moreover have "sb_last (majority_for c s) = c" by (simp add: majority_for_def Let_def)
  ultimately show ?thesis
    using c by (simp add: counters_mean_def split: if_splits)
qed

lemma outcome_counters:
  assumes "counters_mean rs s" and "r \<in> {None, Some OK, Some KO}"
  shows "counters_mean (rs @ [r]) (after_outcome r s)"
proof (cases r)
  case None
  with assms(1) show ?thesis by (simp add: counters_mean_def)
next
  case (Some c)
  with assms show ?thesis by (auto intro: majority_counters)
qed

lemma outcomes_counters:
  "set rs \<subseteq> {None, Some OK, Some KO} \<Longrightarrow> counters_mean rs (fold after_outcome rs fresh_vote)"
proof (induction rs rule: rev_induct)
  case Nil
  then show ?case by (simp add: counters_mean_def fresh_vote_def)
next
  case (snoc r rs)
  then show ?case by (auto intro!: outcome_counters)
qed

text \<open>The vote after \<open>n\<close> rounds that all gave colour \<open>c\<close> its majority.\<close>

definition unanimous :: "decision_state \<Rightarrow> nat \<Rightarrow> snowball" where
  "unanimous c n = (if n = 0 then fresh_vote
     else \<lparr>sb_preferred = c, sb_last = c, sb_count = n, sb_support = (\<lambda>_. 0)(c := n)\<rparr>)"

lemma unanimous_outcomes:
  assumes c: "c \<in> {OK, KO}"
  shows "fold after_outcome (replicate n (Some c)) fresh_vote = unanimous c n"
proof (induction n)
  case 0
  then show ?case by (simp add: unanimous_def)
next
  case (Suc n)
  have "majority_for c (unanimous c n) = unanimous c (Suc n)"
    using c by (auto simp: unanimous_def majority_for_def fresh_vote_def Let_def)
  moreover have "replicate (Suc n) (Some c) = replicate n (Some c) @ [Some c]"
    by (simp add: replicate_append_same)
  ultimately show ?case using Suc.IH by (simp del: replicate.simps)
qed

section \<open>The counters of a vote on the code\<close>

text \<open>
  A vote of the code as the sequence of its rounds: \<open>Some i\<close> is a round in which the colour of
  index \<open>i\<close> had its majority, \<open>None\<close> one without a majority.
\<close>

definition after_round :: "nat option \<Rightarrow> snowball_state \<Rightarrow> snowball_state" where
  "after_round r st = (case r of
       None \<Rightarrow> st\<lparr>ss_confidence_counter := 0\<rparr>
     | Some i \<Rightarrow> record_majority i st)"

text \<open>These are the rounds of the code: the body of its loop, and its loop when no colour has a majority.\<close>

lemma count_color_round:
  assumes "voting (mc_state m)" and "i \<in> {0, 1}" and "ss_alfa (mc_state m) \<le> votes (mc_state m) i"
  shows "count_color env i majority m = (let m1 = with_state (after_round (Some i)) m in
    thenM (if ss_beta (mc_state m1) \<le> ss_confidence_counter (mc_state m1)
      then thenM (upd_state switch_phase) (handle_decision env) else new_round env) (returnM True) m1)"
  using count_color_majority [OF assms, of env majority]
  by (simp add: after_round_def with_state_def)

lemma no_majority_round:
  assumes "winner (mc_state m) = None"
  shows "on_values_ready env m = new_round env (with_state (after_round None) m)"
proof -
  obtain b0 b1 where b: "ss_response_buffer (mc_state m) = (b0, b1)" by fastforce
  with assms have "\<not> ss_alfa (mc_state m) \<le> b0" "\<not> ss_alfa (mc_state m) \<le> b1"
    by (auto simp: winner_def votes_def split: if_splits)
  then show ?thesis
    using b by (simp add: on_values_ready_def count_color_def usize_to_decision_state_def bindM_def thenM_def returnM_def
        getM_def unwrapM_def upd_state_def modifyM_def with_state_def after_round_def)
qed

definition after_rounds :: "block_id \<Rightarrow> nat option list \<Rightarrow> snowball_state \<Rightarrow> snowball_state" where
  "after_rounds b rs st = fold after_round rs (start_vote b st)"

definition outcomes :: "nat option list \<Rightarrow> decision_state option list" where
  "outcomes rs = map (map_option colour) rs"

lemma abs_start_vote: "abs_vote (start_vote b st) = fresh_vote"
  by (auto simp: abs_vote_def fresh_vote_def abs_support_def fun_eq_iff split: decision_state.splits)

lemma counters_fit_from:
  assumes "counters_mean rs (abs_vote st)" and "length rs < 2 ^ 64 - 1"
  shows "counters_fit st"
proof -
  have s: "abs_support (ss_decision_array st) c = wins c rs" for c
    using assms(1) by (simp add: counters_mean_def abs_vote_def)
  have "unat (snd (ss_decision_array st)) = wins OK rs" "unat (fst (ss_decision_array st)) = wins KO rs"
    "unat (ss_confidence_counter st) = streak (ss_last_color st) rs"
    using s [of OK] s [of KO] assms(1) by (simp_all add: abs_support_def counters_mean_def abs_vote_def)
  then show ?thesis
    using assms(2) wins_le [of OK rs] wins_le [of KO rs] streak_le [of "ss_last_color st" rs]
    by (simp add: counters_fit_def)
qed

lemma after_rounds_refine:
  assumes "set rs \<subseteq> {None, Some 0, Some 1}" and "length rs < 2 ^ 64"
  shows "abs_vote (after_rounds b rs st) = fold after_outcome (outcomes rs) fresh_vote
    \<and> voting (after_rounds b rs st)"
  using assms
proof (induction rs rule: rev_induct)
  case Nil
  then show ?case
    using abs_start_vote by (simp add: after_rounds_def outcomes_def voting_def)
next
  case (snoc r rs)
  let ?st = "after_rounds b rs st"
  have IH: "abs_vote ?st = fold after_outcome (outcomes rs) fresh_vote" "voting ?st"
    using snoc by auto
  have "set (outcomes rs) \<subseteq> {None, Some OK, Some KO}"
    using snoc.prems(1) by (auto simp: outcomes_def colour_def)
  then have "counters_mean (outcomes rs) (abs_vote ?st)"
    unfolding IH(1) by (rule outcomes_counters)
  moreover have "length (outcomes rs) < 2 ^ 64 - 1" using snoc.prems(2) by (simp add: outcomes_def)
  ultimately have fit: "counters_fit ?st" by (rule counters_fit_from)
  have step: "after_rounds b (rs @ [r]) st = after_round r ?st" by (simp add: after_rounds_def)
  show ?case
  proof (cases r)
    case None
    have "abs_vote (?st\<lparr>ss_confidence_counter := 0\<rparr>) = (abs_vote ?st)\<lparr>sb_count := 0\<rparr>"
      by (simp add: abs_vote_def)
    then show ?thesis
      unfolding step using IH None
      by (simp add: after_round_def outcomes_def voting_def)
  next
    case (Some i)
    then have i: "i = 0 \<or> i = 1" using snoc.prems(1) by auto
    then show ?thesis
      unfolding step using IH Some record_majority_refines [OF fit IH(2) i] record_majority_voting [OF IH(2)]
      by (simp add: after_round_def outcomes_def)
  qed
qed

lemma wins_outcomes:
  assumes "set rs \<subseteq> {None, Some 0, Some 1}" and "i = 0 \<or> i = 1"
  shows "wins (colour i) (outcomes rs) = wins i rs" and "streak (colour i) (outcomes rs) = streak i rs"
proof -
  have "wins (colour i) (outcomes rs) = wins i rs \<and> streak (colour i) (outcomes rs) = streak i rs"
    using assms
  proof (induction rs rule: rev_induct)
    case Nil
    then show ?case by (simp add: outcomes_def)
  next
    case (snoc r rs)
    then have "map_option colour r = Some (colour i) \<longleftrightarrow> r = Some i"
      by (auto simp: colour_def)
    with snoc show ?case by (simp add: outcomes_def)
  qed
  then show "wins (colour i) (outcomes rs) = wins i rs" "streak (colour i) (outcomes rs) = streak i rs"
    by auto
qed

end
