(* ===== verification/Sample_World.thy ===== *)
theory Sample_World
  imports Engine_Invariant
begin

text \<open>
  A concrete outside world, on which the hypotheses of the properties hold: a generator that
  counts up, a clock that only sleeping moves, a validator and a network that accept every call,
  files in a map, and codecs that write numbers in unary. With it, three sample nodes: idle
  with a block in the queue, in the middle of a vote, and one answer short of a complete round.
\<close>

section \<open>The world\<close>

record world =
  wd_draws :: nat
  wd_clock :: nat
  wd_files :: "string \<rightharpoonup> string"

definition unary :: "nat list \<Rightarrow> string" where
  "unary ns = concat (map (\<lambda>n. replicate n (CHR ''a'') @ ''b'') ns)"

fun of_unary :: "nat \<Rightarrow> string \<Rightarrow> nat list" where
  "of_unary k [] = []"
| "of_unary k (c # cs) = (if c = CHR ''b'' then k # of_unary 0 cs else of_unary (Suc k) cs)"

definition message_text :: "snowball_message \<Rightarrow> string" where
  "message_text m = unary (unat (sm_seq_num m) # unat (sm_vote m) # length (sm_message_type m)
     # map of_char (sm_message_type m) @ map unat (sm_nonce m))"

definition message_of_text :: "string \<Rightarrow> snowball_message option" where
  "message_of_text s = (case of_unary 0 s of
       n # v # l # r \<Rightarrow> Some \<lparr>sm_message_type = map char_of (take l r), sm_seq_num = of_nat n,
         sm_vote = of_nat v, sm_nonce = map of_nat (drop l r)\<rparr>
     | _ \<Rightarrow> None)"

definition genesis :: block where
  "genesis = \<lparr>block_id = [0], previous_id = [], block_num = 5\<rparr>"

definition sample_settings :: settings where
  "sample_settings = [''sawtooth.consensus.algorithm.members'' \<mapsto> ''ABC'',
     ''sawtooth.consensus.algorithm.alfa'' \<mapsto> ''2'',
     ''sawtooth.consensus.algorithm.beta'' \<mapsto> ''3'',
     ''sawtooth.consensus.algorithm.k'' \<mapsto> ''2'',
     ''sawtooth.consensus.algorithm.hang_timeout'' \<mapsto> ''soon'']"

definition sample_env :: "world node_env" where
  "sample_env = \<lparr>
     ev_initialize_block = (\<lambda>_ w. (Inr (), w)),
     ev_summarize_block = (\<lambda>w. (Inr [1], w)),
     ev_finalize_block = (\<lambda>_ w. (Inr [9], w)),
     ev_cancel_block = (\<lambda>w. (Inr (), w)),
     ev_check_blocks = (\<lambda>_ w. (Inr (), w)),
     ev_commit_block = (\<lambda>_ w. (Inr (), w)),
     ev_fail_block = (\<lambda>_ w. (Inr (), w)),
     ev_get_chain_head = (\<lambda>w. (Inr genesis, w)),
     ev_get_settings = (\<lambda>_ _ w. (Inr sample_settings, w)),
     ev_send_to = (\<lambda>_ _ _ w. (Inr (), w)),
     ev_now = (\<lambda>w. (wd_clock w, w)),
     ev_unix_nanos = (\<lambda>w. (Some (of_nat (wd_clock w)), w)),
     ev_sleep = (\<lambda>d w. w\<lparr>wd_clock := wd_clock w + d\<rparr>),
     ev_uniform = (\<lambda>n w. if n = 0 then None else Some (wd_draws w mod n, w\<lparr>wd_draws := Suc (wd_draws w)\<rparr>)),
     ev_nonce = (\<lambda>w. ([7], w)),
     ev_http_client = (\<lambda>w. (True, w)),
     ev_post = (\<lambda>_ _ w. w),
     ev_open_file = (\<lambda>path w. (case wd_files w path of None \<Rightarrow> OpenFailed | Some c \<Rightarrow> Contents c, w)),
     ev_write_file = (\<lambda>path c w. (Inr (), w\<lparr>wd_files := (wd_files w)(path \<mapsto> c)\<rparr>)),
     ev_iter_indices = (\<lambda>_ xs. xs),
     ev_iter_peers = (\<lambda>_ xs. xs),
     ev_hex_encode = map (\<lambda>b. char_of (unat b)),
     ev_hex_decode = (\<lambda>s. Inr (as_bytes s)),
     ev_json_strings = (\<lambda>s. Some (map (\<lambda>c. [c]) s)),
     ev_json_u64s = (\<lambda>_. None),
     ev_log_info = True,
     nv_message_to_json = (\<lambda>m. Some (message_text m)),
     nv_message_of_json = message_of_text,
     nv_log_to_json = (\<lambda>_. Some ''log''),
     nv_state_to_json = (\<lambda>_. Some ''state''),
     nv_state_of_json = (\<lambda>_. None)\<rparr>"

section \<open>It behaves as documented\<close>

lemma of_unary_replicate: "of_unary k (replicate n (CHR ''a'') @ cs) = of_unary (k + n) cs"
  by (induction n arbitrary: k) auto

lemma of_unary_unary: "of_unary 0 (unary ns) = ns"
  by (induction ns) (simp_all add: unary_def of_unary_replicate)

lemma message_of_text_message: "message_of_text (message_text m) = Some m"
  by (cases m) (simp add: message_text_def message_of_text_def of_unary_unary comp_def)

lemma valid_utf8_ascii: "\<forall>b\<in>set bs. b \<le> 0x7F \<Longrightarrow> valid_utf8 bs"
  by (induction bs) auto

lemma unary_ascii: "valid_utf8 (as_bytes (unary ns))"
  by (rule valid_utf8_ascii) (auto simp: as_bytes_def unary_def set_replicate_conv_if split: if_splits)

lemma sample_uniform: "lawful_uniform sample_env"
  by (simp add: lawful_uniform_def sample_env_def)

lemma sample_iteration: "lawful_iteration sample_env"
  by (simp add: lawful_iteration_def sample_env_def)

lemma sample_draw:
  "0 < n \<Longrightarrow> draw sample_env n j w = Some ((wd_draws w + j) mod n)"
  by (induction j arbitrary: w) (simp_all add: sample_env_def)

lemma sample_fair: "fair_uniform sample_env"
  unfolding fair_uniform_def
proof (intro allI impI)
  fix n i :: nat and w :: world
  assume i: "i < n"
  have "wd_draws w mod n + (n - wd_draws w mod n + i) = n + i"
    using i mod_less_divisor [of n "wd_draws w"] by linarith
  then have "(wd_draws w mod n + (n - wd_draws w mod n + i)) mod n = i"
    using i by simp
  then have "(wd_draws w + (n - wd_draws w mod n + i)) mod n = i"
    by (simp add: mod_add_left_eq)
  then show "\<exists>j. draw sample_env n j w = Some i"
    using i sample_draw [of n "n - wd_draws w mod n + i" w] by (intro exI) auto
qed

lemma sample_clock: "clock_independent sample_env"
  by (simp add: clock_independent_def sample_env_def)

lemma sample_reliable: "reliable_service sample_env"
  by (simp add: reliable_service_def sample_env_def)

lemma sample_message_json: "lawful_message_json sample_env"
  unfolding lawful_message_json_def
  by (simp add: sample_env_def message_of_text_message) (simp add: message_text_def unary_ascii)

lemma sample_log_json: "lawful_log_json sample_env"
  by (simp add: lawful_log_json_def sample_env_def)

lemma sample_env_ok: "env_ok D E sample_env"
  by (simp add: env_ok_def sample_uniform sample_iteration sample_fair sample_clock sample_reliable
      sample_message_json sample_log_json)

lemma sample_publishing_ok: "publishing_ok D E sample_env"
proof -
  have "becomes_ready sample_env (ev_summarize_block sample_env)"
    unfolding becomes_ready_def by (intro allI exI [where x = 0]) (simp add: sample_env_def)
  moreover have "becomes_ready sample_env (ev_finalize_block sample_env c)" for c
    unfolding becomes_ready_def by (intro allI exI [where x = 0]) (simp add: sample_env_def)
  ultimately show ?thesis by (simp add: publishing_ok_def)
qed

section \<open>Sample nodes\<close>

definition sample_config :: config where
  "sample_config = default_config\<lparr>cfg_members := [[1], [2], [3]], cfg_alfa := 2, cfg_beta := 3, cfg_k := 2\<rparr>"

text \<open>A fresh node, the first of three members, asking both others.\<close>

definition fresh_state :: snowball_state where
  "fresh_state = \<lparr>
     ss_id = [1], ss_order = 0, ss_seq_num = 6, ss_alfa = 2, ss_beta = 3, ss_k = 2,
     ss_decision_map = [0 \<mapsto> Undecided], ss_last_color = Undecided, ss_confidence_counter = 0,
     ss_response_buffer = (0, 0), ss_decision_array = (0, 0), ss_waiting_response_map = [],
     ss_chain_head = [], ss_decision_block = [], ss_phase = Idle,
     ss_member_ids = [[1], [2], [3]],
     ss_exponential_retry_base = from_millis 100, ss_exponential_retry_max = from_millis 60000,
     ss_hang_timeout = from_millis 3000,
     ss_byzantine_test = byzantine_parameters_new sample_config,
     ss_measurements = measurements_new\<rparr>"

definition sample_io :: "world io" where
  "sample_io = \<lparr>io_world = \<lparr>wd_draws = 0, wd_clock = 0, wd_files = Map.empty\<rparr>, io_trace = []\<rparr>"

definition fresh_machine :: "world machine" where
  "fresh_machine = \<lparr>mc_state = fresh_state, mc_log_guard = default_log_guard, mc_block_queue = [], mc_io = sample_io\<rparr>"

definition new_block :: block where
  "new_block = \<lparr>block_id = [6], previous_id = [0], block_num = 6\<rparr>"

definition old_block :: block where
  "old_block = \<lparr>block_id = [4], previous_id = [], block_num = 4\<rparr>"

definition received :: "block \<Rightarrow> snowball_state \<Rightarrow> snowball_state" where
  "received b st = st\<lparr>ss_measurements := \<lparr>ms_convergenza = [block_id b \<mapsto> 0], ms_n_messaggi_inviati = 0\<rparr>\<rparr>"

text \<open>The block \<open>b\<close> is queued.\<close>

definition idle_machine :: "block \<Rightarrow> world machine" where
  "idle_machine b = fresh_machine\<lparr>mc_state := received b fresh_state, mc_block_queue := [b]\<rparr>"

text \<open>A vote on the new block: the peers \<open>ps\<close> are awaited, the answers counted are \<open>buf\<close>.\<close>

definition asked_at :: "instant \<Rightarrow> timeout" where
  "asked_at t = \<lparr>tm_state = Active, tm_duration = from_millis 3000, tm_start = t\<rparr>"

definition voting_machine :: "peer_id list \<Rightarrow> u64x2 \<Rightarrow> world machine" where
  "voting_machine ps buf = (idle_machine new_block)\<lparr>mc_state := (start_vote [6] (received new_block fresh_state))
     \<lparr>ss_phase := Listening, ss_waiting_response_map := map (\<lambda>p. (p, asked_at 0)) ps,
       ss_response_buffer := buf\<rparr>\<rparr>"

lemmas sample_defs =
  sample_config_def fresh_state_def sample_io_def fresh_machine_def new_block_def old_block_def
  received_def idle_machine_def asked_at_def voting_machine_def start_vote_def
  byzantine_parameters_new_def default_config_def measurements_new_def genesis_def

lemma sample_others [simp]:
  "mc_state m = fresh_state \<Longrightarrow> card (others m) = 2"
proof -
  assume "mc_state m = fresh_state"
  then have "Suc (card (others m)) = length (ss_member_ids fresh_state)"
    using card_others [of m] by (simp add: order_valid_def fresh_state_def)
  then show ?thesis by (simp add: fresh_state_def)
qed

lemma sample_provided:
  assumes "ss_k (mc_state m) = 2" and "members m = [[1], [2], [3]]" and "ss_order (mc_state m) = 0"
    and "ss_byzantine_test (mc_state m) = byzantine_parameters_new sample_config"
  shows "provided D E m"
proof -
  have "Suc (card (others m)) = length (members m)"
    using card_others [of m] assms by (simp add: order_valid_def)
  with assms show ?thesis
    by (simp add: provided_def delay_ok_def byzantine_parameters_new_def sample_config_def default_config_def)
qed

lemma fresh_stays: "stays D E fresh_machine"
  by (simp add: stays_def sample_provided fresh_machine_def fresh_state_def node_inv_def parameters_ok_def
      place_ok_def keys_distinct_def phase_ok_def)

lemma idle_stays: "stays D E (idle_machine b)"
  by (simp add: stays_def sample_provided idle_machine_def fresh_machine_def received_def fresh_state_def
      node_inv_def parameters_ok_def place_ok_def keys_distinct_def phase_ok_def)

lemma voting_stays:
  assumes "distinct ps" and "unat (fst v) + unat (snd v) + length ps \<le> 2" and "unat (fst v) + unat (snd v) < 2"
  shows "stays D E (voting_machine ps v)"
  using assms
  by (simp add: stays_def sample_provided voting_machine_def idle_machine_def fresh_machine_def received_def
      fresh_state_def node_inv_def parameters_ok_def place_ok_def keys_distinct_def phase_ok_def round_ok_def
      new_block_def voting_def buffered_def comp_def)

end
