(* ===== verification/Node_Properties.thy ===== *)
theory Node_Properties
  imports Node_Stalls Snowball_Spec Sample_World
begin

text \<open>
  The properties of the node's own operations, each over the definitions of \<open>Node\<close>: what a
  complete round of answers does, the peers that are asked, the decision on a block, the queue,
  the peer messages, the membership and publishing. Each theorem with hypotheses is applied to
  the sample nodes of \<open>Sample_World\<close>.
\<close>

abbreviation never :: "panic \<Rightarrow> 'w machine \<Rightarrow> bool" where
  "never \<equiv> \<lambda>_ _. False"

text \<open>The samples, in the form the hypotheses have.\<close>

lemma sample_lawful: "lawful sample_env"
  by (simp add: lawful_def sample_uniform sample_iteration)

lemma voting_inv:
  "distinct ps \<Longrightarrow> unat (fst v) + unat (snd v) + length ps \<le> 2 \<Longrightarrow> unat (fst v) + unat (snd v) < 2
    \<Longrightarrow> node_inv (voting_machine ps v)"
  using voting_stays [of ps v True anything] by simp

lemma sample_counters_fit: "counters_fit (mc_state (voting_machine ps v))"
  by (simp add: counters_fit_def voting_machine_def idle_machine_def fresh_machine_def)

lemma fresh_simps [simp]:
  "members fresh_machine = [[1], [2], [3]]" "ss_order (mc_state fresh_machine) = 0"
  "ss_k (mc_state fresh_machine) = 2" "ss_phase (mc_state fresh_machine) = Idle"
  by (simp_all add: fresh_machine_def fresh_state_def)

lemma voting_others [simp]: "others (voting_machine ps v) = {1, 2}"
  by (auto simp: others_def voting_machine_def idle_machine_def fresh_machine_def received_def fresh_state_def
      numeral_eq_Suc less_Suc_eq)

section \<open>Rounds of answers\<close>

text \<open>A complete round has one winner at most, because \<open>k < 2 * alfa\<close>.\<close>

lemma complete_single_majority:
  assumes "parameters_ok st" and "buffered st = unat (ss_k st)"
  shows "single_majority st"
  using assms
  by (auto simp: single_majority_def votes_def buffered_def parameters_ok_def word_le_nat_alt word_less_nat_alt)

lemma evaluating_known:
  assumes "evaluating D E m" shows "block_known E (mc_state m)"
  using assms by (auto simp: evaluating_def block_known_def)

lemma evaluating_round_ready:
  assumes "evaluating D E m" shows "round_ready D E m"
  using assms place_order_valid
  by (auto simp: evaluating_def round_ready_def provided_def place_ok_def)

lemma evaluated_round_asks:
  assumes "round_evaluated env m m'" and "waiting m = []" and "ss_phase (mc_state m) = Listening"
    and "ss_phase (mc_state m') = Listening"
  shows "ss_response_buffer (mc_state m') = (0, 0) \<and> length (waiting m') = unat (ss_k (mc_state m))"
proof (cases "winner (mc_state m)")
  case None
  with assms(1) have "new_round_from env (with_state (ss_confidence_counter_update (\<lambda>_. 0)) m) m'"
    by (simp add: round_evaluated_def)
  from new_round_fromD(3,4) [OF this] assms(2) show ?thesis by simp
next
  case (Some i)
  let ?m1 = "with_state (record_majority i) m"
  show ?thesis
  proof (cases "ss_beta (mc_state ?m1) \<le> ss_confidence_counter (mc_state ?m1)")
    case True
    with Some assms(1) have "decided env (with_state switch_phase ?m1) m'"
      by (simp add: round_evaluated_def Let_def)
    then have "ss_phase (mc_state m') = Idle"
      using assms(3) by (auto simp: decided_def Let_def)
    with assms(4) show ?thesis by simp
  next
    case False
    with Some assms(1) have "new_round_from env ?m1 m'"
      by (simp add: round_evaluated_def Let_def)
    from new_round_fromD(3,4) [OF this] assms(2) show ?thesis by simp
  qed
qed

text \<open>
  C6: \<open>on_values_ready\<close> computes one round of the Snowball algorithm. In a node whose round is
  complete, with a valid configuration, a reliable validator and counters that are not about to
  wrap, it returns; the preferred colour, the last colour, the confidence counter and the
  support of the colours are then those of \<open>snowball_round\<close> on natural numbers. If the round
  decides, the node is idle, the decision is recorded under the current sequence number and the
  block is committed or failed accordingly; if not, the node is still listening, the
  answers are cleared and \<open>k\<close> peers are awaited.
\<close>

theorem on_values_ready_is_snowball:
  assumes "env_ok False never env" and "evaluating False never m"
    and "buffered (mc_state m) = unat (ss_k (mc_state m))" and "counters_fit (mc_state m)"
    and "snowball_round (unat (ss_alfa (mc_state m))) (unat (ss_beta (mc_state m)))
      (unat (fst (ss_response_buffer (mc_state m))), unat (snd (ss_response_buffer (mc_state m))))
      (abs_vote (mc_state m)) = (s', d)"
  shows "\<exists>m'. on_values_ready env m = Some (Return () m') \<and> abs_vote (mc_state m') = s'
    \<and> (case d of
         None \<Rightarrow> ss_phase (mc_state m') = Listening \<and> ss_response_buffer (mc_state m') = (0, 0)
           \<and> length (waiting m') = unat (ss_k (mc_state m))
       | Some c \<Rightarrow> ss_phase (mc_state m') = Idle
           \<and> ss_decision_map (mc_state m') (ss_seq_num (mc_state m)) = Some c
           \<and> (\<exists>body more. io_trace (mc_io m') = io_trace (mc_io m)
               @ [if c = OK then CommitBlock (ss_decision_block (mc_state m))
                  else FailBlock (ss_decision_block (mc_state m)),
                  Posted ''http://log.collector:5000/collect'' body] @ more))"
    (is "\<exists>m'. _ \<and> _ \<and> ?C m'")
proof -
  have e: "waiting m = []" "ss_phase (mc_state m) = Listening" "voting (mc_state m)" "parameters_ok (mc_state m)"
    using assms(2) by (simp_all add: evaluating_def)
  have "wp (on_values_ready env) (\<lambda>_ m'. round_evaluated env m m') m"
    by (rule on_values_ready_wpx [OF assms(1) evaluating_round_ready [OF assms(2)] e(3)
        evaluating_known [OF assms(2)] complete_single_majority [OF e(4) assms(3)]])
  then obtain m' where run: "on_values_ready env m = Some (Return () m')" and r: "round_evaluated env m m'"
    by (auto simp: wp_iff)
  note refines = round_evaluated_refines [OF r e(1,2,3) assms(4,5)]
  show ?thesis
  proof (intro exI conjI)
    show "?C m'"
      using refines(2,3) evaluated_round_asks [OF r e(1,2)] by (cases d) simp_all
  qed (use run refines(1) in auto)
qed

lemma sample_evaluating: "evaluating D E (voting_machine [] v)"
  by (simp add: evaluating_def sample_provided voting_machine_def idle_machine_def fresh_machine_def received_def
      fresh_state_def parameters_ok_def place_ok_def new_block_def voting_def)

text \<open>Two answers for the block give it its first majority of three.\<close>

theorem on_values_ready_is_snowball_witness:
  "\<exists>m'. on_values_ready sample_env (voting_machine [] (0, 2)) = Some (Return () m')
    \<and> ss_phase (mc_state m') = Listening \<and> sb_count (abs_vote (mc_state m')) = 1 \<and> length (waiting m') = 2"
proof -
  let ?m = "voting_machine [] (0, 2)"
  have "abs_vote (mc_state ?m) = fresh_vote"
    using abs_start_vote
    by (simp add: voting_machine_def abs_vote_def fresh_vote_def abs_support_def fun_eq_iff split: decision_state.split)
  then have "snowball_round (unat (ss_alfa (mc_state ?m))) (unat (ss_beta (mc_state ?m)))
      (unat (fst (ss_response_buffer (mc_state ?m))), unat (snd (ss_response_buffer (mc_state ?m))))
      (abs_vote (mc_state ?m)) = (majority_for OK fresh_vote, None)"
    by (simp add: snowball_round_def round_winner_def majority_for_def fresh_vote_def voting_machine_def
        idle_machine_def fresh_machine_def received_def fresh_state_def)
  from on_values_ready_is_snowball [OF sample_env_ok sample_evaluating _ sample_counters_fit this]
  show ?thesis
    by (auto simp: majority_for_def fresh_vote_def buffered_def voting_machine_def
        idle_machine_def fresh_machine_def received_def fresh_state_def)
qed

section \<open>Steps of the node and the protocol\<close>

text \<open>
  C7: Every handler of the node that returns is a step of the abstract protocol: from the
  phase, the sequence number, the block, the decisions and the calls to the validator one sees
  nothing but votes that begin with a checked block, preferred decisions that are revised, and
  votes that end, with a commit exactly when the decision is \<open>OK\<close>.
\<close>

theorem node_step_simulates_protocol:
  assumes "lawful env" and "node_inv m" and "node_step env m m'"
  shows "protocol_step (protocol_view m) (protocol_view m') \<and> node_inv m'"
  using node_action_protocol [OF assms(2) node_step_action [OF assms]] step_invariant [OF assms] by simp

theorem node_step_simulates_protocol_witness:
  "\<exists>m'. node_step sample_env (idle_machine new_block) m'
    \<and> protocol_step (protocol_view (idle_machine new_block)) (protocol_view m') \<and> node_inv m'"
proof -
  have i: "node_inv (idle_machine new_block)"
    using idle_stays [of True anything new_block] by simp
  have "wp (handle_queue sample_env) (\<lambda>_. stays False never) (idle_machine new_block)"
    by (rule handle_queue_inv [OF sample_env_ok idle_stays])
  then obtain m' where "handle_queue sample_env (idle_machine new_block) = Some (Return () m')"
    by (auto simp: wp_iff)
  then have s: "node_step sample_env (idle_machine new_block) m'" by (rule other [OF queue])
  from node_step_simulates_protocol [OF sample_lawful i s] s show ?thesis by blast
qed

section \<open>The decision on a block\<close>

text \<open>
  C12: \<open>handle_decision\<close> acts on the recorded decision. With a reliable validator and a block
  whose arrival was recorded it returns; the first call is the commit of the block when the
  decision is \<open>OK\<close> and its failure otherwise, the chain head moves exactly in the first case,
  the block leaves the queue, the first node asks for a new block and the phase advances.
\<close>

theorem handle_decision_follows_decision:
  assumes "env_ok False never env"
    and "ms_convergenza (ss_measurements (mc_state m)) (ss_decision_block (mc_state m)) \<noteq> None"
    and "ss_decision_map (mc_state m) (ss_seq_num (mc_state m)) = Some d"
  shows "\<exists>m' body. handle_decision env m = Some (Return () m')
    \<and> io_trace (mc_io m') = io_trace (mc_io m)
        @ [if d = OK then CommitBlock (ss_decision_block (mc_state m)) else FailBlock (ss_decision_block (mc_state m)),
           Posted ''http://log.collector:5000/collect'' body]
        @ (if ss_order (mc_state m) = 0 then [InitializeBlock None] else [])
    \<and> ss_chain_head (mc_state m')
        = (if d = OK then ss_decision_block (mc_state m) else ss_chain_head (mc_state m))
    \<and> mc_block_queue m' = tl (mc_block_queue m)
    \<and> ss_phase (mc_state m') = next_phase (ss_phase (mc_state m))
    \<and> ss_decision_map (mc_state m') = ss_decision_map (mc_state m)"
proof -
  have "wp (handle_decision env) (\<lambda>_ m'. decided env m m') m"
    using assms by (intro handle_decision_wpx) (simp_all add: block_known_def)
  then obtain m' where "handle_decision env m = Some (Return () m')" and "decided env m m'"
    by (auto simp: wp_iff)
  with assms(3) show ?thesis by (auto simp: decided_def Let_def)
qed

theorem handle_decision_follows_decision_witness:
  "\<exists>m' body. handle_decision sample_env (voting_machine [] (0, 0)) = Some (Return () m')
    \<and> io_trace (mc_io m') = [CommitBlock [6], Posted ''http://log.collector:5000/collect'' body, InitializeBlock None]
    \<and> mc_block_queue m' = []"
proof -
  from handle_decision_follows_decision [OF sample_env_ok, of "voting_machine [] (0, 0)" OK] show ?thesis
    by (auto simp: voting_machine_def idle_machine_def fresh_machine_def received_def fresh_state_def sample_io_def
        new_block_def)
qed

section \<open>Votes\<close>

text \<open>The machine that counts a vote, and what the answer does with it.\<close>

lemma count_vote_machine:
  assumes "v = 0 \<or> v = 1"
  shows "with_state (count_vote v) (with_state (no_longer_awaited p) m) = m\<lparr>mc_state := (mc_state m)
        \<lparr>ss_waiting_response_map := AList.delete p (waiting m),
         ss_response_buffer := (if v = 0
           then (fst (ss_response_buffer (mc_state m)) + 1, snd (ss_response_buffer (mc_state m)))
           else (fst (ss_response_buffer (mc_state m)), snd (ss_response_buffer (mc_state m)) + 1))\<rparr>\<rparr>"
  using assms by (elim disjE) (simp_all add: with_state_def count_vote_def no_longer_awaited_def add2_def)

lemma first_answer:
  assumes "node_inv m" and "expects (mc_state m) p" and "sm_vote v = 0 \<or> sm_vote v = 1"
    and m2: "m2 = with_state (count_vote (sm_vote v)) (with_state (no_longer_awaited p) m)"
  shows "on_response env p v m = (if Suc (buffered (mc_state m)) = unat (ss_k (mc_state m))
        then thenM (on_values_ready env) (returnM True) m2 else Some (Return True m2))"
proof -
  have a: "add2 (ss_response_buffer (mc_state m)) (unat (sm_vote v)) 1 = Some (ss_response_buffer (mc_state m2))"
    using assms(3) by (elim disjE) (simp_all add: m2 with_state_def count_vote_def no_longer_awaited_def add2_def)
  have k: "ss_k (mc_state m2) = ss_k (mc_state m)" by (simp add: m2 count_vote_def no_longer_awaited_def)
  have c: "fst (ss_response_buffer (mc_state m2)) + snd (ss_response_buffer (mc_state m2)) = ss_k (mc_state m)
      \<longleftrightarrow> Suc (buffered (mc_state m)) = unat (ss_k (mc_state m))"
    using count_vote_buffered [OF assms] k by (simp add: round_complete_def)
  have m2': "m2 = with_state (ss_response_buffer_update (\<lambda>_. ss_response_buffer (mc_state m2))) (with_state (no_longer_awaited p) m)"
    by (simp add: m2 with_state_def count_vote_def)
  have v: "\<not> (sm_vote v \<noteq> 0 \<and> sm_vote v \<noteq> 1)" using assms(3) by simp
  have "on_response env p v m = thenM (whenM (fst (ss_response_buffer (mc_state m2)) + snd (ss_response_buffer (mc_state m2)) = ss_k (mc_state m))
     (on_values_ready env)) (returnM True) m2"
    using assms(2) v a
    by (subst (3) m2') (simp add: on_response_def expects_def bindM_def thenM_def getM_def upd_state_def modifyM_def unwrapM_def
        returnM_def with_state_def no_longer_awaited_def, use v in blast)
  then show ?thesis using c by (simp add: whenM_def thenM_def bindM_def returnM_def)
qed

text \<open>
  C13: A vote counts once, for the colour it names. When an awaited peer answers with a vote, the
  machine that counts it is the old one but for two things: the peer is no longer awaited, and the
  votes for that colour, and no others, are one more (without a wrap: the votes of the round are
  one more as numbers). If this completes the round, it is evaluated on exactly that machine, else
  that machine is the result. There a second answer of the same peer is refused and changes
  nothing, and so is, at any time, any answer of a peer that is not awaited or to a node that
  is not listening.
\<close>

theorem response_counts_once:
  assumes "node_inv m" and "expects (mc_state m) p" and "sm_vote v = 0 \<or> sm_vote v = 1"
  shows "\<exists>m2. m2 = m\<lparr>mc_state := (mc_state m)
        \<lparr>ss_waiting_response_map := AList.delete p (waiting m),
         ss_response_buffer := (if sm_vote v = 0
           then (fst (ss_response_buffer (mc_state m)) + 1, snd (ss_response_buffer (mc_state m)))
           else (fst (ss_response_buffer (mc_state m)), snd (ss_response_buffer (mc_state m)) + 1))\<rparr>\<rparr>
    \<and> buffered (mc_state m2) = Suc (buffered (mc_state m))
    \<and> on_response env p v m = (if Suc (buffered (mc_state m)) = unat (ss_k (mc_state m))
        then thenM (on_values_ready env) (returnM True) m2 else Some (Return True m2))
    \<and> on_response env p v' m2 = Some (Return False m2)
    \<and> (\<forall>q. \<not> expects (mc_state m) q \<longrightarrow> on_response env q v' m = Some (Return False m))"
proof -
  define m2 where "m2 = with_state (count_vote (sm_vote v)) (with_state (no_longer_awaited p) m)"
  note b = count_vote_buffered [OF assms m2_def]
  note m2 = m2_def [unfolded count_vote_machine [OF assms(3)]]
  note first = first_answer [OF assms m2_def]
  have refused: "on_response env q v' m' = Some (Return False m')" if "\<not> expects (mc_state m') q" for q m'
    using that by (simp add: on_response_def expects_def bindM_def getM_def returnM_def)
  have "\<not> expects (mc_state m2) p"
    by (simp add: m2 expects_def wm.awaited_unawait)
  then have second: "on_response env p v' m2 = Some (Return False m2)" by (rule refused)
  show ?thesis
    by (rule exI [of _ m2], intro conjI, rule m2, rule b(1), rule first, rule second) (use refused in blast)
qed

definition vote_for :: "u8 \<Rightarrow> snowball_message" where
  "vote_for v = snowball_message_new\<lparr>sm_message_type := ''response'', sm_seq_num := 7, sm_vote := v\<rparr>"

lemma sample_expects: "expects (mc_state (voting_machine ps v)) p \<longleftrightarrow> p \<in> set ps"
  by (auto simp: expects_def voting_machine_def awaits_def image_image)

lemma sample_buffered: "buffered (mc_state (voting_machine ps v)) = unat (fst v) + unat (snd v)"
  by (simp add: buffered_def voting_machine_def)

lemma sample_buffer: "ss_response_buffer (mc_state (voting_machine ps v)) = v"
  by (simp add: voting_machine_def)

lemma sample_waiting: "length (waiting (voting_machine ps v)) = length ps"
  by (simp add: voting_machine_def)

lemma sample_k: "ss_k (mc_state (voting_machine ps v)) = 2"
  by (simp add: voting_machine_def idle_machine_def fresh_machine_def received_def fresh_state_def)

theorem response_counts_once_witness:
  "\<exists>m'. on_response sample_env [2] (vote_for 1) (voting_machine [[2], [3]] (0, 0)) = Some (Return True m')
    \<and> ss_response_buffer (mc_state m') = (0, 1) \<and> on_response sample_env [2] (vote_for 0) m' = Some (Return False m')"
proof -
  have "node_inv (voting_machine [[2], [3]] (0, 0))" by (rule voting_inv) auto
  from response_counts_once [OF this, of "[2]" "vote_for 1" sample_env "vote_for 0"] show ?thesis
    by (auto simp: sample_expects sample_buffered sample_buffer sample_k vote_for_def)
qed

section \<open>Who is asked\<close>

lemma others_members:
  assumes "distinct (members m)" and "order_valid (mc_state m)"
  shows "(!) (members m) ` others m = set (members m) - {members m ! unat (ss_order (mc_state m))}"
  using assms
  by (auto simp: others_def order_valid_def in_set_conv_nth nth_eq_iff_index_eq image_iff)

text \<open>
  C15: A round asks exactly \<open>k\<close> different members, none of them the node itself. When nobody is
  awaited and there are \<open>k\<close> other members, \<open>new_round\<close> (the sampling and
  \<open>prepare_and_forward_peer_requests\<close>) returns, the peers asked are the ones awaited, each gets
  its request in the order in which they are visited, and the votes of the last round are gone.
\<close>

theorem new_round_asks_k_members:
  assumes "env_ok False never env" and "round_ready False never m"
  shows "\<exists>m' ps ess. new_round env m = Some (Return () m')
    \<and> distinct ps \<and> length ps = unat (ss_k (mc_state m))
    \<and> set ps \<subseteq> set (members m) - {members m ! unat (ss_order (mc_state m))}
    \<and> (\<forall>q. awaits (waiting m') q \<longleftrightarrow> q \<in> set ps)
    \<and> ss_response_buffer (mc_state m') = (0, 0)
    \<and> list_all2 (request_events env (mc_state m)) ps ess
    \<and> io_trace (mc_io m') = io_trace (mc_io m) @ concat ess"
proof -
  have r: "distinct (members m)" "order_valid (mc_state m)" "waiting m = []"
    using assms(2) by (auto simp: round_ready_def)
  have "wp (new_round env) (\<lambda>_. new_round_from env m) m"
    by (rule new_round_ready_wpx [OF assms])
  then obtain m' where run: "new_round env m = Some (Return () m')" and n: "new_round_from env m m'"
    by (auto simp: wp_iff)
  then obtain ps where "asked_peers m ps" "round_started env m ps m'" by (auto simp: new_round_from_def)
  with run new_round_fromD(4) [OF n r(3)] r(3) others_members [OF r(1,2)] show ?thesis
    by (fastforce simp: asked_peers_def round_started_def awaits_def)
qed

theorem new_round_asks_k_members_witness:
  "\<exists>m' ps. new_round sample_env fresh_machine = Some (Return () m') \<and> set ps = {[2], [3]}
    \<and> (\<forall>q. awaits (waiting m') q \<longleftrightarrow> q \<in> set ps)"
proof -
  have "round_ready False never fresh_machine"
    using idle_ready [OF fresh_stays] by simp
  from new_round_asks_k_members [OF sample_env_ok this] obtain m' ps where
    m': "new_round sample_env fresh_machine = Some (Return () m')" "\<forall>q. awaits (waiting m') q \<longleftrightarrow> q \<in> set ps"
    and ps: "distinct ps" "length ps = 2" "set ps \<subseteq> {[2], [3]}"
    by auto
  have "card (set ps) = card {[2 :: u8], [3]}" using ps(1,2) distinct_card by fastforce
  then have "set ps = {[2], [3]}" using ps(3) by (intro card_subset_eq) simp_all
  with m' show ?thesis by blast
qed

text \<open>
  C16: \<open>select_node_sample\<close> returns as soon as there are enough members and the generator
  reaches every index: the sample has the requested number of different indices of members,
  never the node's own, and nothing but the generator's state has changed. Only a sample for which
  no hash set can be made at all panics instead, before the first draw.
\<close>

theorem select_node_sample_returns_sample:
  assumes "lawful_uniform env" and "fair_uniform env" and "order_valid (mc_state m)"
    and "amount < length (members m)"
  shows "if amount \<le> set_capacity_max
    then \<exists>xs m'. select_node_sample env amount m = Some (Return xs m')
      \<and> distinct xs \<and> length xs = amount
      \<and> (\<forall>i\<in>set xs. i < length (members m) \<and> i \<noteq> unat (ss_order (mc_state m)))
      \<and> same_but_world m m'
    else select_node_sample env amount m = Some (Panicked (LibraryPanic ''capacity overflow'') m)"
proof (cases "amount \<le> set_capacity_max")
  case False
  then show ?thesis by (simp add: select_node_sample_def panicM_def)
next
  case True
  then have "capacity_ok never amount" by (simp add: capacity_ok_def)
  moreover have "amount \<le> card (others m)" using assms(4) card_others [OF assms(3)] by linarith
  ultimately have "wp (select_node_sample env amount) (\<lambda>xs m'. sample_of m amount xs \<and> same_but_world m m') m"
    using assms by (intro select_node_sample_wpx) auto
  with True show ?thesis by (fastforce simp: wp_iff sample_of_def others_def)
qed

theorem select_node_sample_returns_sample_witness:
  "\<exists>xs m'. select_node_sample sample_env 2 fresh_machine = Some (Return xs m') \<and> set xs = {1, 2}"
proof -
  have "\<exists>xs m'. select_node_sample sample_env 2 fresh_machine = Some (Return xs m') \<and> distinct xs \<and> length xs = 2
      \<and> (\<forall>i\<in>set xs. i < length (members fresh_machine) \<and> i \<noteq> unat (ss_order (mc_state fresh_machine)))
      \<and> same_but_world fresh_machine m'"
    using select_node_sample_returns_sample [OF sample_uniform sample_fair, of fresh_machine 2]
    by (simp add: order_valid_def set_capacity_max_def)
  then obtain xs m' where run: "select_node_sample sample_env 2 fresh_machine = Some (Return xs m')"
    and xs: "distinct xs" "length xs = 2" "\<forall>i\<in>set xs. i < Suc (Suc (Suc 0)) \<and> 0 < i"
    by auto
  have "set xs \<subseteq> {1, 2}" using xs(3) by fastforce
  moreover have "card (set xs) = card {1 :: nat, 2}" using xs(1,2) distinct_card by fastforce
  ultimately have "set xs = {1, 2}" by (intro card_subset_eq) simp_all
  with run show ?thesis by blast
qed

text \<open>
  C17: The sampling loop has no exit when too few members are known: when the sample size \<open>k\<close>
  is not below the number of members, a sample of \<open>k\<close> is never returned, whatever the generator
  draws, and so the start of a vote hangs the engine. The one other end is for a \<open>k\<close> above
  what a hash set can be made for: there the sample and the start of the vote panic.
\<close>

theorem too_large_sample_never_returns:
  assumes "lawful_uniform env" and "order_valid (mc_state m)"
    and "length (members m) \<le> unat (ss_k (mc_state m))"
  shows "if unat (ss_k (mc_state m)) \<le> set_capacity_max
    then select_node_sample env (unat (ss_k (mc_state m))) m = None \<and> handle_block_new env b m = None
    else select_node_sample env (unat (ss_k (mc_state m))) m = Some (Panicked (LibraryPanic ''capacity overflow'') m)
      \<and> (\<exists>m'. handle_block_new env b m = Some (Panicked (LibraryPanic ''capacity overflow'') m'))"
proof -
  let ?k = "unat (ss_k (mc_state m))" and ?cap = "LibraryPanic ''capacity overflow''"
  have ends: "select_node_sample env ?k m' = (if ?k \<le> set_capacity_max then None else Some (Panicked ?cap m'))"
    if "members m' = members m" "ss_order (mc_state m') = ss_order (mc_state m)" for m'
  proof (rule select_node_sample_diverges [OF assms(1)])
    show v: "order_valid (mc_state m')" using assms(2) that by (simp add: order_valid_def)
    show "card (others m') < ?k" using card_others [OF v] assms(3) that by simp
  qed
  show ?thesis
  proof (cases "?k \<le> set_capacity_max")
    case True
    have "wlp (handle_block_new env b) (\<lambda>_ _. False) m"
      using ends True
      by (simp add: handle_block_new_def Let_def wp_simps new_round_def) (simp add: wpx_def)
    moreover have "safe (handle_block_new env b) (\<lambda>_ _. True) m"
      using ends True
      by (simp add: handle_block_new_def Let_def wp_simps new_round_def) (simp add: wpx_def)
    ultimately have "handle_block_new env b m = None"
      by (cases "handle_block_new env b m") (auto simp: wpx_def split: outcome.splits)
    with ends [of m] True show ?thesis by simp
  next
    case False
    have "wpx False (\<lambda>p _. p = ?cap) (handle_block_new env b) (\<lambda>_ _. False) m"
      using ends False
      by (simp add: handle_block_new_def Let_def wp_simps new_round_def) (simp add: wpx_def)
    with ends [of m] False show ?thesis by (auto simp: wpx_def split: option.splits outcome.splits)
  qed
qed

text \<open>Three members and a sample size of three.\<close>

theorem too_large_sample_never_returns_witness:
  "handle_block_new sample_env [6] (fresh_machine\<lparr>mc_state := fresh_state\<lparr>ss_k := 3\<rparr>\<rparr>) = None"
  using too_large_sample_never_returns
    [OF sample_uniform, of "fresh_machine\<lparr>mc_state := fresh_state\<lparr>ss_k := 3\<rparr>\<rparr>" "[6]"]
  by (simp add: order_valid_def fresh_state_def set_capacity_max_def)

section \<open>The queue of blocks\<close>

text \<open>The machine once the first round of a vote is out.\<close>

lemma vote_begun:
  assumes v: "vote_started env b m m'" and w: "waiting m = []" and p: "ss_phase (mc_state m) = Idle"
  shows "ss_phase (mc_state m') = Listening"
    and "ss_seq_num (mc_state m') = ss_seq_num (mc_state m) + 1"
    and "ss_decision_block (mc_state m') = b" and "abs_vote (mc_state m') = fresh_vote"
    and "length (waiting m') = unat (ss_k (mc_state m))" and "mc_block_queue m' = mc_block_queue m"
    and "\<exists>es. quiet es \<and> io_trace (mc_io m') = io_trace (mc_io m) @ es"
proof -
  obtain m1 where n: "new_round_from env (with_state (start_vote b) m) m1" and m': "m' = with_state switch_phase m1"
    using v by (auto simp: vote_started_def)
  have w1: "waiting (with_state (start_vote b) m) = []" using w by simp
  note q = new_round_fromD(1) [OF n w1]
  show "abs_vote (mc_state m') = fresh_vote"
    using new_round_abs(1) [OF n w1] abs_start_vote [of b "mc_state m"] m'
    by (simp add: abs_vote_cong [of "switch_phase (mc_state m1)" "mc_state m1"])
  show "length (waiting m') = unat (ss_k (mc_state m))"
    using new_round_fromD(3) [OF n w1] m' by simp
  show "ss_phase (mc_state m') = Listening" "ss_seq_num (mc_state m') = ss_seq_num (mc_state m) + 1"
    "ss_decision_block (mc_state m') = b" "mc_block_queue m' = mc_block_queue m"
    using queriedD [OF q] p m' by (simp_all add: clear_buffer_def)
  show "\<exists>es. quiet es \<and> io_trace (mc_io m') = io_trace (mc_io m) @ es"
    using new_round_quietly [OF n] m' by (auto simp: quietly_def)
qed

text \<open>
  C18: What \<open>handle_queue\<close> does, between turns of the engine. An empty queue, and a front block
  that is the one being or last voted on, change nothing. A front block below the validator's
  chain head is failed, and the state and the queue stay as they were. Any other front block is
  checked and a vote on it starts: the sequence number advances, the block is preferred, all
  counters are at zero, and \<open>k\<close> members are awaited.
\<close>

theorem handle_queue_cases:
  assumes "env_ok False never env" and "stays False never m"
  shows "\<exists>m'. handle_queue env m = Some (Return () m') \<and> (case mc_block_queue m of
      [] \<Rightarrow> m' = m
    | b # _ \<Rightarrow>
      if block_id b = ss_decision_block (mc_state m) then m' = m
      else \<exists>head. fst (ev_get_chain_head env (io_world (mc_io m))) = Inr head \<and>
       (if block_num b < block_num head
        then acted [GetChainHead, FailBlock (block_id b)] m m'
        else ss_phase (mc_state m') = Listening
          \<and> ss_seq_num (mc_state m') = ss_seq_num (mc_state m) + 1
          \<and> ss_decision_block (mc_state m') = block_id b
          \<and> abs_vote (mc_state m') = fresh_vote
          \<and> length (waiting m') = unat (ss_k (mc_state m))
          \<and> mc_block_queue m' = mc_block_queue m
          \<and> (\<exists>es. quiet es \<and> io_trace (mc_io m')
              = io_trace (mc_io m) @ [GetChainHead, CheckBlocks [block_id b]] @ es)))"
    (is "\<exists>m'. _ \<and> ?C m'")
proof -
  have front: "ss_phase (mc_state m) \<noteq> Listening"
    if "mc_block_queue m = b # bs" "block_id b \<noteq> ss_decision_block (mc_state m)" for b bs
    using assms(2) that by (auto simp: stays_def node_inv_def phase_ok_def round_ok_def)
  have "wp (handle_queue env) (\<lambda>_. queue_handled env m) m"
    by (rule handle_queue_wpx [OF assms(1)]) (use idle_ready [OF assms(2)] front in blast)+
  then obtain m' where run: "handle_queue env m = Some (Return () m')" and h: "queue_handled env m m'"
    by (auto simp: wp_iff)
  show ?thesis
  proof (intro exI conjI, rule run)
    show "?C m'"
    proof (cases "mc_block_queue m")
      case Nil
      with h show ?thesis by (simp add: queue_handled_def)
    next
      case (Cons b bs)
      show ?thesis
      proof (cases "block_id b = ss_decision_block (mc_state m)")
        case True
        with h Cons show ?thesis by (simp add: queue_handled_def)
      next
        case False
        then obtain head where head: "fst (ev_get_chain_head env (io_world (mc_io m))) = Inr head"
          and ex: "block_examined env b head m m'"
          using h Cons by (auto simp: queue_handled_def)
        show ?thesis
        proof (cases "block_num b < block_num head")
          case True
          with ex head Cons False show ?thesis by (auto simp: block_examined_def)
        next
          case nb: False
          then obtain m1 where a: "acted [GetChainHead, CheckBlocks [block_id b]] m m1"
            and v: "vote_started env (block_id b) m1 m'"
            using ex by (auto simp: block_examined_def)
          have "ss_phase (mc_state m) = Idle"
            using front [OF Cons False] assms(2)
            by (cases "ss_phase (mc_state m)") (auto simp: stays_def node_inv_def phase_ok_def)
          moreover have "waiting m = []"
            using calculation assms(2) by (simp add: stays_def node_inv_def phase_ok_def)
          ultimately show ?thesis
            using vote_begun [OF v] a head Cons False nb by (auto simp: acted_def)
        qed
      qed
    qed
  qed
qed

theorem handle_queue_cases_witness:
  "\<exists>m'. handle_queue sample_env (idle_machine new_block) = Some (Return () m')
    \<and> ss_phase (mc_state m') = Listening \<and> ss_decision_block (mc_state m') = [6]"
proof -
  have "ss_decision_block (mc_state (idle_machine new_block)) = []"
    "mc_block_queue (idle_machine new_block) = [new_block]" "block_id new_block = [6]"
    by (simp_all add: sample_defs)
  moreover have "fst (ev_get_chain_head sample_env w) = Inr genesis" "\<not> block_num new_block < block_num genesis" for w
    by (simp_all add: sample_env_def sample_defs)
  ultimately show ?thesis
    using handle_queue_cases [OF sample_env_ok idle_stays [of False never new_block]] by fastforce
qed

section \<open>Peers that do not answer\<close>

lemma waiting_bound:
  assumes "stays False E m"
  shows "length (waiting m) \<le> card (others m)" and "distinct (members m)" and "order_valid (mc_state m)"
    and "keys_distinct (waiting m)" and "delay_ok E (mc_state m)"
  using assms place_order_valid
  by (auto simp: inv_defs round_ok_def split: phase.splits)

text \<open>
  C22: Peers that do not answer in time are replaced one for one. In a turn of a node that is not
  told to hang, the peers whose request has expired on the clock are no longer awaited, and as
  many members that are not awaited at that moment get a request; the number of
  awaited peers is the same as before.
\<close>

theorem unresponsive_peers_replaced:
  assumes "env_ok False never env" and "stays False never m" and "\<not> byzantine bz_hang_idx (mc_state m)"
  shows "\<exists>m' clock gone asked. handle_unresponsive_peers env m = Some (Return () m')
    \<and> range clock \<subseteq> clock_readings env (io_world (mc_io m))
    \<and> set gone = expired_peers clock m \<and> distinct gone
    \<and> distinct asked \<and> length asked = length gone
    \<and> (\<forall>p\<in>set asked. p \<in> set (members m) - {members m ! unat (ss_order (mc_state m))}
         \<and> (awaits (waiting m) p \<longrightarrow> p \<in> set gone))
    \<and> (\<forall>q. awaits (waiting m') q \<longleftrightarrow> q \<in> set asked \<or> awaits (waiting m) q \<and> q \<notin> set gone)
    \<and> length (waiting m') = length (waiting m)"
proof -
  note b = waiting_bound [OF assms(2)]
  have "wp (handle_unresponsive_peers env) (\<lambda>_. unresponsive_handled env m) m"
    by (rule handle_unresponsive_peers_wpx [OF assms(1) b(5,3,4)]) (use b(1,2) in auto)
  then obtain m' where run: "handle_unresponsive_peers env m = Some (Return () m')"
    and "unresponsive_handled env m m'" by (auto simp: wp_iff)
  then obtain clock gone ps m1 where c: "range clock \<subseteq> clock_readings env (io_world (mc_io m))"
    and g: "distinct gone" "set gone = expired_peers clock m" "length ps = length gone"
    and s: "same_but_world m m1" and a: "peers_asked env ps (forget gone m1) m'"
    using assms(3) by (auto simp: unresponsive_handled_def)
  have st: "mc_state m1 = mc_state m" using s by (simp add: same_but_world_def)
  have k: "keys_distinct (waiting m1)" "\<forall>p\<in>set gone. awaits (waiting m1) p"
    using b(4) g(2) st by (auto simp: expired_peers_def)
  note f = forget_waiting [OF k(1) g(1) k(2)]
  have same: "members (forget gone m1) = members m" "others (forget gone m1) = others m"
    using queriedD(17) [OF forget_queried, of gone m1] queried_derived(1) [OF forget_queried, of gone m1] st
      others_cong [OF st] by simp_all
  note p = peers_askedD [OF a f(1)]
  show ?thesis
    using run c g p(3,4,5,6) f(2,3) others_members [OF b(2,3)] same st
    by (intro exI [of _ m'] exI [of _ clock] exI [of _ gone] exI [of _ ps]) auto
qed

text \<open>Four seconds after the requests went out, both peers have expired.\<close>

definition late :: "world machine \<Rightarrow> world machine" where
  "late m = m\<lparr>mc_io := sample_io\<lparr>io_world := \<lparr>wd_draws = 0, wd_clock = from_millis 4000, wd_files = Map.empty\<rparr>\<rparr>\<rparr>"

theorem unresponsive_peers_replaced_witness:
  "\<exists>m' (gone :: peer_id list). handle_unresponsive_peers sample_env (late (voting_machine [[2], [3]] (0, 0))) = Some (Return () m')
    \<and> set gone = {[2], [3]} \<and> length (waiting m') = 2"
proof -
  let ?m = "late (voting_machine [[2], [3]] (0, 0))"
  have s: "stays False never ?m"
    unfolding late_def by (rule io_inv, rule voting_stays) auto
  have now: "clock_readings sample_env (io_world (mc_io ?m)) = {from_millis 4000}"
  proof -
    have "((\<lambda>w. snd (ev_now sample_env w)) ^^ i) w = w" for i w
      by (induction i) (simp_all add: sample_env_def)
    then show ?thesis by (simp add: clock_readings_def late_def) (simp add: sample_env_def)
  qed
  have gone: "expired_peers clock ?m = {[2], [3]}" if "range clock \<subseteq> {from_millis 4000}" for clock
  proof -
    have "clock p = from_millis 4000" for p using that by blast
    then show ?thesis
      by (auto simp: expired_peers_def late_def voting_machine_def awaits_def expired_at_def asked_at_def from_millis_def)
  qed
  have len: "length (waiting ?m) = 2" by (simp add: late_def voting_machine_def)
  have "\<not> byzantine bz_hang_idx (mc_state ?m)"
    by (simp add: late_def byzantine_def sample_defs)
  then obtain m' clock ps where
    run: "handle_unresponsive_peers sample_env ?m = Some (Return () m')" and c: "range clock \<subseteq> {from_millis 4000}"
    and g: "set ps = expired_peers clock ?m" and l: "length (waiting m') = length (waiting ?m)"
    using unresponsive_peers_replaced [OF sample_env_ok s] unfolding now by blast
  show ?thesis
    by (intro exI [of _ m'] exI [of _ ps] conjI) (simp_all only: run g gone [OF c] l len)
qed

text \<open>
  C23: A peer that says it is not on the block yet is replaced by one other member: the sender is
  no longer awaited, one member that is not awaited gets the request, and the number of awaited
  peers stays. (It may be the same peer again.)
\<close>

theorem unavailable_peer_replaced:
  fixes m :: "'w machine"
  assumes "env_ok False never env" and "stays False never m" and "expects (mc_state m) p"
  shows "\<exists>m' q es. on_unavailable env p m = Some (Return True m')
    \<and> q \<in> set (members m) - {members m ! unat (ss_order (mc_state m))}
    \<and> (awaits (waiting m) q \<longrightarrow> q = p)
    \<and> (\<forall>r. awaits (waiting m') r \<longleftrightarrow> r = q \<or> awaits (waiting m) r \<and> r \<noteq> p)
    \<and> length (waiting m') = length (waiting m)
    \<and> request_events env (mc_state m) q es \<and> io_trace (mc_io m') = io_trace (mc_io m) @ es"
proof -
  note b = waiting_bound [OF assms(2)]
  let ?m1 = "with_state (no_longer_awaited p) m"
  have a: "awaits (waiting m) p" using assms(3) by (simp add: expects_def)
  have w: "Suc (length (waiting ?m1)) = length (waiting m)" "keys_distinct (waiting ?m1)"
    using wm.size_unawait [OF b(4) a] wm.wf_unawait [OF b(4)] by simp_all
  have q: "queried m ?m1" by (rule no_longer_awaited_queried)
  have same: "others ?m1 = others m" "order_valid (mc_state ?m1)" "members ?m1 = members m"
    using queried_derived(1,2) [OF q] queriedD(17) [OF q] b(3) by simp_all
  moreover have "delay_ok (never :: panic \<Rightarrow> 'w machine \<Rightarrow> bool) (mc_state ?m1)" "distinct (members ?m1)"
    using queried_derived(3) [OF q, of "never :: panic \<Rightarrow> 'w machine \<Rightarrow> bool"] same(3) b(2,5) by simp_all
  ultimately have "can_ask False never ?m1"
    unfolding can_ask_def using w b(1) free_peer [of ?m1] by simp
  then have "wp (on_unavailable env p) (\<lambda>r m'. unavailable_handled env p m r m') m"
    by (intro on_unavailable_wpx [OF assms(1)]) simp_all
  then obtain r m' where run: "on_unavailable env p m = Some (Return r m')" and h: "unavailable_handled env p m r m'"
    by (auto simp: wp_iff)
  then obtain x where "r" and x: "other_peer_asked env ?m1 x m'"
    using assms(3) by (auto simp: unavailable_handled_def)
  then obtain es where es: "request_events env (mc_state ?m1) x es" "io_trace (mc_io m') = io_trace (mc_io m) @ es"
    by (auto simp: other_peer_asked_def)
  have "request_events env (mc_state m) x es"
    using es(1) request_events_queried [OF q, of env] by simp
  with run \<open>r\<close> x es(2) w same others_members [OF b(2,3)] show ?thesis
    by (intro exI [of _ m'] exI [of _ x] exI [of _ es]) (auto simp: other_peer_asked_def wm.awaited_unawait)
qed

theorem unavailable_peer_replaced_witness:
  "\<exists>m'. on_unavailable sample_env [2] (voting_machine [[2]] (1, 0)) = Some (Return True m')
    \<and> length (waiting m') = 1"
proof -
  have "stays False never (voting_machine [[2]] (1, 0))" by (rule voting_stays) auto
  from unavailable_peer_replaced [OF sample_env_ok this, of "[2]"] show ?thesis
    by (auto simp: sample_expects sample_waiting)
qed

section \<open>Messages\<close>

text \<open>
  C24: The answer to a request is determined by the decision map. A request for a sequence number
  the node has not reached is answered with \<open>unavailable\<close> and that number; a request for one
  without an entry in the map is not answered; any other request is answered with the vote
  recorded for it, one for \<open>OK\<close> and zero otherwise, under the node's own current sequence
  number.
\<close>

theorem request_answered_from_decisions:
  assumes "env_ok False never env" and "delay_ok (never :: panic \<Rightarrow> 'w machine \<Rightarrow> bool) (mc_state m)"
  shows "\<exists>again (m' :: 'w machine). on_request env p payload m = Some (Return again m') \<and>
    (if ss_seq_num (mc_state m) < sm_seq_num payload
     then \<not> again \<and> sent env p ''unavailable'' 0 (sm_seq_num payload) m m'
     else (case ss_decision_map (mc_state m) (sm_seq_num payload) of
         None \<Rightarrow> \<not> again \<and> m' = m
       | Some c \<Rightarrow> again \<and> sent env p ''response'' (if c = OK then 1 else 0) (ss_seq_num (mc_state m)) m m'))"
proof -
  have "wp (on_request env p payload) (\<lambda>r m'. request_answered env p payload m r m') m"
    by (rule on_request_wpx [OF assms])
  then show ?thesis by (auto simp: wp_iff request_answered_def Let_def)
qed

lemma sample_delay_ok: "delay_ok E (mc_state (voting_machine ps v))"
  by (simp add: delay_ok_def sample_defs)

theorem request_answered_from_decisions_witness:
  "\<exists>m'. on_request sample_env [2] (vote_for 0) (voting_machine [] (0, 0)) = Some (Return True m')
    \<and> sent sample_env [2] ''response'' 1 7 (voting_machine [] (0, 0)) m'"
proof -
  have "ss_seq_num (mc_state (voting_machine [] (0, 0))) = 7" "sm_seq_num (vote_for 0) = 7"
    "ss_decision_map (mc_state (voting_machine [] (0, 0))) 7 = Some OK"
    by (simp_all add: sample_defs vote_for_def)
  with request_answered_from_decisions [OF sample_env_ok sample_delay_ok, of "[2]" "vote_for 0" "[]" "(0, 0)"]
  show ?thesis by fastforce
qed

text \<open>
  C26: What \<open>send_peer_message\<close> puts on the network, with the Byzantine tests as configured. A
  node told to hang sends nothing. Any other node sends the same bytes once, or twice when told
  to duplicate, after at most one sleep; the receiver decodes them to a message with the given
  type, the given vote (zero when told to decide wrongly) and the given sequence number (any
  when told to be spurious), and every copy is counted.
\<close>

theorem sent_message_is_received:
  assumes "env_ok False never env" and "delay_ok (never :: panic \<Rightarrow> 'w machine \<Rightarrow> bool) (mc_state m)"
  shows "\<exists>m'. send_peer_message env p t v n (m :: 'w machine) = Some (Return () m') \<and>
    (if byzantine bz_hang_idx (mc_state m) then m' = m
     else \<exists>content slept payload.
       io_trace (mc_io m') = io_trace (mc_io m) @ slept
         @ replicate (if byzantine bz_duplicate_idx (mc_state m) then 2 else 1) (SendTo p t content)
       \<and> (slept = [] \<or> byzantine bz_sleep_idx (mc_state m) \<and> (\<exists>d. slept = [Slept d]))
       \<and> (\<forall>s :: unit. decode_payload env content s = Some (Return payload s))
       \<and> sm_message_type payload = t
       \<and> sm_vote payload = (if byzantine bz_wrong_decision_idx (mc_state m) then 0 else v)
       \<and> (byzantine bz_spurious_idx (mc_state m) \<or> sm_seq_num payload = n)
       \<and> ms_n_messaggi_inviati (ss_measurements (mc_state m')) = ms_n_messaggi_inviati (ss_measurements (mc_state m))
           + (if byzantine bz_duplicate_idx (mc_state m) then 2 else 1))"
    (is "\<exists>m'. _ \<and> (if _ then _ else \<exists>content slept payload. ?C m' content slept payload)")
proof -
  have "wp (send_peer_message env p t v n) (\<lambda>_ m'. sent env p t v n m m') m"
    by (rule send_peer_message_wpx [OF assms])
  then obtain m' where run: "send_peer_message env p t v n m = Some (Return () m')" and s: "sent env p t v n m m'"
    by (auto simp: wp_iff)
  show ?thesis
  proof (cases "byzantine bz_hang_idx (mc_state m)")
    case True
    with run s show ?thesis by (simp add: sent_def)
  next
    case False
    then obtain content slept where c: "message_bytes env (mc_state m) t v n content"
      "slept = [] \<or> byzantine bz_sleep_idx (mc_state m) \<and> (\<exists>d. slept = [Slept d])"
      "io_trace (mc_io m') = io_trace (mc_io m) @ slept @ replicate (repetitions (mc_state m)) (SendTo p t content)"
      using s by (auto simp: sent_def)
    then obtain payload where "encode_payload env payload = Some content" and
      p: "sm_message_type payload = t"
      "sm_vote payload = (if byzantine bz_wrong_decision_idx (mc_state m) then 0 else v)"
      "byzantine bz_spurious_idx (mc_state m) \<or> sm_seq_num payload = n"
      by (auto simp: message_bytes_def)
    moreover have "lawful_message_json env" using env_okD(6) [OF assms(1)] by simp
    ultimately have "\<forall>s :: unit. decode_payload env content s = Some (Return payload s)"
      by (simp add: decode_encode)
    moreover have "ms_n_messaggi_inviati (ss_measurements (mc_state m'))
        = ms_n_messaggi_inviati (ss_measurements (mc_state m)) + of_nat (repetitions (mc_state m))"
      using s False by (simp add: sent_def)
    ultimately have "?C m' content slept payload"
      using c(2,3) p by (simp add: repetitions_def)
    then have "\<exists>content slept payload. ?C m' content slept payload" by blast
    with run False show ?thesis by (intro exI [of _ m']) simp
  qed
qed

theorem sent_message_is_received_witness:
  "\<exists>m' content payload. send_peer_message sample_env [2] ''response'' 1 7 (voting_machine [] (0, 0)) = Some (Return () m')
    \<and> io_trace (mc_io m') = [SendTo [2] ''response'' content]
    \<and> decode_payload sample_env content () = Some (Return payload ()) \<and> sm_vote payload = 1 \<and> sm_seq_num payload = 7"
proof -
  let ?m = "voting_machine [] (0, 0)"
  have b: "\<not> byzantine f (mc_state ?m)" for f
    by (simp add: byzantine_def sample_defs)
  have "io_trace (mc_io ?m) = []" by (simp add: sample_defs)
  with sent_message_is_received [OF sample_env_ok sample_delay_ok, of "[2]" "''response''" 1 7 "[]" "(0, 0)"]
  show ?thesis by (simp add: b) blast
qed

section \<open>Counters of a vote\<close>

text \<open>
  C25: What the counters of a vote mean after any sequence of rounds. The entries of the decision
  array count the rounds each colour won, the recorded decision is a colour that won the most,
  and the confidence counter is the number of rounds in a row, up to the last one, won by the
  last colour; a colour with a positive streak is that last colour. The rounds are those of the
  code: on a machine in a vote where colour \<open>i\<close> has its majority the body of the loop of \<open>on_values_ready\<close> goes on,
  to the decision or the next round, from the state after \<open>Some i\<close>, and without a
  majority \<open>on_values_ready\<close> starts the next round from the state after \<open>None\<close>.
\<close>

theorem vote_counters_meaning:
  assumes "set rs \<subseteq> {None, Some 0, Some 1}" and "length rs < 2 ^ 64"
  shows "(\<exists>i\<in>{0, 1}. \<exists>j\<in>{0, 1}.
    ss_decision_map (after_rounds b rs st) (ss_seq_num (after_rounds b rs st)) = Some (colour i)
    \<and> wins 0 rs \<le> wins i rs \<and> wins 1 rs \<le> wins i rs
    \<and> unat (fst (ss_decision_array (after_rounds b rs st))) = wins 0 rs
    \<and> unat (snd (ss_decision_array (after_rounds b rs st))) = wins 1 rs
    \<and> ss_last_color (after_rounds b rs st) = colour j
    \<and> unat (ss_confidence_counter (after_rounds b rs st)) = streak j rs
    \<and> streak (1 - j) rs = 0)
    \<and> (\<forall>i\<in>{0, 1}. voting (mc_state m) \<and> ss_alfa (mc_state m) \<le> votes (mc_state m) i \<longrightarrow>
        count_color env i majority m = (let m1 = with_state (after_round (Some i)) m in
          thenM (if ss_beta (mc_state m1) \<le> ss_confidence_counter (mc_state m1)
            then thenM (upd_state switch_phase) (handle_decision env) else new_round env) (returnM True) m1))
    \<and> (winner (mc_state m) = None \<longrightarrow> on_values_ready env m = new_round env (with_state (after_round None) m))"
    (is "?counters \<and> ?code")
proof
  show ?code using count_color_round [of m _ env majority] no_majority_round [of m env] by blast
next
  let ?st = "after_rounds b rs st"
  have "set (outcomes rs) \<subseteq> {None, Some OK, Some KO}"
    using assms(1) by (auto simp: outcomes_def colour_def)
  then have cm: "counters_mean (outcomes rs) (abs_vote ?st)" and v: "voting ?st"
    using after_rounds_refine [OF assms, of b st] outcomes_counters by auto
  have w: "wins KO (outcomes rs) = wins 0 rs" "wins OK (outcomes rs) = wins 1 rs"
    "streak KO (outcomes rs) = streak 0 rs" "streak OK (outcomes rs) = streak 1 rs"
    using wins_outcomes [OF assms(1), of 0] wins_outcomes [OF assms(1), of 1] by (simp_all add: colour_def)
  have pref: "sb_preferred (abs_vote ?st) = the (ss_decision_map ?st (ss_seq_num ?st))"
    and last: "sb_last (abs_vote ?st) = ss_last_color ?st"
    and cnt: "sb_count (abs_vote ?st) = unat (ss_confidence_counter ?st)"
    by (simp_all add: abs_vote_def)
  have sup: "abs_support (ss_decision_array ?st) c = wins c (outcomes rs)" for c
    using cm by (simp add: counters_mean_def abs_vote_def)
  have most: "sb_preferred (abs_vote ?st) \<in> {OK, KO}" "wins OK (outcomes rs) \<le> wins (sb_preferred (abs_vote ?st)) (outcomes rs)"
    "wins KO (outcomes rs) \<le> wins (sb_preferred (abs_vote ?st)) (outcomes rs)"
    using cm by (auto simp: counters_mean_def)
  have run: "sb_last (abs_vote ?st) \<in> {OK, KO}" "sb_count (abs_vote ?st) = streak (sb_last (abs_vote ?st)) (outcomes rs)"
    "0 < streak OK (outcomes rs) \<longrightarrow> OK = sb_last (abs_vote ?st)" "0 < streak KO (outcomes rs) \<longrightarrow> KO = sb_last (abs_vote ?st)"
    using cm by (auto simp: counters_mean_def)
  obtain d where d: "ss_decision_map ?st (ss_seq_num ?st) = Some d" "d = OK \<or> d = KO"
    using v by (auto simp: voting_def)
  define i :: nat where "i = (if d = OK then 1 else 0)"
  define j :: nat where "j = (if ss_last_color ?st = OK then 1 else 0)"
  show ?counters
    using most run d sup [of KO] sup [of OK] w pref last cnt
    by (intro bexI [of _ i] bexI [of _ j]) (auto simp: i_def j_def colour_def abs_support_def)
qed

theorem vote_counters_meaning_witness:
  "\<exists>i\<in>{0, 1}. ss_decision_map (after_rounds [6] [Some 1, None, Some 0, Some 0] fresh_state)
      (ss_seq_num (after_rounds [6] [Some 1, None, Some 0, Some 0] fresh_state)) = Some (colour i)
    \<and> 2 \<le> wins i [Some 1, None, Some 0, Some 0]"
  using vote_counters_meaning [of "[Some 1, None, Some 0, Some 0]" "[6]" fresh_state]
  by (auto simp: wins_def)

lemma after_rounds_beta: "ss_beta (after_rounds b rs st) = ss_beta st"
proof -
  have "ss_beta (fold after_round rs st') = ss_beta st'" for st'
    by (induction rs arbitrary: st') (simp_all add: after_round_def split: option.splits)
  then show ?thesis by (simp add: after_rounds_def)
qed

text \<open>
  When every round is won by the same colour, the vote is decided for it in round \<open>beta\<close> and
  not before: after \<open>n\<close> such rounds the confidence counter has reached \<open>beta\<close> exactly when
  \<open>beta \<le> n\<close>, and the recorded decision is that colour.
\<close>

lemma unanimous_rounds_decide:
  assumes "i = 0 \<or> i = 1" and "0 < n" and "n < 2 ^ 64"
  shows "(ss_beta (after_rounds b (replicate n (Some i)) st) \<le> ss_confidence_counter (after_rounds b (replicate n (Some i)) st)
      \<longleftrightarrow> unat (ss_beta st) \<le> n)
    \<and> ss_decision_map (after_rounds b (replicate n (Some i)) st)
        (ss_seq_num (after_rounds b (replicate n (Some i)) st)) = Some (colour i)"
proof -
  let ?rs = "replicate n (Some i)" and ?st = "after_rounds b (replicate n (Some i)) st"
  have rs: "set ?rs \<subseteq> {None, Some 0, Some 1}" "length ?rs < 2 ^ 64" using assms by auto
  have "abs_vote ?st = unanimous (colour i) n"
    using after_rounds_refine [OF rs, of b st] unanimous_outcomes [of "colour i" n]
    by (auto simp: outcomes_def colour_def)
  then have "unat (ss_confidence_counter ?st) = n" "the (ss_decision_map ?st (ss_seq_num ?st)) = colour i"
    using assms(2) by (simp_all add: abs_vote_def unanimous_def)
  moreover have "voting ?st" using after_rounds_refine [OF rs, of b st] by simp
  moreover have "ss_beta ?st = ss_beta st"
    by (rule after_rounds_beta)
  ultimately show ?thesis by (auto simp: word_le_nat_alt voting_def)
qed

lemma unanimous_rounds_decide_witness:
  "ss_beta fresh_state = 3
    \<and> ss_beta (after_rounds [6] (replicate 3 (Some 1)) fresh_state)
        \<le> ss_confidence_counter (after_rounds [6] (replicate 3 (Some 1)) fresh_state)
    \<and> \<not> ss_beta (after_rounds [6] (replicate 2 (Some 1)) fresh_state)
        \<le> ss_confidence_counter (after_rounds [6] (replicate 2 (Some 1)) fresh_state)"
  using unanimous_rounds_decide [of 1 3 "[6]" fresh_state] unanimous_rounds_decide [of 1 2 "[6]" fresh_state]
  by (simp add: fresh_state_def)

section \<open>Membership\<close>

text \<open>
  C28: A peer that connects becomes the last member, once. A known peer changes nothing; an
  unknown one is appended, the node keeps its own place, and members stay distinct.
\<close>

theorem peer_connected_appended:
  assumes "place_ok (mc_state m)"
  shows "\<exists>m'. on_peer_connected p m = Some (Return True m')
    \<and> members m' = (if p \<in> set (members m) then members m else members m @ [p])
    \<and> ss_order (mc_state m') = ss_order (mc_state m) \<and> place_ok (mc_state m')"
proof -
  have d: "distinct (members m)"
    and pos: "position (ss_id (mc_state m)) (members m) = Some (unat (ss_order (mc_state m)))"
    using assms by (simp_all add: place_ok_def)
  have me: "ss_id (mc_state m) \<in> set (members m)" by (rule position_mem [OF pos])
  then have "wp (on_peer_connected p) (\<lambda>r m'. r \<and> m' = (if p \<in> set (members m) then m
      else with_state (with_members (members m @ [p])) m)) m"
    by (simp add: on_peer_connected_wpx)
  then have "on_peer_connected p m = Some (Return True (if p \<in> set (members m) then m
      else with_state (with_members (members m @ [p])) m))"
    by (auto simp: wp_iff)
  with assms d pos me show ?thesis
    by (simp add: place_ok_def position_append)
qed

lemma sample_place: "place_ok (mc_state (voting_machine ps v))"
  using sample_evaluating [of True anything v] by (simp add: evaluating_def voting_machine_def place_ok_def)

theorem peer_connected_appended_witness:
  "\<exists>m'. on_peer_connected [4] (voting_machine [] (0, 0)) = Some (Return True m') \<and> [4] \<in> set (members m')
    \<and> ss_order (mc_state m') = 0"
proof -
  have "members (voting_machine [] (0, 0)) = [[1], [2], [3]]" "ss_order (mc_state (voting_machine [] (0, 0))) = 0"
    by (simp_all add: sample_defs)
  with peer_connected_appended [OF sample_place, of "[4]" "[]" "(0, 0)"] show ?thesis by force
qed

lemma remove_at_position: "position p xs = Some i \<Longrightarrow> remove_at i xs = remove1 p xs"
proof (induction xs arbitrary: i)
  case Nil
  then show ?case by simp
next
  case (Cons x xs)
  show ?case
  proof (cases "x = p")
    case True
    with Cons.prems show ?thesis by (simp add: remove_at_def)
  next
    case False
    with Cons.prems obtain j where "i = Suc j" "position p xs = Some j" by auto
    with Cons.IH False show ?thesis by (simp add: remove_at_def)
  qed
qed

text \<open>
  C29: A peer that disconnects leaves the list of members, and the node's own place moves down by
  one when the peer was before it. The handler panics, and with it the engine, when the peer is
  not a member, and also when it is the node itself.
\<close>

theorem peer_disconnected_removed:
  assumes "place_ok (mc_state m)" and "length (members m) \<le> 2 ^ 64"
  shows "if p \<notin> set (members m) then on_peer_disconnected p m = Some (Panicked (UnwrapFailed ''position'') m)
    else if p = ss_id (mc_state m) then
      \<exists>m'. on_peer_disconnected p m = Some (Panicked (UnwrapFailed ''position'') m')
    else \<exists>m'. on_peer_disconnected p m = Some (Return True m')
      \<and> members m' = remove1 p (members m) \<and> place_ok (mc_state m')
      \<and> ss_order (mc_state m') = (if the (position p (members m)) < unat (ss_order (mc_state m))
          then ss_order (mc_state m) - 1 else ss_order (mc_state m))"
proof -
  let ?me = "ss_id (mc_state m)" and ?n = "unat (ss_order (mc_state m))" and ?ms = "members m"
  have d: "distinct ?ms" and me: "position ?me ?ms = Some ?n"
    using assms(1) by (simp_all add: place_ok_def)
  note rule = on_peer_disconnected_wpx [OF assms(2), of _ _ p, unfolded Let_def]
  show ?thesis
  proof (cases "p \<in> set ?ms")
    case False
    have "wpx False (\<lambda>e m'. e = UnwrapFailed ''position'' \<and> m' = m) (on_peer_disconnected p) (\<lambda>_ _. False) m"
      using False by (simp add: rule)
    with False show ?thesis by (auto simp: wpx_def split: option.splits outcome.splits)
  next
    case True
    then obtain i where i: "position p ?ms = Some i" using position_in_set by fast
    note at = position_Some [OF i]
    have rest: "remove_at i ?ms = remove1 p ?ms" by (rule remove_at_position [OF i])
    show ?thesis
    proof (cases "p = ?me")
      case self: True
      have "?me \<notin> set (remove_at i ?ms)" using rest d self by simp
      then have "wpx False (\<lambda>e _. e = UnwrapFailed ''position'') (on_peer_disconnected p) (\<lambda>_ _. False) m"
        using True i by (simp add: rule)
      with True self show ?thesis by (auto simp: wpx_def split: option.splits outcome.splits)
    next
      case other: False
      let ?m' = "with_state (with_members (remove_at i ?ms)) m"
      have "?me \<in> set (remove_at i ?ms)"
        using rest other position_mem [OF me] by (simp add: in_set_remove1)
      then have "wp (on_peer_disconnected p) (\<lambda>r m'. r \<and> m' = ?m') m"
        using True i by (simp add: rule)
      then have run: "on_peer_disconnected p m = Some (Return True ?m')" by (auto simp: wp_iff)
      have ne: "i \<noteq> ?n" using at other position_Some [OF me] by auto
      have pos: "position ?me (remove_at i ?ms) = Some (if i < ?n then ?n - 1 else ?n)"
        using position_remove_at [OF d me _ ne] at by simp
      have n: "?n < 2 ^ 64" using unsigned_less [of "ss_order (mc_state m)"] by simp
      have "(of_nat (if i < ?n then ?n - 1 else ?n) :: u64) = (if i < ?n then ss_order (mc_state m) - 1 else ss_order (mc_state m))"
        by (simp add: of_nat_diff)
      moreover have "unat (of_nat (if i < ?n then ?n - 1 else ?n) :: u64) = (if i < ?n then ?n - 1 else ?n)"
        using n by (simp add: unat_of_nat)
      ultimately show ?thesis
        using run True other i rest pos d by (simp add: place_ok_def)
    qed
  qed
qed

theorem peer_disconnected_removed_witness:
  "(\<exists>m'. on_peer_disconnected [2] (voting_machine [] (0, 0)) = Some (Return True m') \<and> members m' = [[1], [3]])
    \<and> on_peer_disconnected [8] (voting_machine [] (0, 0))
        = Some (Panicked (UnwrapFailed ''position'') (voting_machine [] (0, 0)))"
proof -
  have m: "members (voting_machine [] (0, 0)) = [[1], [2], [3]]" "ss_id (mc_state (voting_machine [] (0, 0))) = [1]"
    by (simp_all add: sample_defs)
  have l: "length (members (voting_machine [] (0, 0))) \<le> 2 ^ 64" by (simp add: m)
  show ?thesis
    using peer_disconnected_removed [OF sample_place l, of "[2]"] peer_disconnected_removed [OF sample_place l, of "[8]"]
    by (simp add: m) blast
qed

section \<open>Publishing\<close>

text \<open>
  C30: Only an idle node in the first place publishes. It asks the validator for the summary, one
  second apart while the block is not ready, and finalizes the block, in the same way, with the
  word \<open>Snowball\<close> followed by that summary. Any other node does nothing, and the state and the
  queue never change.
\<close>

theorem try_publish_finalizes_block:
  assumes "publishing_ok False never env"
  shows "\<exists>m'. try_publish env m = Some (Return () m') \<and> mc_state m' = mc_state m \<and> mc_block_queue m' = mc_block_queue m
    \<and> (if ss_phase (mc_state m) = Idle \<and> ss_order (mc_state m) = 0
       then \<exists>w summary i j. fst (ev_summarize_block env w) = Inr summary
         \<and> io_trace (mc_io m') = io_trace (mc_io m)
            @ SummarizeBlock # concat (replicate i [Slept (from_secs 1), SummarizeBlock])
            @ FinalizeBlock (as_bytes ''Snowball'' @ summary)
              # concat (replicate j [Slept (from_secs 1), FinalizeBlock (as_bytes ''Snowball'' @ summary)])
       else m' = m)"
proof -
  have "wp (try_publish env) (\<lambda>_. published env m) m"
    by (rule try_publish_wpx [OF assms])
  then obtain m' where run: "try_publish env m = Some (Return () m')" and p: "published env m m'"
    by (auto simp: wp_iff)
  show ?thesis
  proof (cases "ss_phase (mc_state m) = Idle \<and> ss_order (mc_state m) = 0")
    case True
    then obtain b where "finalized env m b m'" using p by (auto simp: published_def)
    with run True show ?thesis
      unfolding finalized_def create_consensus_def by (intro exI [of _ m']) auto
  next
    case False
    with run p show ?thesis by (auto simp: published_def)
  qed
qed

theorem try_publish_finalizes_block_witness:
  "\<exists>m' i. try_publish sample_env fresh_machine = Some (Return () m')
    \<and> take 1 (io_trace (mc_io m')) = [SummarizeBlock] \<and> FinalizeBlock (as_bytes ''Snowball'' @ [1]) \<in> set (io_trace (mc_io m'))"
proof -
  have "io_trace (mc_io fresh_machine) = []" by (simp add: sample_defs)
  moreover have "fst (ev_summarize_block sample_env w) = Inr [1]" for w by (simp add: sample_env_def)
  ultimately show ?thesis
    using try_publish_finalizes_block [OF sample_publishing_ok, of fresh_machine] by fastforce
qed

end
