(* ===== verification/Program.thy ===== *)
theory Program
  imports Engine
begin

text \<open>
  \<open>main.rs\<close>: the command line, the level of the log and the start of the driver. The parsed
  arguments are a record (the crate \<open>clap\<close> parses them); the log configuration of \<open>log4rs\<close> and
  the SDK's \<open>ZmqDriver\<close> are arguments, of which the program only tells whether they fail.
\<close>

record options =
  op_connect :: "string option"
  op_verbose :: nat

datatype log_level = Warn | Info | Debug | Trace

definition endpoint :: "options \<Rightarrow> string" where
  "endpoint matches = (case op_connect matches of Some e \<Rightarrow> e | None \<Rightarrow> ''tcp://localhost:5050'')"

fun console_log_level :: "nat \<Rightarrow> log_level" where
  "console_log_level 0 = Warn"
| "console_log_level (Suc 0) = Info"
| "console_log_level (Suc (Suc 0)) = Debug"
| "console_log_level (Suc (Suc (Suc _))) = Trace"

text \<open>
  The exit status, and the call of the driver: its endpoint and the engine it runs.
\<close>

definition program_main ::
  "(log_level \<Rightarrow> 'e + 'c) \<Rightarrow> ('c \<Rightarrow> 'e + unit) \<Rightarrow> (string \<Rightarrow> snowball_engine \<Rightarrow> 'e + unit) \<Rightarrow> options
     \<Rightarrow> nat \<times> (string \<times> snowball_engine) option" where
  "program_main build_config init_config start matches =
     (let engine = snowball_engine_new default_config in
      case build_config (console_log_level (op_verbose matches)) of
        Inl err \<Rightarrow> (1, None)
      | Inr cfg \<Rightarrow> (case init_config cfg of
          Inl err \<Rightarrow> (1, None)
        | Inr _ \<Rightarrow> (case start (endpoint matches) engine of
            Inl err \<Rightarrow> (1, Some (endpoint matches, engine))
          | Inr _ \<Rightarrow> (0, Some (endpoint matches, engine)))))"

end
