(* ===== verification/Storage_Guards.thy ===== *)
theory Storage_Guards
  imports Storage
begin

text \<open>
  The guards of \<open>storage/memory.rs\<close> and \<open>storage/disk.rs\<close>, one by one, and the \<open>Storage\<close> trait of
  each store. A guard is a reference to its store; \<open>deref_mut\<close> hands out the data to be changed,
  and the drop of the disk store's write guard writes them. The engine's view of a store, \<open>put_data\<close>
  and \<open>drop_write_guard\<close>, is what a guard amounts to.
\<close>

section \<open>The store in memory\<close>

record 't mem_storage =
  mem_data :: 't

record 't mem_read_guard =
  mrg_storage :: "'t mem_storage"

record 't mem_write_guard =
  mwg_storage :: "'t mem_storage"

definition mem_read_guard_new :: "'t mem_storage \<Rightarrow> 't mem_read_guard" where
  "mem_read_guard_new sto = \<lparr>mrg_storage = sto\<rparr>"

definition mem_read_deref :: "'t mem_read_guard \<Rightarrow> 't" where
  "mem_read_deref g = mem_data (mrg_storage g)"

text \<open>\<open>Display\<close> of the guards and of the store is that of the data.\<close>

definition mem_read_display :: "('t \<Rightarrow> string) \<Rightarrow> 't mem_read_guard \<Rightarrow> string" where
  "mem_read_display fmt g = fmt (mem_read_deref g)"

definition mem_write_guard_new :: "'t mem_storage \<Rightarrow> 't mem_write_guard" where
  "mem_write_guard_new sto = \<lparr>mwg_storage = sto\<rparr>"

definition mem_write_deref :: "'t mem_write_guard \<Rightarrow> 't" where
  "mem_write_deref g = mem_data (mwg_storage g)"

text \<open>What the holder of the guard does to the data through the mutable reference is \<open>f\<close>.\<close>

definition mem_deref_mut :: "('t \<Rightarrow> 't) \<Rightarrow> 't mem_write_guard \<Rightarrow> 't mem_write_guard" where
  "mem_deref_mut f g = g\<lparr>mwg_storage := (mwg_storage g)\<lparr>mem_data := f (mem_data (mwg_storage g))\<rparr>\<rparr>"

definition mem_write_display :: "('t \<Rightarrow> string) \<Rightarrow> 't mem_write_guard \<Rightarrow> string" where
  "mem_write_display fmt g = fmt (mem_write_deref g)"

definition mem_storage_display :: "('t \<Rightarrow> string) \<Rightarrow> 't mem_storage \<Rightarrow> string" where
  "mem_storage_display fmt sto = fmt (mem_data sto)"

definition mem_read :: "'t mem_storage \<Rightarrow> 't mem_read_guard" where
  "mem_read sto = mem_read_guard_new sto"

definition mem_write :: "'t mem_storage \<Rightarrow> 't mem_write_guard" where
  "mem_write sto = mem_write_guard_new sto"

section \<open>The store on disk\<close>

text \<open>\<open>AtomicFile\<close> is known by its path.\<close>

record 't disk_storage =
  disk_data :: 't
  disk_file :: string

record 't disk_read_guard =
  drg_storage :: "'t disk_storage"

record 't disk_write_guard =
  dwg_storage :: "'t disk_storage"

definition disk_read_guard_new :: "'t disk_storage \<Rightarrow> 't disk_read_guard" where
  "disk_read_guard_new sto = \<lparr>drg_storage = sto\<rparr>"

definition disk_read_deref :: "'t disk_read_guard \<Rightarrow> 't" where
  "disk_read_deref g = disk_data (drg_storage g)"

definition disk_read_display :: "('t \<Rightarrow> string) \<Rightarrow> 't disk_read_guard \<Rightarrow> string" where
  "disk_read_display fmt g = fmt (disk_read_deref g)"

definition disk_write_guard_new :: "'t disk_storage \<Rightarrow> 't disk_write_guard" where
  "disk_write_guard_new sto = \<lparr>dwg_storage = sto\<rparr>"

definition disk_guard_drop ::
  "('w, 'm) env_scheme \<Rightarrow> ('t \<Rightarrow> string option) \<Rightarrow> 't disk_write_guard \<Rightarrow> (unit, 'w io) comp" where
  "disk_guard_drop env to_json g =
     bindM (unwrapM (ExpectFailed ''Couldn't convert value to string!'') (to_json (disk_data (dwg_storage g)))) (\<lambda>s.
     bindM (write_file env (disk_file (dwg_storage g)) s) (\<lambda>r.
     expectM (ExpectFailed ''File write failed while dropping DiskStorageWriteGuard!'') r))"

definition disk_write_deref :: "'t disk_write_guard \<Rightarrow> 't" where
  "disk_write_deref g = disk_data (dwg_storage g)"

definition disk_deref_mut :: "('t \<Rightarrow> 't) \<Rightarrow> 't disk_write_guard \<Rightarrow> 't disk_write_guard" where
  "disk_deref_mut f g = g\<lparr>dwg_storage := (dwg_storage g)\<lparr>disk_data := f (disk_data (dwg_storage g))\<rparr>\<rparr>"

definition disk_write_display :: "('t \<Rightarrow> string) \<Rightarrow> 't disk_write_guard \<Rightarrow> string" where
  "disk_write_display fmt g = fmt (disk_write_deref g)"

definition disk_storage_display :: "('t \<Rightarrow> string) \<Rightarrow> 't disk_storage \<Rightarrow> string" where
  "disk_storage_display fmt sto = fmt (disk_data sto)"

definition disk_read :: "'t disk_storage \<Rightarrow> 't disk_read_guard" where
  "disk_read sto = disk_read_guard_new sto"

definition disk_write :: "'t disk_storage \<Rightarrow> 't disk_write_guard" where
  "disk_write sto = disk_write_guard_new sto"

section \<open>A guarded update\<close>

text \<open>
  Take the write guard, change the data, drop the guard: what the engine does with the state in
  every turn. The store is free again afterwards.
\<close>

definition mem_update :: "('t \<Rightarrow> 't) \<Rightarrow> 't mem_storage \<Rightarrow> 't mem_storage" where
  "mem_update f sto = mwg_storage (mem_deref_mut f (mem_write sto))"

definition disk_update ::
  "('w, 'm) env_scheme \<Rightarrow> ('t \<Rightarrow> string option) \<Rightarrow> ('t \<Rightarrow> 't) \<Rightarrow> 't disk_storage
     \<Rightarrow> ('t disk_storage, 'w io) comp" where
  "disk_update env to_json f sto =
     (let g = disk_deref_mut f (disk_write sto) in
      thenM (disk_guard_drop env to_json g) (returnM (dwg_storage g)))"

lemmas mem_guard_defs = mem_update_def mem_deref_mut_def mem_write_def mem_write_guard_new_def
  mem_read_def mem_read_deref_def mem_read_guard_new_def
lemmas disk_guard_defs = disk_deref_mut_def disk_write_def disk_write_guard_new_def
  disk_read_def disk_read_deref_def disk_read_guard_new_def

text \<open>The stores as the engine sees them.\<close>

definition boxed_mem :: "'t mem_storage \<Rightarrow> 't storage" where
  "boxed_mem sto = MemStorage (mem_data sto)"

definition boxed_disk :: "'t disk_storage \<Rightarrow> 't storage" where
  "boxed_disk sto = DiskStorage (disk_data sto) (disk_file sto)"

interpretation mem: store mem_data "\<lambda>d sto. sto\<lparr>mem_data := d\<rparr>"
  by unfold_locales simp_all

interpretation dsk: store disk_data "\<lambda>d sto. sto\<lparr>disk_data := d\<rparr>"
  by unfold_locales simp_all

lemma mem_update_via: "mem_update f sto = mem.update_via f sto"
  by (simp add: mem_guard_defs mem.update_via_def)

lemma disk_guard_put: "dwg_storage (disk_deref_mut f (disk_write sto)) = dsk.update_via f sto"
  by (simp add: disk_guard_defs dsk.update_via_def)

text \<open>The drop of a guard is the one the engine's turns end with.\<close>

lemma disk_guard_drop_boxed:
  "disk_guard_drop env to_json g = drop_write_guard env to_json (boxed_disk (dwg_storage g))"
  by (simp add: disk_guard_drop_def drop_write_guard_def boxed_disk_def)

lemma boxed_put:
  "boxed_mem (mem.update_via f s) = sto.update_via f (boxed_mem s)"
  "boxed_disk (dsk.update_via f t) = sto.update_via f (boxed_disk t)"
  by (simp_all add: boxed_mem_def boxed_disk_def mem.update_via_def dsk.update_via_def sto.update_via_def)

lemma disk_update_via:
  "disk_update env to_json f sto = thenM (drop_write_guard env to_json (sto.update_via f (boxed_disk sto)))
     (returnM (dsk.update_via f sto))"
  by (simp add: disk_update_def Let_def disk_guard_drop_boxed disk_guard_put boxed_put)

section \<open>The file follows the data\<close>

text \<open>Opening a file does not change what is in it.\<close>

definition stable_files :: "('w, 'm) env_scheme \<Rightarrow> bool" where
  "stable_files env \<longleftrightarrow> (\<forall>path p w. fst (ev_open_file env path (snd (ev_open_file env p w))) = fst (ev_open_file env path w))"

lemma stable_filesD:
  "stable_files env \<Longrightarrow> ev_open_file env p w = (r, w') \<Longrightarrow> fst (ev_open_file env p w') = r"
  by (metis fst_conv snd_conv stable_files_def)

text \<open>The codec reads back what it has written.\<close>

definition reads_back :: "('t \<Rightarrow> string option) \<Rightarrow> (string \<Rightarrow> 't option) \<Rightarrow> bool" where
  "reads_back to_json of_json \<longleftrightarrow> (\<forall>d c. to_json d = Some c \<longrightarrow> of_json c = Some d)"

definition in_sync :: "('w, 'm) env_scheme \<Rightarrow> (string \<Rightarrow> 't option) \<Rightarrow> 't disk_storage \<Rightarrow> 'w io \<Rightarrow> bool" where
  "in_sync env of_json sto s \<longleftrightarrow> (\<exists>c. fst (ev_open_file env (disk_file sto) (io_world s)) = Contents c
     \<and> of_json c = Some (disk_data sto))"

lemma opened_in_sync:
  assumes "lawful_files env" and "stable_files env" and "reads_back to_json of_json"
    and "from_path env to_json of_json path dflt s = Some (Return (Inr (DiskStorage d path')) s')"
  shows "path' = path \<and> in_sync env of_json \<lparr>disk_data = d, disk_file = path\<rparr> s'"
  using assms
  by (auto simp: from_path_def bindM_def ask_def returnM_def write_file_def call_def in_sync_def reads_back_def
      lawful_files_def Let_def dest: stable_filesD [OF assms(2)] split: prod.splits file_contents.splits option.splits outcome.splits sum.splits)

text \<open>A write that fails leaves the file as it was: that is what \<open>atomicwrites\<close> is for.\<close>

definition atomic_files :: "('w, 'm) env_scheme \<Rightarrow> bool" where
  "atomic_files env \<longleftrightarrow> (\<forall>path c w e w'. ev_write_file env path c w = (Inl e, w') \<longrightarrow>
     fst (ev_open_file env path w') = fst (ev_open_file env path w))"

text \<open>The panics of a drop: there is no text for the data, or the write fails.\<close>

definition drop_panic :: "('t \<Rightarrow> string option) \<Rightarrow> 't \<Rightarrow> panic \<Rightarrow> bool" where
  "drop_panic to_json d p \<longleftrightarrow>
     (if to_json d = None then p = ExpectFailed ''Couldn't convert value to string!''
      else p = ExpectFailed ''File write failed while dropping DiskStorageWriteGuard!'')"

text \<open>A guarded update leaves the file with the new data, or panics and leaves it with the old.\<close>

lemma disk_update_wpx:
  assumes "lawful_files env" and "atomic_files env" and "reads_back to_json of_json" and "in_sync env of_json sto s"
  shows "wpx False (\<lambda>p s'. drop_panic to_json (f (disk_data sto)) p \<and> in_sync env of_json sto s') (disk_update env to_json f sto)
    (\<lambda>sto' s'. sto' = dsk.update_via f sto \<and> in_sync env of_json sto' s') s"
proof (cases "to_json (f (disk_data sto))")
  case None
  then show ?thesis
    using assms(4) by (simp add: disk_update_via drop_write_guard_def boxed_disk_def sto.update_via_def wp_simps drop_panic_def)
next
  case (Some c)
  obtain r w' where w: "ev_write_file env (disk_file sto) c (io_world s) = (r, w')" by fastforce
  show ?thesis
  proof (cases r)
    case (Inl e)
    then have "fst (ev_open_file env (disk_file sto) w') = fst (ev_open_file env (disk_file sto) (io_world s))"
      using assms(2) w by (auto simp: atomic_files_def)
    then show ?thesis
      using assms(4) Some w Inl
      by (simp add: disk_update_via drop_write_guard_def boxed_disk_def sto.update_via_def write_file_def wp_simps
          drop_panic_def in_sync_def)
  next
    case (Inr x)
    then have "fst (ev_open_file env (disk_file sto) w') = Contents c" "of_json c = Some (f (disk_data sto))"
      using assms(1,3) w Some by (auto simp: lawful_files_def reads_back_def)
    then show ?thesis
      using Some w Inr
      by (simp add: disk_update_via drop_write_guard_def boxed_disk_def sto.update_via_def dsk.update_via_def write_file_def
          wp_simps in_sync_def)
  qed
qed

lemma disk_updates_wpx:
  assumes "lawful_files env" and "atomic_files env" and "reads_back to_json of_json" and "in_sync env of_json sto s"
  shows "wpx False (\<lambda>p s'. \<exists>n<length fs. drop_panic to_json (disk_data (fold dsk.update_via (take (Suc n) fs) sto)) p
      \<and> in_sync env of_json (fold dsk.update_via (take n fs) sto) s') (foldM (disk_update env to_json) fs sto)
    (\<lambda>sto' s'. sto' = fold dsk.update_via fs sto \<and> in_sync env of_json sto' s') s"
  using assms(4)
proof (induction fs arbitrary: sto s)
  case Nil
  then show ?case by (simp add: wp_simps)
next
  case (Cons f fs)
  have data: "disk_data (dsk.update_via f sto) = f (disk_data sto)" by (simp add: dsk.update_via_def)
  show ?case
    unfolding foldM.simps wpx_bindM
  proof (rule wpx_mono [OF disk_update_wpx [OF assms(1-3) Cons.prems, where f = f]])
    fix p s'
    assume "drop_panic to_json (f (disk_data sto)) p \<and> in_sync env of_json sto s'"
    then show "\<exists>n<length (f # fs). drop_panic to_json (disk_data (fold dsk.update_via (take (Suc n) (f # fs)) sto)) p
        \<and> in_sync env of_json (fold dsk.update_via (take n (f # fs)) sto) s'"
      using data by (intro exI [of _ 0]) simp
  next
    fix sto' s'
    assume u: "sto' = dsk.update_via f sto \<and> in_sync env of_json sto' s'"
    then have "in_sync env of_json sto' s'" by blast
    from Cons.IH [OF this]
    show "wpx False (\<lambda>p s'. \<exists>n<length (f # fs). drop_panic to_json (disk_data (fold dsk.update_via (take (Suc n) (f # fs)) sto)) p
        \<and> in_sync env of_json (fold dsk.update_via (take n (f # fs)) sto) s') (foldM (disk_update env to_json) fs sto')
      (\<lambda>sto' s'. sto' = fold dsk.update_via (f # fs) sto \<and> in_sync env of_json sto' s') s'"
      by (rule wpx_mono) (use u in \<open>auto intro: exI [of _ "Suc _"]\<close>)
  qed simp
qed

lemma disk_file_updates: "disk_file (fold dsk.update_via fs sto) = disk_file sto"
  by (induction fs arbitrary: sto) (simp_all add: dsk.update_via_def)

lemma in_sync_reopens:
  assumes "in_sync env of_json sto s"
  shows "\<exists>s'. from_path env to_json of_json (disk_file sto) dflt s = Some (Return (Inr (boxed_disk sto)) s')"
  using assms
  by (auto simp: in_sync_def from_path_def bindM_def ask_def returnM_def boxed_disk_def split: prod.splits)

end
