(* ===== verification/Support_Properties.thy ===== *)
theory Support_Properties
  imports Node_Properties Program Storage_Guards
begin

text \<open>
  The properties of the parts around the node: the settings of \<open>config.rs\<close> and the retries of
  \<open>timing.rs\<close> that read them, the fresh state of \<open>state.rs\<close>, the stores with
  their guards, and what the engine does when one of them fails.
\<close>

section \<open>Settings\<close>

text \<open>
  Printing and parsing numbers. \<open>parse::<u64>\<close> reads back every number below \<open>2 ^ 64\<close> that is
  printed in decimal, as that machine integer, and refuses every larger one.
\<close>

lemma parse_u64_reads_decimal:
  "parse_u64 (decimal n) = (if n < 2 ^ 64 then Some (of_nat n) else None)
    \<and> parse_u64 (decimal (unat w)) = Some w"
  using unsigned_less [of w] by (simp add: parse_u64_decimal_lemma)

text \<open>
  What an optional setting is to do: its value when it is there and parses, the old value otherwise.
\<close>

definition optional :: "(string \<Rightarrow> 't option) \<Rightarrow> settings \<Rightarrow> string \<Rightarrow> 't \<Rightarrow> 't" where
  "optional parse settings key old = (case Option.bind (settings key) parse of None \<Rightarrow> old | Some v \<Rightarrow> v)"

lemma optional_set_if_valid: "set_if_valid parse settings key old = optional parse settings key old"
  by (simp add: set_if_valid_def optional_def split: option.split)

lemma optional_millis:
  "merge_millis_setting_if_set settings old key = optional (map_option from_millis \<circ> parse_u64) settings key old"
  by (simp add: merge_millis_setting_if_set_def merge_setting_if_set_and_map_def optional_def split: option.split)

text \<open>
  C31: Which settings \<open>load_settings\<close> accepts, once it has them. It returns a configuration
  exactly when the members decode and \<open>alfa\<close>, \<open>beta\<close> and \<open>k\<close> are there and are numbers, with these
  values, and panics on any other settings (so these four are required, although the comment on
  the structure calls only the members so). Each of the eleven optional settings, the two durations
  in milliseconds and the nine of the Byzantine tests, has the value its own key gives when that is
  there and parses, and keeps its value otherwise. The remaining fields, the storage location
  among them, cannot be set.
\<close>

theorem settings_accepted:
  "\<exists>r. apply_settings env settings cfg s = Some r \<and> (case r of
      Return cfg' s' \<Rightarrow> s' = s
        \<and> decoded_members env settings = Some (cfg_members cfg')
        \<and> required settings ''sawtooth.consensus.algorithm.alfa'' = Some (cfg_alfa cfg')
        \<and> required settings ''sawtooth.consensus.algorithm.beta'' = Some (cfg_beta cfg')
        \<and> required settings ''sawtooth.consensus.algorithm.k'' = Some (cfg_k cfg')
        \<and> cfg_block_publishing_delay cfg' = optional (map_option from_millis \<circ> parse_u64) settings
            ''sawtooth.consensus.algorithm.block_publishing_delay'' (cfg_block_publishing_delay cfg)
        \<and> cfg_hang_timeout cfg' = optional (map_option from_millis \<circ> parse_u64) settings
            ''sawtooth.consensus.algorithm.hang_timeout'' (cfg_hang_timeout cfg)
        \<and> cfg_byzantine_enabled cfg' = optional parse_bool settings
            ''sawtooth.byzantine.enabled'' (cfg_byzantine_enabled cfg)
        \<and> cfg_byzantine_max_churn_timeout_millis cfg' = optional parse_u64 settings
            ''sawtooth.byzantine.parameter.max_churn_timeout'' (cfg_byzantine_max_churn_timeout_millis cfg)
        \<and> cfg_byzantine_churn_idx cfg' = optional (ev_json_u64s env) settings
            ''sawtooth.byzantine.parameter.churn_idx'' (cfg_byzantine_churn_idx cfg)
        \<and> cfg_byzantine_hang_idx cfg' = optional (ev_json_u64s env) settings
            ''sawtooth.byzantine.parameter.hang_idx'' (cfg_byzantine_hang_idx cfg)
        \<and> cfg_byzantine_max_sleep_delay_millis cfg' = optional parse_u64 settings
            ''sawtooth.byzantine.parameter.max_sleep_delay'' (cfg_byzantine_max_sleep_delay_millis cfg)
        \<and> cfg_byzantine_sleep_idx cfg' = optional (ev_json_u64s env) settings
            ''sawtooth.byzantine.parameter.sleep_idx'' (cfg_byzantine_sleep_idx cfg)
        \<and> cfg_byzantine_duplicate_idx cfg' = optional (ev_json_u64s env) settings
            ''sawtooth.byzantine.parameter.duplicate_idx'' (cfg_byzantine_duplicate_idx cfg)
        \<and> cfg_byzantine_spurious_idx cfg' = optional (ev_json_u64s env) settings
            ''sawtooth.byzantine.parameter.spurious_idx'' (cfg_byzantine_spurious_idx cfg)
        \<and> cfg_byzantine_wrong_decision_idx cfg' = optional (ev_json_u64s env) settings
            ''sawtooth.byzantine.parameter.wrong_decision_idx'' (cfg_byzantine_wrong_decision_idx cfg)
        \<and> cfg_storage_location cfg' = cfg_storage_location cfg
        \<and> cfg_update_recv_timeout cfg' = cfg_update_recv_timeout cfg
        \<and> cfg_exponential_retry_base cfg' = cfg_exponential_retry_base cfg
        \<and> cfg_exponential_retry_max cfg' = cfg_exponential_retry_max cfg
    | Panicked p s' \<Rightarrow> s' = s
        \<and> (decoded_members env settings = None
           \<or> required settings ''sawtooth.consensus.algorithm.alfa'' = None
           \<or> required settings ''sawtooth.consensus.algorithm.beta'' = None
           \<or> required settings ''sawtooth.consensus.algorithm.k'' = None))"
  (is "\<exists>r. _ \<and> ?ok r")
proof -
  have "wpx False (\<lambda>p s'. ?ok (Panicked p s')) (apply_settings env settings cfg) (\<lambda>c s'. ?ok (Return c s')) s"
    by (cases "decoded_members env settings"; cases "required settings ''sawtooth.consensus.algorithm.alfa''";
        cases "required settings ''sawtooth.consensus.algorithm.beta''";
        cases "required settings ''sawtooth.consensus.algorithm.k''")
      (simp_all add: apply_settings_def wp_simps wpx_get_members optional_millis optional_set_if_valid)
  then show ?thesis
    unfolding wpx_def by (cases "apply_settings env settings cfg s") (auto split: outcome.splits)
qed

text \<open>The states of the world in which the settings are asked for, with the waits in between.\<close>

primrec settings_asked ::
  "('w, 'm) env_scheme \<Rightarrow> config \<Rightarrow> block_id \<Rightarrow> 'w io \<Rightarrow> nat \<Rightarrow> 'w io" where
  "settings_asked env cfg b s 0 = s"
| "settings_asked env cfg b s (Suc i) =
     (let s' = settings_asked env cfg b s i;
          d = backoff (cfg_exponential_retry_base cfg) (cfg_exponential_retry_max cfg) i
      in s'\<lparr>io_world := ev_sleep env d (snd (ev_get_settings env b setting_keys (io_world s'))),
            io_trace := io_trace s' @ [GetSettings b setting_keys, Slept d]\<rparr>)"

text \<open>
  C32: \<open>load_settings\<close> asks the validator until it answers. When the first \<open>n\<close> requests fail and
  the next one succeeds, the settings of that answer are applied, after exactly \<open>n + 1\<close> requests
  with the delays of the backoff between them.
\<close>

theorem load_settings_retries:
  assumes "\<forall>i<n. \<exists>e. fst (ev_get_settings env b setting_keys (io_world (settings_asked env cfg b s i))) = Inl e"
    and "ev_get_settings env b setting_keys (io_world (settings_asked env cfg b s n)) = (Inr settings, w)"
  shows "load_settings env cfg b s = apply_settings env settings cfg
      ((settings_asked env cfg b s n)\<lparr>io_world := w,
         io_trace := io_trace (settings_asked env cfg b s n) @ [GetSettings b setting_keys]\<rparr>)
    \<and> io_trace (settings_asked env cfg b s n) = io_trace s @ concat (map (\<lambda>i. [GetSettings b setting_keys,
        Slept (backoff (cfg_exponential_retry_base cfg) (cfg_exponential_retry_max cfg) i)]) [0..<n])"
proof -
  let ?st = "settings_asked env cfg b s"
  let ?mid = "\<lambda>i. (?st i)\<lparr>io_world := snd (ev_get_settings env b setting_keys (io_world (?st i))),
    io_trace := io_trace (?st i) @ [GetSettings b setting_keys]\<rparr>"
  have "retry_loop (cfg_exponential_retry_max cfg) (get_settings env b setting_keys) (sleep env)
      (cfg_exponential_retry_base cfg) (?st 0)
    = Some (Return settings ((?st n)\<lparr>io_world := w, io_trace := io_trace (?st n) @ [GetSettings b setting_keys]\<rparr>))"
  proof (rule retry_loop_returns [where e = "\<lambda>i. projl (fst (ev_get_settings env b setting_keys (io_world (?st i))))"
        and mid = ?mid and n = n and st = ?st])
    fix i assume "i < n"
    then obtain e where "fst (ev_get_settings env b setting_keys (io_world (?st i))) = Inl e"
      using assms(1) by blast
    then show "get_settings env b setting_keys (?st i)
        = Some (Return (Inl (projl (fst (ev_get_settings env b setting_keys (io_world (?st i)))))) (?mid i))"
      by (simp add: get_settings_def call_def split_beta)
  next
    fix i
    show "sleep env (backoff (cfg_exponential_retry_base cfg) (cfg_exponential_retry_max cfg) i) (?mid i)
        = Some (Return () (?st (Suc i)))"
      by (simp add: sleep_def call_def Let_def)
  next
    show "get_settings env b setting_keys (?st n)
        = Some (Return (Inr settings) ((?st n)\<lparr>io_world := w, io_trace := io_trace (?st n) @ [GetSettings b setting_keys]\<rparr>))"
      using assms(2) by (simp add: get_settings_def call_def)
  qed
  moreover have "io_trace (?st n) = io_trace s @ concat (map (\<lambda>i. [GetSettings b setting_keys,
        Slept (backoff (cfg_exponential_retry_base cfg) (cfg_exponential_retry_max cfg) i)]) [0..<n])"
    by (induction n) (simp_all add: Let_def)
  ultimately show ?thesis
    by (simp add: load_settings_def retry_until_ok_def bindM_def)
qed

text \<open>A validator that answers once its clock shows two tenths of a second.\<close>

definition slow_env :: "world node_env" where
  "slow_env = sample_env\<lparr>ev_get_settings := (\<lambda>_ _ w.
     (if wd_clock w < from_millis 200 then Inl BlockNotReady else Inr sample_settings, w))\<rparr>"

theorem load_settings_retries_witness:
  "load_settings slow_env default_config [0] sample_io = apply_settings slow_env sample_settings default_config
     \<lparr>io_world = \<lparr>wd_draws = 0, wd_clock = from_millis 300, wd_files = Map.empty\<rparr>,
      io_trace = [GetSettings [0] setting_keys, Slept (from_millis 100),
        GetSettings [0] setting_keys, Slept (from_millis 200), GetSettings [0] setting_keys]\<rparr>"
proof -
  let ?e = "slow_env" and ?b = "[0] :: block_id"
  have ms: "from_millis 100 + from_millis 200 = from_millis 300" "from_millis 100 < from_millis 200"
    "\<not> from_millis 300 < from_millis 200" "0 < from_millis 200"
    by (simp_all add: from_millis_def)
  have b: "backoff (from_millis 100) (from_millis 60000) 0 = from_millis 100"
    "backoff (from_millis 100) (from_millis 60000) (Suc 0) = from_millis 200"
    by (simp_all add: backoff_def next_delay_def checked_mul2_def from_millis_def duration_max_def)
  have cfg: "cfg_exponential_retry_base default_config = from_millis 100"
    "cfg_exponential_retry_max default_config = from_millis 60000"
    by (simp_all add: default_config_def)
  have world: "ev_get_settings ?e x ks w = (if wd_clock w < from_millis 200 then Inl BlockNotReady else Inr sample_settings, w)"
    "ev_sleep ?e d w = w\<lparr>wd_clock := wd_clock w + d\<rparr>" for x ks w d
    by (simp_all add: slow_env_def sample_env_def)
  have one: "settings_asked ?e default_config ?b sample_io (Suc 0)
      = \<lparr>io_world = \<lparr>wd_draws = 0, wd_clock = from_millis 100, wd_files = Map.empty\<rparr>,
         io_trace = [GetSettings [0] setting_keys, Slept (from_millis 100)]\<rparr>"
    by (simp add: world cfg b sample_io_def Let_def)
  have two: "settings_asked ?e default_config ?b sample_io (Suc (Suc 0))
      = \<lparr>io_world = \<lparr>wd_draws = 0, wd_clock = from_millis 300, wd_files = Map.empty\<rparr>,
         io_trace = [GetSettings [0] setting_keys, Slept (from_millis 100),
           GetSettings [0] setting_keys, Slept (from_millis 200)]\<rparr>"
    unfolding settings_asked.simps(2) [of _ _ _ _ "Suc 0"] one Let_def by (simp add: world cfg b ms)
  have "\<exists>e. fst (ev_get_settings ?e ?b setting_keys (io_world (settings_asked ?e default_config ?b sample_io i))) = Inl e"
    if "i < Suc (Suc 0)" for i
  proof -
    have "i = 0 \<or> i = Suc 0" using that by auto
    then show ?thesis
    proof
      assume "i = 0"
      then show ?thesis by (simp add: world sample_io_def ms)
    next
      assume "i = Suc 0"
      then show ?thesis by (simp only: one) (simp add: world ms)
    qed
  qed
  then show ?thesis
    using load_settings_retries [of "Suc (Suc 0)" ?e ?b default_config sample_io sample_settings
        "\<lparr>wd_draws = 0, wd_clock = from_millis 300, wd_files = Map.empty\<rparr>"]
    by (simp only: two) (simp add: world ms)
qed

section \<open>The fresh state\<close>

text \<open>
  C36: \<open>SnowballState::new\<close>. A node that is among the members starts idle, in its place in the
  list, one above the chain head, with nobody awaited and the counters at zero; its members and
  parameters are those of the configuration, and they satisfy what the algorithm needs when the
  configuration does. A node that is not a member panics.
\<close>

theorem fresh_state_of_config:
  assumes "config_ok cfg"
  shows "if p \<notin> set (cfg_members cfg)
    then snowball_state_new p n cfg s = Some (Panicked (UnwrapFailed ''position'') s)
    else \<exists>st. snowball_state_new p n cfg s = Some (Return st s)
      \<and> startable st \<and> ss_id st = p \<and> ss_seq_num st = n + 1 \<and> ss_member_ids st = cfg_members cfg
      \<and> cfg_members cfg ! unat (ss_order st) = p
      \<and> ss_response_buffer st = (0, 0) \<and> ss_decision_array st = (0, 0) \<and> ss_confidence_counter st = 0
      \<and> ss_alfa st = cfg_alfa cfg \<and> ss_beta st = cfg_beta cfg \<and> ss_k st = cfg_k cfg"
proof (cases "p \<in> set (cfg_members cfg)")
  case False
  then have "position p (cfg_members cfg) = None" by simp
  with False show ?thesis
    by (simp add: snowball_state_new_def bindM_def unwrapM_def panicM_def del: position_None)
next
  case True
  then obtain i where i: "position p (cfg_members cfg) = Some i" using position_in_set by fast
  have "wpx False (\<lambda>_ _. False) (snowball_state_new p n cfg) (\<lambda>st _. startable st) s"
    using True by (simp add: snowball_state_new_startable [OF assms])
  moreover have "unat (of_nat i :: u64) = i"
    using position_Some [OF i] assms by (auto simp: unat_of_nat config_ok_def)
  ultimately show ?thesis
    using True i position_Some [OF i]
    by (simp add: snowball_state_new_def bindM_def unwrapM_def returnM_def wpx_def)
qed

theorem fresh_state_of_config_witness:
  "\<exists>st. snowball_state_new [2] 5 sample_config () = Some (Return st ()) \<and> ss_seq_num st = 6 \<and> ss_phase st = Idle"
proof -
  have "config_ok sample_config" "cfg_members sample_config = [[1], [2], [3]]"
    by (simp_all add: config_ok_def sample_config_def)
  with fresh_state_of_config [of sample_config "[2]" 5 "()"] show ?thesis
    by (auto simp: startable_def)
qed

section \<open>Stores\<close>

text \<open>
  C37: Which store a location gives, for every text. \<open>memory\<close> holds the default. A text that begins
  with \<open>disk\<close> and has a \<open>+\<close>, whatever stands between the two, opens the file named after the first \<open>+\<close>:
  readable contents are the data, unreadable ones panic, and when there is no file the
  default is written to it first, which panics when it has no text or cannot be written. A text that begins with
  \<open>disk\<close> without a \<open>+\<close>, and any other text, is an error.
\<close>

theorem storage_of_location:
  "get_storage env to_json of_json location (returnM d) io =
    (if location = ''memory'' then Some (Return (Inr (MemStorage d)) io)
     else if take 4 location \<noteq> ''disk'' then Some (Return (Inl (''Unknown storage location type: '' @ location)) io)
     else if CHR ''+'' \<notin> set location then Some (Return (Inl (''Invalid location: '' @ location)) io)
     else let path = tl (dropWhile (\<lambda>c. c \<noteq> CHR ''+'') location) in
       (case ev_open_file env path (io_world io) of
        (Contents c, w) \<Rightarrow> (case of_json c of
            Some d' \<Rightarrow> Some (Return (Inr (DiskStorage d' path)) (io\<lparr>io_world := w\<rparr>))
          | None \<Rightarrow> Some (Panicked (UnwrapFailed ''from_path'') (io\<lparr>io_world := w\<rparr>)))
      | (ReadFailed e, w) \<Rightarrow> Some (Panicked (UnwrapFailed ''from_path'') (io\<lparr>io_world := w\<rparr>))
      | (OpenFailed, w) \<Rightarrow> (case to_json d of
            None \<Rightarrow> Some (Panicked (UnwrapFailed ''from_path'') (io\<lparr>io_world := w\<rparr>))
          | Some c \<Rightarrow> (case ev_write_file env path c w of
                  (Inl e, w') \<Rightarrow> Some (Panicked (UnwrapFailed ''from_path'')
                    (io\<lparr>io_world := w', io_trace := io_trace io @ [WroteFile path c]\<rparr>))
                | (Inr _, w') \<Rightarrow> Some (Return (Inr (DiskStorage d path))
                    (io\<lparr>io_world := w', io_trace := io_trace io @ [WroteFile path c]\<rparr>))))))"
proof (cases "take 4 location = ''disk'' \<and> CHR ''+'' \<in> set location")
  case False
  then show ?thesis
    by (auto simp: get_storage_def mem_storage_new_def bindM_def returnM_def splitn2_eq)
next
  case True
  let ?path = "tl (dropWhile (\<lambda>c. c \<noteq> CHR ''+'') location)"
  have "location \<noteq> ''memory''" using True by auto
  then have run: "get_storage env to_json of_json location (returnM d) io
      = bindM (from_path env to_json of_json ?path (returnM d)) (\<lambda>r.
         bindM (expectM (UnwrapFailed ''from_path'') r) (\<lambda>s. returnM (Inr s))) io"
    using True by (simp add: get_storage_def splitn2_eq Let_def)
  show ?thesis
    using True \<open>location \<noteq> ''memory''\<close>
    by (simp add: run from_path_def bindM_def ask_def returnM_def expectM_def panicM_def write_file_def call_def Let_def
        split: prod.splits file_contents.splits option.splits sum.splits)
qed

theorem storage_of_location_witness:
  "get_storage sample_env (\<lambda>d. Some (decimal (unat d))) parse_u64 ''disks+a+b'' (returnM 7) sample_io
     = Some (Return (Inr (DiskStorage 7 ''a+b'')) (sample_io
         \<lparr>io_world := \<lparr>wd_draws = 0, wd_clock = 0, wd_files = [''a+b'' \<mapsto> decimal (unat (7 :: u64))]\<rparr>,
          io_trace := [WroteFile ''a+b'' (decimal (unat (7 :: u64)))]\<rparr>))"
  unfolding storage_of_location by (simp add: sample_env_def sample_io_def Let_def)

lemma mem_updates: "fold mem_update fs = fold mem.update_via fs"
  by (simp add: mem_update_via [abs_def])

text \<open>
  C39: A store gives back what was put into it through its guards. Open a disk store and update
  its data any number of times, each time with a write guard that is dropped afterwards. This
  always ends. If it returns, a read guard yields the data with all updates applied, as it does for the
  memory store, and opening the file anew, as the engine does when it is restarted, yields them
  too, whatever the default would be. Otherwise the drop of one of the guards has panicked, for want of a
  text for its data or because the file could not be written, and opening the file anew yields the
  data with the updates before that one: a failed update never damages the file. The codec need
  not encode all data and writes may fail; what is assumed is that it reads back what it wrote, and
  that a write puts its text into the file or fails and leaves the file alone.
\<close>

theorem store_follows_updates:
  assumes "lawful_files env" and "stable_files env" and "atomic_files env" and "reads_back to_json of_json"
    and "from_path env to_json of_json path dflt s = Some (Return (Inr (DiskStorage d path)) s1)"
  shows "\<exists>out. foldM (disk_update env to_json) fs \<lparr>disk_data = d, disk_file = path\<rparr> s1 = Some out \<and> (case out of
      Return sto s2 \<Rightarrow> disk_read_deref (disk_read sto) = fold (\<lambda>f. f) fs d
        \<and> mem_read_deref (mem_read (fold mem_update fs \<lparr>mem_data = d\<rparr>)) = fold (\<lambda>f. f) fs d
        \<and> (\<exists>s3. from_path env to_json of_json path dflt' s2 = Some (Return (Inr (DiskStorage (fold (\<lambda>f. f) fs d) path)) s3))
    | Panicked p s2 \<Rightarrow> (\<exists>n<length fs.
        p = (if to_json (fold (\<lambda>f. f) (take (Suc n) fs) d) = None
             then ExpectFailed ''Couldn't convert value to string!''
             else ExpectFailed ''File write failed while dropping DiskStorageWriteGuard!'')
        \<and> (\<exists>s3. from_path env to_json of_json path dflt' s2
            = Some (Return (Inr (DiskStorage (fold (\<lambda>f. f) (take n fs) d) path)) s3))))"
proof -
  let ?open = "\<lparr>disk_data = d, disk_file = path\<rparr>"
  have data: "disk_data (fold dsk.update_via gs ?open) = fold (\<lambda>f. f) gs d" "disk_file (fold dsk.update_via gs ?open) = path" for gs
    using dsk.get_updates [of gs ?open] disk_file_updates [of gs ?open] by simp_all
  have reopened: "\<exists>s3. from_path env to_json of_json path dflt' s2 = Some (Return (Inr (DiskStorage (fold (\<lambda>f. f) gs d) path)) s3)"
    if "in_sync env of_json (fold dsk.update_via gs ?open) s2" for gs s2
    using in_sync_reopens [OF that, of to_json dflt'] by (simp add: data boxed_disk_def)
  have mem: "mem_data (fold mem.update_via fs \<lparr>mem_data = d\<rparr>) = fold (\<lambda>f. f) fs d"
    using mem.get_updates [of fs "\<lparr>mem_data = d\<rparr>"] by simp
  have "in_sync env of_json ?open s1" using opened_in_sync [OF assms(1,2,4,5)] by simp
  from disk_updates_wpx [OF assms(1,3,4) this, of fs] show ?thesis
    by (auto simp: wpx_def drop_panic_def data disk_guard_defs mem_guard_defs(3-) mem_updates mem
        split: option.splits outcome.splits intro: reopened)
qed

text \<open>Two updates with a codec for numbers below 100, and with one for numbers below 10.\<close>

definition small_json :: "nat \<Rightarrow> u64 \<Rightarrow> string option" where
  "small_json n d = (if unat d < n then Some (decimal (unat d)) else None)"

definition wrote_seven :: "world io" where
  "wrote_seven = sample_io\<lparr>io_world := \<lparr>wd_draws = 0, wd_clock = 0, wd_files = [''f'' \<mapsto> decimal 7]\<rparr>,
     io_trace := [WroteFile ''f'' (decimal 7)]\<rparr>"

lemma small_json_reads_back: "reads_back (small_json n) parse_u64"
  using parse_u64_reads_decimal [of 0] by (auto simp: reads_back_def small_json_def split: if_splits)

lemma small_json_opens:
  "7 < n \<Longrightarrow> from_path sample_env (small_json n) parse_u64 ''f'' (returnM 7) sample_io
     = Some (Return (Inr (DiskStorage 7 ''f'')) wrote_seven)"
  by (simp add: from_path_def bindM_def ask_def returnM_def write_file_def call_def sample_env_def sample_io_def
      small_json_def wrote_seven_def)

theorem store_follows_updates_witness:
  "(\<exists>sto s2 s3. foldM (disk_update sample_env (small_json 100)) [\<lambda>x. x + 1, \<lambda>x. 2 * x]
        \<lparr>disk_data = (7 :: u64), disk_file = ''f''\<rparr> wrote_seven = Some (Return sto s2)
      \<and> disk_read_deref (disk_read sto) = 16
      \<and> from_path sample_env (small_json 100) parse_u64 ''f'' (returnM 0) s2
        = Some (Return (Inr (DiskStorage 16 ''f'')) s3))
    \<and> (\<exists>p s2 s3. foldM (disk_update sample_env (small_json 10)) [\<lambda>x. x + 1, \<lambda>x. 2 * x]
        \<lparr>disk_data = (7 :: u64), disk_file = ''f''\<rparr> wrote_seven = Some (Panicked p s2)
      \<and> from_path sample_env (small_json 10) parse_u64 ''f'' (returnM 0) s2
        = Some (Return (Inr (DiskStorage 8 ''f'')) s3))"
proof -
  let ?fs = "[\<lambda>x. x + 1, \<lambda>x. 2 * x] :: (u64 \<Rightarrow> u64) list" and ?open = "\<lparr>disk_data = (7 :: u64), disk_file = ''f''\<rparr>"
  have files: "lawful_files sample_env" "stable_files sample_env" "atomic_files sample_env"
    by (simp_all add: lawful_files_def stable_files_def atomic_files_def sample_env_def)
  have u: "disk_update sample_env (small_json n) f \<lparr>disk_data = x, disk_file = ''f''\<rparr> w =
      (if unat (f x) < n then Some (Return \<lparr>disk_data = f x, disk_file = ''f''\<rparr> (w\<lparr>io_world :=
         snd (ev_write_file sample_env ''f'' (decimal (unat (f x))) (io_world w)), io_trace := io_trace w @ [WroteFile ''f'' (decimal (unat (f x)))]\<rparr>))
       else Some (Panicked (ExpectFailed ''Couldn't convert value to string!'') w))" for n f x w
    by (simp add: disk_update_via drop_write_guard_def boxed_disk_def sto.update_via_def dsk.update_via_def thenM_def bindM_def
        unwrapM_def panicM_def returnM_def expectM_def write_file_def call_def small_json_def sample_env_def)
  obtain sto s2 where ok: "foldM (disk_update sample_env (small_json 100)) ?fs ?open wrote_seven = Some (Return sto s2)"
    by (simp add: bindM_def u returnM_def)
  obtain s2' where bad: "foldM (disk_update sample_env (small_json 10)) ?fs ?open wrote_seven
      = Some (Panicked (ExpectFailed ''Couldn't convert value to string!'') s2')"
    by (simp add: bindM_def u)
  have "\<exists>s3. from_path sample_env (small_json 100) parse_u64 ''f'' (returnM 0) s2 = Some (Return (Inr (DiskStorage 16 ''f'')) s3)"
    "disk_read_deref (disk_read sto) = 16"
    using store_follows_updates [OF files small_json_reads_back small_json_opens, of 100 ?fs "returnM 0"] ok by simp_all
  moreover have "\<exists>s3. from_path sample_env (small_json 10) parse_u64 ''f'' (returnM 0) s2' = Some (Return (Inr (DiskStorage 8 ''f'')) s3)"
  proof -
    have panicked: "\<exists>n<length fs. p = (if small_json 10 (fold (\<lambda>f. f) (take (Suc n) fs) 7) = None
             then ExpectFailed ''Couldn't convert value to string!''
             else ExpectFailed ''File write failed while dropping DiskStorageWriteGuard!'')
        \<and> (\<exists>s3. from_path sample_env (small_json 10) parse_u64 ''f'' (returnM 0) s2
            = Some (Return (Inr (DiskStorage (fold (\<lambda>f. f) (take n fs) 7) ''f'')) s3))"
      if "foldM (disk_update sample_env (small_json 10)) fs ?open wrote_seven = Some (Panicked p s2)" for fs p s2
      using store_follows_updates [OF files small_json_reads_back small_json_opens, of 10 fs "returnM 0"] that by simp
    from panicked [OF bad] obtain n s3 where n: "n < length ?fs" "small_json 10 (fold (\<lambda>f. f) (take (Suc n) ?fs) 7) = None"
      and o: "from_path sample_env (small_json 10) parse_u64 ''f'' (returnM 0) s2'
          = Some (Return (Inr (DiskStorage (fold (\<lambda>f. f) (take n ?fs) 7) ''f'')) s3)"
      by (auto simp del: take_Suc_Cons fold_simps split: if_splits)
    have "n = 1" using n by (cases n) (auto simp: small_json_def)
    with o show ?thesis by auto
  qed
  ultimately show ?thesis using ok bad by blast
qed

text \<open>The drop at the end of a turn is that of the disk store's guard, after the turn has changed the state through it.\<close>

lemma drop_state_guard_disk:
  "drop_state_guard env (boxed_disk sto) m
     = ioM (disk_guard_drop env (nv_state_to_json env) (disk_deref_mut (\<lambda>_. mc_state m) (disk_write sto))) m"
  by (simp add: drop_state_guard_def bindM_def getM_def disk_guard_drop_boxed disk_guard_put boxed_put sto.update_via_def)

text \<open>
  JSON has no map whose keys are byte vectors, as two maps of the state are: such a map has a text
  only while it is empty.
\<close>

definition text_keys :: "snowball_state \<Rightarrow> bool" where
  "text_keys st \<longleftrightarrow> ss_waiting_response_map st = [] \<and> ms_convergenza (ss_measurements st) = Map.empty"

text \<open>
  C38: The disk store survives a crash between turns, or it ends the engine. A turn whose work is done
  ends with the drop of its write guard, and either the turn returns, and then opening the
  store again yields exactly the state with which the turn ended; or the drop panics, because
  there is no text for the state or the write has failed. A turn that leaves a peer awaited, or the
  measured time of a block, always ends in that panic, since \<open>serde_json\<close> writes no map whose keys are
  byte vectors.
\<close>

theorem turn_survives_restart:
  assumes "lawful_files env" and "reads_back (nv_state_to_json env) (nv_state_of_json env)"
    and "\<forall>st. \<not> text_keys st \<longrightarrow> nv_state_to_json env st = None"
    and "turn_body env i lv m = Some (Return r m1)"
  shows "\<exists>out. turn env (DiskStorage d path) i lv m = Some out \<and> (case out of
      Return r' m' \<Rightarrow> r' = r \<and> mc_state m' = mc_state m1 \<and> text_keys (mc_state m1)
        \<and> (\<exists>io. get_storage env (nv_state_to_json env) (nv_state_of_json env) (''disk+'' @ path) dflt (mc_io m')
            = Some (Return (Inr (DiskStorage (mc_state m1) path)) io))
    | Panicked p m' \<Rightarrow> mc_state m' = mc_state m1
        \<and> p = (if nv_state_to_json env (mc_state m1) = None
            then ExpectFailed ''Couldn't convert value to string!''
            else ExpectFailed ''File write failed while dropping DiskStorageWriteGuard!''))
    \<and> (\<not> text_keys (mc_state m1) \<longrightarrow> out = Panicked (ExpectFailed ''Couldn't convert value to string!'') m1)"
proof -
  let ?drop = "ioM (drop_write_guard env (nv_state_to_json env) (DiskStorage (mc_state m1) path))"
  have t: "turn env (DiskStorage d path) i lv m = thenM ?drop (returnM r) m1"
    using assms(4) by (simp add: turn_def finallyM_def drop_state_guard_def thenM_def bindM_def getM_def)
  show ?thesis
  proof (cases "nv_state_to_json env (mc_state m1)")
    case None
    then show ?thesis
      by (simp add: t drop_write_guard_def thenM_def bindM_def ioM_def zoomM_def unwrapM_def panicM_def)
  next
    case (Some c)
    then have k: "text_keys (mc_state m1)" using assms(3) by fastforce
    have decoded: "nv_state_of_json env c = Some (mc_state m1)" using assms(2) Some by (simp add: reads_back_def)
    obtain x w' where w: "ev_write_file env path c (io_world (mc_io m1)) = (x, w')" by fastforce
    show ?thesis
    proof (cases x)
      case (Inl e)
      then show ?thesis
        using Some w k by (simp add: t drop_write_guard_def thenM_def bindM_def ioM_def zoomM_def unwrapM_def
            panicM_def returnM_def write_file_def call_def expectM_def)
    next
      case (Inr u)
      let ?sto = "DiskStorage (mc_state m1) path"
      obtain io where d: "drop_write_guard env (nv_state_to_json env) ?sto (mc_io m1) = Some (Return () io)"
        using Some w Inr by (simp add: drop_write_guard_def bindM_def unwrapM_def returnM_def write_file_def call_def expectM_def)
      have "on_disk env ?sto" using assms(1) by (simp add: on_disk_def)
      then obtain io' where
        "reopen_disk env (nv_state_to_json env) (nv_state_of_json env) dflt ?sto io = Some (Return (put_data (mc_state m1) ?sto) io')"
        using d Some decoded disk.reopen_dropped [of env ?sto "nv_state_to_json env" "mc_io m1" io "nv_state_of_json env" "mc_state m1" dflt]
        by (auto simp: recode_json_def)
      then have "\<exists>io'. get_storage env (nv_state_to_json env) (nv_state_of_json env) (''disk+'' @ path) dflt io = Some (Return (Inr ?sto) io')"
        by (auto simp: reopen_disk_def bindM_def expectM_def returnM_def panicM_def split: option.splits outcome.splits sum.splits)
      then show ?thesis
        using k d by (simp add: t thenM_def bindM_def ioM_def zoomM_def returnM_def)
    qed
  qed
qed

text \<open>A codec for fresh states, which differ in their sequence numbers.\<close>

definition keeping_env :: "world node_env" where
  "keeping_env = sample_env
     \<lparr>nv_state_to_json := (\<lambda>st. if st = fresh_state\<lparr>ss_seq_num := ss_seq_num st\<rparr>
        then Some (decimal (unat (ss_seq_num st))) else None),
      nv_state_of_json := (\<lambda>s. map_option (\<lambda>n. fresh_state\<lparr>ss_seq_num := n\<rparr>) (parse_u64 s))\<rparr>"

definition sample_vars :: loop_vars where
  "sample_vars = \<lparr>lv_block_publishing_ticker = \<lparr>tk_last = 0, tk_timeout = 5\<rparr>,
     lv_byzantine_churn_timeout = asked_at 0, lv_timestamp_log = 0\<rparr>"

text \<open>A turn that gets the shutdown of a node with nothing in its queue.\<close>

lemma shutdown_turn:
  assumes "mc_block_queue m = []" and "\<not> bz_enabled (ss_byzantine_test (mc_state m))"
  shows "turn_body env (Update Shutdown) sample_vars m = Some (Return (False, sample_vars) m)"
  using assms
  by (simp add: turn_body_def churn_check_def bindM_def thenM_def getM_def returnM_def handle_queue_def handle_update_def)

text \<open>
  The state with sequence number 9 is written and read back; the one in which a block was
  received cannot be written.
\<close>

theorem turn_survives_restart_witness:
  "(\<exists>m' io. turn keeping_env (DiskStorage fresh_state ''f'') (Update Shutdown) sample_vars
        (fresh_machine\<lparr>mc_state := fresh_state\<lparr>ss_seq_num := 9\<rparr>\<rparr>) = Some (Return (False, sample_vars) m')
      \<and> get_storage keeping_env (nv_state_to_json keeping_env) (nv_state_of_json keeping_env) ''disk+f''
        (returnM fresh_state) (mc_io m') = Some (Return (Inr (DiskStorage (fresh_state\<lparr>ss_seq_num := 9\<rparr>) ''f'')) io))
    \<and> turn keeping_env (DiskStorage fresh_state ''f'') (Update Shutdown) sample_vars
        (fresh_machine\<lparr>mc_state := received new_block fresh_state\<rparr>)
      = Some (Panicked (ExpectFailed ''Couldn't convert value to string!'')
          (fresh_machine\<lparr>mc_state := received new_block fresh_state\<rparr>))"
proof -
  let ?m = "fresh_machine\<lparr>mc_state := fresh_state\<lparr>ss_seq_num := 9\<rparr>\<rparr>" and ?m' = "fresh_machine\<lparr>mc_state := received new_block fresh_state\<rparr>"
  have f: "lawful_files keeping_env" by (simp add: lawful_files_def keeping_env_def sample_env_def)
  have codec: "nv_state_to_json keeping_env st = Some c \<longleftrightarrow>
      st = fresh_state\<lparr>ss_seq_num := ss_seq_num st\<rparr> \<and> c = decimal (unat (ss_seq_num st))"
    "nv_state_of_json keeping_env c = map_option (\<lambda>n. fresh_state\<lparr>ss_seq_num := n\<rparr>) (parse_u64 c)" for st c
    by (auto simp: keeping_env_def)
  have rb: "reads_back (nv_state_to_json keeping_env) (nv_state_of_json keeping_env)"
    using parse_u64_reads_decimal [of 0] by (auto simp: reads_back_def codec)
  have keys: "text_keys (fresh_state\<lparr>ss_seq_num := n\<rparr>)" for n
    by (simp add: text_keys_def fresh_state_def measurements_new_def)
  have k: "\<forall>st. \<not> text_keys st \<longrightarrow> nv_state_to_json keeping_env st = None"
    using keys codec by (metis not_None_eq)
  have b: "turn_body keeping_env (Update Shutdown) sample_vars m = Some (Return (False, sample_vars) m)" if "m \<in> {?m, ?m'}" for m
    using that by (intro shutdown_turn) (auto simp: sample_defs)
  have t: "nv_state_to_json keeping_env (mc_state ?m) = Some (decimal 9)" "fst (ev_write_file keeping_env p c w) = Inr ()" for p c w
    by (simp_all add: codec) (simp add: keeping_env_def sample_env_def)
  obtain m2 where r: "turn keeping_env (DiskStorage fresh_state ''f'') (Update Shutdown) sample_vars ?m = Some (Return (False, sample_vars) m2)"
    using b [of ?m] t
    by (simp add: turn_def finallyM_def drop_state_guard_def drop_write_guard_def thenM_def bindM_def getM_def ioM_def
        zoomM_def unwrapM_def returnM_def expectM_def write_file_def call_def split_beta)
  have "\<not> text_keys (mc_state ?m')" by (simp add: text_keys_def received_def)
  with turn_survives_restart [OF f rb k b, of ?m' fresh_state "''f''" "returnM fresh_state"]
    turn_survives_restart [OF f rb k b, of ?m fresh_state "''f''" "returnM fresh_state"] r
  show ?thesis by auto
qed

section \<open>Failures of the engine\<close>

text \<open>
  C40: A maximal churn timeout of zero stops the engine at its start. The delay for the simulated
  crash is drawn from an empty range even when the Byzantine tests are off, and the generator
  panics.
\<close>

theorem zero_churn_timeout_panics:
  assumes "lawful_uniform env" and "cfg_byzantine_max_churn_timeout_millis cfg = 0"
  shows "\<exists>m'. engine_enter env cfg (MemStorage st) startup m = Some (Panicked (LibraryPanic ''Uniform::new'') m')"
proof -
  have "wpx False (\<lambda>p _. p = LibraryPanic ''Uniform::new'') (engine_enter env cfg (MemStorage st) startup) (\<lambda>_ _. False) m"
  proof -
    have u: "wpx False (\<lambda>p _. p = LibraryPanic ''Uniform::new'') (random_value env 0) Q m'" for Q and m'
      using assms(1) by (simp add: random_value_def wpx_def lawful_uniform_def)
    show ?thesis
      using assms(2) u
      by (simp add: engine_enter_def churn_timer_def ticker_new_def now_def node_new_def initialize_block_def drop_state_guard_def
          drop_write_guard_def wp_simps)
  qed
  then show ?thesis by (auto simp: wpx_def split: option.splits outcome.splits)
qed

theorem zero_churn_timeout_panics_witness:
  "\<exists>m'. engine_enter sample_env (sample_config\<lparr>cfg_byzantine_max_churn_timeout_millis := 0\<rparr>) (MemStorage fresh_state)
     \<lparr>chain_head_block = genesis, startup_peers = [], local_peer_id = [1]\<rparr> fresh_machine
    = Some (Panicked (LibraryPanic ''Uniform::new'') m')"
  by (rule zero_churn_timeout_panics [OF sample_uniform]) simp

text \<open>
  C27: Bytes that are not a message stop the engine. When the content of a peer message is not
  UTF-8, or its text is not the JSON of a message, \<open>handle_update\<close> panics before the node sees it:
  any member can end another's engine with one message.
\<close>

theorem malformed_message_panics:
  assumes "\<not> decodes env content"
  shows "\<exists>p. handle_update env (Update (PeerMessage \<lparr>pm_message_type = t, pm_content = content\<rparr> sender)) m
      = Some (Panicked p m) \<and> p \<in> {UnwrapFailed ''from_utf8'', UnwrapFailed ''from_str''}"
  using assms
  by (cases "from_utf8 content")
    (auto simp: handle_update_def decode_payload_def decodes_def bindM_def unwrapM_def returnM_def panicM_def
      split: option.splits)

theorem malformed_message_panics_witness:
  "\<exists>p. handle_update sample_env (Update (PeerMessage \<lparr>pm_message_type = ''request'', pm_content = [0xFF]\<rparr> [2])) fresh_machine
    = Some (Panicked p fresh_machine)"
proof -
  have "\<not> decodes sample_env [0xFF]" by (simp add: decodes_def from_utf8_def)
  from malformed_message_panics [OF this] show ?thesis by blast
qed

section \<open>A validator that never answers\<close>

text \<open>
  When every request for the settings fails, \<open>load_settings\<close> never returns: there is no limit
  to the retries.
\<close>

lemma load_settings_never_returns:
  fixes env :: "('w, 'm) env_scheme"
  assumes "\<forall>w. \<exists>e. fst (ev_get_settings env b setting_keys w) = Inl e"
  shows "load_settings env cfg b s = None"
proof -
  have "retry_until_ok (cfg_exponential_retry_base cfg) (cfg_exponential_retry_max cfg) (sleep env)
      (get_settings env b setting_keys) s = None"
  proof (rule retry_until_ok_never_ok)
    show "\<forall>s. \<exists>e s'. get_settings env b setting_keys s = Some (Return (Inl e) s')"
    proof
      fix s :: "'w io"
      obtain e where "fst (ev_get_settings env b setting_keys (io_world s)) = Inl e" using assms by blast
      then show "\<exists>e s'. get_settings env b setting_keys s = Some (Return (Inl e) s')"
        by (simp add: get_settings_def call_def split_beta)
    qed
    show "\<forall>d s. \<exists>s'. sleep env d s = Some (Return () s')"
      by (simp add: sleep_def call_def)
  qed
  then show ?thesis by (simp add: load_settings_def bindM_def)
qed

lemma load_settings_never_returns_witness:
  "load_settings (sample_env\<lparr>ev_get_settings := (\<lambda>_ _ w. (Inl BlockNotReady, w))\<rparr>) default_config [0] sample_io = None"
  by (rule load_settings_never_returns) simp

section \<open>Text and bytes\<close>

text \<open>
  A message survives the network. Whatever \<open>send_to\<close> is given for a message, the receiver's
  decoding of these bytes returns that message, when the JSON codec reads back what it wrote.
\<close>

lemma message_roundtrip:
  assumes "lawful_message_json env"
  shows "\<exists>content. encode_payload env payload = Some content \<and> decode_payload env content s = Some (Return payload s)"
proof -
  obtain content where c: "encode_payload env payload = Some content"
    using encode_payload_lawful [OF assms, of payload] ..
  with decode_encode [OF assms c, of s] show ?thesis by (intro exI [of _ content] conjI)
qed

lemma message_roundtrip_witness:
  "\<exists>content. encode_payload sample_env (vote_for 1) = Some content
    \<and> decode_payload sample_env content () = Some (Return (vote_for 1) ())"
  by (rule message_roundtrip [OF sample_message_json])

lemma hex_digit_inj: "d < 16 \<Longrightarrow> e < 16 \<Longrightarrow> hex_digit d = hex_digit e \<Longrightarrow> d = e"
proof -
  assume d: "d < 16" and e: "e < 16" and eq: "hex_digit d = hex_digit e"
  have val: "(of_char (hex_digit n) :: nat) = (if n < 10 then 48 + n else 87 + n)" if "n < 16" for n
    using that by (cases "n < 10") (simp_all add: hex_digit_def of_char_of take_bit_eq_mod)
  have "(if d < 10 then 48 + d else 87 + d) = (if e < 10 then 48 + e else 87 + e)"
    using val [OF d] val [OF e] eq by metis
  then show "d = e" by presburger
qed

lemma hex_byte_two:
  assumes "16 \<le> b"
  shows "hex_byte b = [hex_digit (unat b div 16), hex_digit (unat b mod 16)]"
  using assms by (simp add: hex_byte_def word_le_nat_alt Let_def)

lemma hex_byte_inj: "16 \<le> a \<Longrightarrow> 16 \<le> b \<Longrightarrow> hex_byte a = hex_byte b \<Longrightarrow> a = b"
proof -
  assume ab: "16 \<le> a" "16 \<le> b" and eq: "hex_byte a = hex_byte b"
  have "unat a < 256" "unat b < 256" using unsigned_less [of a] unsigned_less [of b] by simp_all
  then have lt: "unat a div 16 < 16" "unat b div 16 < 16" by simp_all
  have "hex_digit (unat a div 16) = hex_digit (unat b div 16)" "hex_digit (unat a mod 16) = hex_digit (unat b mod 16)"
    using eq ab by (simp_all add: hex_byte_two)
  then have "unat a div 16 = unat b div 16" "unat a mod 16 = unat b mod 16"
    using lt by (auto intro: hex_digit_inj)
  then have "unat a = unat b" by (metis div_mult_mod_eq)
  then show "a = b" by (simp add: word_unat_eq_iff)
qed

text \<open>
  Block ids in the log lines of \<open>engine.rs\<close>. \<open>to_hex\<close> writes a byte below 16 with one digit, so
  different ids may be printed alike; ids of bytes from 16 on are told apart.
\<close>

lemma to_hex_unpadded:
  "((\<forall>b\<in>set xs \<union> set ys. 16 \<le> b) \<longrightarrow> to_hex xs = to_hex ys \<longrightarrow> xs = ys)
    \<and> to_hex ([0x01, 0x00] @ xs) = to_hex ([0x10] @ xs)"
proof (intro conjI impI)
  assume "\<forall>b\<in>set xs \<union> set ys. 16 \<le> b" and "to_hex xs = to_hex ys"
  then show "xs = ys"
  proof (induction xs arbitrary: ys)
    case Nil
    then show ?case by (cases ys) (auto simp: to_hex_def hex_byte_two)
  next
    case (Cons x xs)
    then obtain y zs where ys: "ys = y # zs" by (cases ys) (auto simp: to_hex_def hex_byte_two)
    with Cons.prems have "hex_byte x = hex_byte y" "to_hex xs = to_hex zs"
      by (auto simp: to_hex_def hex_byte_two)
    with Cons.IH [of zs] Cons.prems(1) ys hex_byte_inj [of x y] show ?case by auto
  qed
qed (simp add: to_hex_def hex_byte_def hex_digit_def)

lemma to_hex_unpadded_witness:
  "to_hex [0xAB, 0x10] \<noteq> to_hex [0xAB, 0x11] \<and> to_hex [0x01, 0x00] = to_hex [0x10]"
  using to_hex_unpadded [of "[0xAB, 0x10]" "[0xAB, 0x11]"] to_hex_unpadded [of "[]" "[]"] by simp

section \<open>The program\<close>

text \<open>
  \<open>main\<close> exits with status 0 exactly when the log configuration is built and installed and the
  driver ends without an error. It starts the driver at most once, on the endpoint of the command
  line or the default one, with the default configuration, which the settings on the chain then
  complete.
\<close>

lemma program_exit_status:
  "fst (program_main build init start opts) = 0 \<longleftrightarrow>
     (\<exists>cfg. build (console_log_level (op_verbose opts)) = Inr cfg \<and> init cfg = Inr ()
       \<and> start (endpoint opts) (snowball_engine_new default_config) = Inr ()
       \<and> snd (program_main build init start opts) = Some (endpoint opts, snowball_engine_new default_config))"
  by (auto simp: program_main_def Let_def split: sum.splits)

end
