(* ===== verification/Engine_Safety.thy ===== *)
theory Engine_Safety
  imports Node_Stalls
begin

text \<open>
  From the start of the engine to its end: loading the settings and opening the store make no
  call about a block, the engine enters its loop with an idle node, and from there on every turn
  is a sequence of steps of the node. What the protocol promises then holds of the trace of
  the whole engine.
\<close>

section \<open>The start makes no call about a block\<close>

lemma retry_until_ok_keeps:
  assumes i: "I s" and cb: "\<And>s. I s \<Longrightarrow> wlp callback (\<lambda>_. I) s" and sl: "\<And>d s. I s \<Longrightarrow> wlp (slp d) (\<lambda>_. I) s"
  shows "wlp (retry_until_ok base mx slp callback) (\<lambda>_. I) s"
  unfolding retry_until_ok_def wpx_outcome
proof (intro allI impI)
  fix r
  assume "retry_loop mx callback slp base s = Some r"
  then have "callback = callback \<and> slp = slp \<and> I s \<longrightarrow> outcome_ok (\<lambda>_ _. True) (\<lambda>_. I) r"
  proof (rule retry_loop.raw_induct [where P = "\<lambda>mx c sl base s r. c = callback \<and> sl = slp \<and> I s \<longrightarrow>
        outcome_ok (\<lambda>_ _. True) (\<lambda>_. I) r", rotated])
    fix rec mx c sl' d s y
    assume IH: "\<And>mx c sl' d s r. rec mx c sl' d s = Some r \<Longrightarrow>
        c = callback \<and> sl' = slp \<and> I s \<longrightarrow> outcome_ok (\<lambda>_ _. True) (\<lambda>_. I) r"
      and eq: "bindM c (\<lambda>r. case r of Inl _ \<Rightarrow> thenM (sl' d) (rec mx c sl' (next_delay mx d)) | Inr res \<Rightarrow> returnM res) s = Some y"
    show "c = callback \<and> sl' = slp \<and> I s \<longrightarrow> outcome_ok (\<lambda>_ _. True) (\<lambda>_. I) y"
    proof (intro impI, elim conjE)
      assume c: "c = callback" "sl' = slp" "I s"
      have again: "wlp (rec mx callback slp (next_delay mx d)) (\<lambda>_. I) t" if "I t" for t
        using IH that by (auto simp: wpx_outcome)
      have "wlp (bindM callback (\<lambda>r. case r of Inl _ \<Rightarrow> thenM (slp d) (rec mx callback slp (next_delay mx d))
          | Inr res \<Rightarrow> returnM res)) (\<lambda>_. I) s"
        unfolding wpx_bindM
        by (rule wpx_conseq [OF cb [OF c(3)]])
          (auto simp: wp_simps intro: wpx_conseq [OF sl] again split: sum.splits)
      moreover have "bindM callback (\<lambda>r. case r of Inl _ \<Rightarrow> thenM (slp d) (rec mx callback slp (next_delay mx d))
          | Inr res \<Rightarrow> returnM res) s = Some y"
        using eq unfolding c(1,2) .
      ultimately show "outcome_ok (\<lambda>_ _. True) (\<lambda>_. I) y"
        unfolding wpx_outcome by blast
    qed
  qed
  with i show "outcome_ok (\<lambda>_ _. True) (\<lambda>_. I) r" by simp
qed

lemma load_settings_quiet:
  assumes "quiet (io_trace s)"
  shows "wlp (load_settings env cfg b) (\<lambda>_ s'. quiet (io_trace s')) s"
  unfolding load_settings_def wpx_bindM
proof (rule wpx_conseq [OF retry_until_ok_keeps [where I = "\<lambda>s. quiet (io_trace s)", OF assms]])
  fix settings :: settings and s' :: "'a io"
  assume q: "quiet (io_trace s')"
  then show "wlp (apply_settings env settings cfg) (\<lambda>_ s'. quiet (io_trace s')) s'"
    by (simp add: apply_settings_def wp_simps wpx_get_members split: option.splits)
qed (simp_all add: get_settings_def sleep_def wp_simps)

lemma get_storage_quiet:
  assumes q: "quiet (io_trace s)" and d: "\<And>s. quiet (io_trace s) \<Longrightarrow> wlp dflt (\<lambda>_ s'. quiet (io_trace s')) s"
  shows "wlp (get_storage env to_json of_json loc dflt) (\<lambda>_ s'. quiet (io_trace s')) s"
proof -
  have opened: "wlp (from_path env to_json of_json path dflt) (\<lambda>_ s'. quiet (io_trace s')) s" for path
    using q by (auto simp: from_path_def wp_simps write_file_def intro!: wpx_conseq [OF d] split: file_contents.splits option.splits sum.splits)
  show ?thesis
    using q
    by (auto simp: get_storage_def mem_storage_new_def wp_simps Let_def intro!: wpx_conseq [OF d] wpx_conseq [OF opened] split: sum.splits)
qed

lemma engine_setup_quiet:
  assumes "quiet (io_trace s)"
  shows "wlp (engine_setup env cfg startup) (\<lambda>_ s'. quiet (io_trace s')) s"
proof -
  have new: "wlp (snowball_state_new p n cfg) (\<lambda>_ s'. quiet (io_trace s')) s" if "quiet (io_trace s)"
    for p n cfg and s :: "'a io"
    using that by (simp add: snowball_state_new_def wp_simps split: option.splits)
  show ?thesis
    unfolding engine_setup_def Let_def wpx_bindM
    by (rule wpx_conseq [OF load_settings_quiet [OF assms]], rule wpx_conseq [OF get_storage_quiet])
      (auto simp: wp_simps intro: new split: sum.splits)
qed

section \<open>Entering the loop\<close>

lemma drop_state_guard_quiet:
  assumes "quiet (io_trace (mc_io m))" and "\<And>io. quiet (io_trace io) \<Longrightarrow> Q () (m\<lparr>mc_io := io\<rparr>)"
  shows "wlp (drop_state_guard env sto) Q m"
proof -
  have "put_data (mc_state m) sto = MemStorage (mc_state m) \<or> (\<exists>path. put_data (mc_state m) sto = DiskStorage (mc_state m) path)"
    by (cases sto) simp_all
  then show ?thesis
    using assms
    by (auto simp: drop_state_guard_def drop_write_guard_def wp_simps write_file_def
        split: option.splits sum.splits intro: assms(2) [of "mc_io m", simplified])
qed

text \<open>What the start keeps of the machine.\<close>

definition entered :: "snowball_state storage \<Rightarrow> 'w machine \<Rightarrow> bool" where
  "entered sto m \<longleftrightarrow> quiet (io_trace (mc_io m)) \<and> ss_phase (mc_state m) = ss_phase (storage_data sto)
     \<and> ss_alfa (mc_state m) = ss_alfa (storage_data sto) \<and> ss_beta (mc_state m) = ss_beta (storage_data sto)
     \<and> mc_block_queue m = []"

lemma churn_timer_entered:
  assumes "entered sto m"
  shows "wlp (churn_timer env cfg sto) (\<lambda>_. entered sto) m"
proof -
  have written: "wlp (whenM b (drop_state_guard env sto)) (\<lambda>_. entered sto) m'" if "entered sto m'" for b m'
    using that by (cases b) (auto simp: whenM_def wpx_returnM entered_def intro!: drop_state_guard_quiet)
  have drawn: "wlp (random_value env n) (\<lambda>_. entered sto) m" for n
    using assms by (simp add: random_value_def wpx_def entered_def split: option.splits prod.splits)
  show ?thesis
    unfolding churn_timer_def wpx_bindM [of _ _ "random_value _ _"] wpx_thenM_fun
    by (rule wpx_conseq [OF drawn], rule wpx_conseq [OF written])
      (auto simp: timeout_new_def now_def wp_simps entered_def)
qed

lemma engine_enter_entered:
  assumes "quiet (io_trace io)"
  shows "wlp (engine_enter env cfg sto startup) (\<lambda>_. entered sto) (initial_machine sto io)"
proof -
  have new: "wlp (finallyM (node_new env b) (drop_state_guard env sto)) (\<lambda>_. entered sto) m"
    if "entered sto m" for b m
    using that
    by (auto simp: entered_def wp_simps node_new_def initialize_block_def intro!: drop_state_guard_quiet)
  have rest: "wlp (ioM (ask (ev_now env))) (\<lambda>_. wlp (churn_timer env cfg sto) (\<lambda>_. entered sto)) m"
    if "entered sto m" for m
    using that by (auto simp: wp_simps entered_def intro!: churn_timer_entered)
  show ?thesis
    unfolding engine_enter_def wpx_bindM [of _ _ "ioM (ticker_new _ _)"]
    by (simp add: ticker_new_def now_def wp_simps wpx_fun del: wpx_finallyM)
      (rule wpx_conseq [OF new rest], use assms in \<open>simp_all add: entered_def initial_machine_def\<close>)
qed

text \<open>The machine with which the loop starts, and what the loop makes of it.\<close>

definition loop_ready :: "'w machine \<Rightarrow> bool" where
  "loop_ready m \<longleftrightarrow> node_inv m \<and> commits_ok (protocol_view m)"

lemma engine_enter_ready:
  assumes l: "lawful env" and st: "startable (storage_data sto)" and q: "quiet (io_trace io)"
  shows "wlp (engine_enter env cfg sto startup) (\<lambda>_. loop_ready) (initial_machine sto io)"
proof -
  have "wlp (engine_enter env cfg sto startup) (\<lambda>_. stays True anything) (initial_machine sto io)"
    using l st by (intro engine_enter_inv) (simp_all add: lawful_def persists_def provided_def delay_ok_def)
  from wpx_conj [OF this engine_enter_entered [OF q]] show ?thesis
    by (rule wpx_conseq)
      (use st in \<open>auto simp: loop_ready_def entered_def commits_ok_def protocol_view_def quiet_view startable_def\<close>)
qed

lemma engine_loop_ready:
  assumes l: "lawful env" and m: "loop_ready m"
  shows "wlp (engine_loop env sto is lv) (\<lambda>_ m'. loop_ready m' \<and> protocol_step\<^sup>*\<^sup>* (protocol_view m) (protocol_view m')) m"
proof (rule wpx_conseq [OF engine_loop_steps [OF rtranclp.rtrancl_refl]])
  fix m'
  assume s: "(node_step env)\<^sup>*\<^sup>* m m'"
  have i: "node_inv m" using m by (simp add: loop_ready_def)
  have p: "protocol_step\<^sup>*\<^sup>* (protocol_view m) (protocol_view m')"
    by (rule node_steps_protocol [OF s l i])
  then have "commits_ok (protocol_view m')"
    using pts.steps_inv m by (simp add: loop_ready_def)
  moreover have "node_inv m'"
    using nts.steps_inv [OF s] l i by simp
  ultimately show "loop_ready m' \<and> protocol_step\<^sup>*\<^sup>* (protocol_view m) (protocol_view m')"
    using p by (simp add: loop_ready_def)
qed

lemma engine_run_ready:
  assumes "lawful env" and "startable (storage_data sto)" and "quiet (io_trace io)"
  shows "wlp (bindM (engine_enter env cfg sto startup) (engine_loop env sto updates)) (\<lambda>_. loop_ready) (initial_machine sto io)"
  unfolding wpx_bindM
  by (rule wpx_conseq [OF engine_enter_ready [OF assms]], rule wpx_conseq [OF engine_loop_ready [OF assms(1)]]) simp_all

end
