(* ===== verification/Node_Liveness.thy ===== *)
theory Node_Liveness
  imports Node_Properties
begin

text \<open>
  A vote that ends: when all but a few of the peers that are asked answer for the same colour, each
  round is complete with its last answer and won by that colour, and the vote is over after \<open>beta\<close>
  rounds, with the commit of the block or its failure. Up to \<open>k - alfa\<close> peers may answer as they
  like.
\<close>

section \<open>One round of answers\<close>

text \<open>Every awaited peer \<open>p\<close> answers \<open>v p\<close>, one after the other; then the next round does.\<close>

definition answer_round ::
  "('w, 'm) node_env_scheme \<Rightarrow> (peer_id \<Rightarrow> snowball_message) \<Rightarrow> (unit, 'w machine) comp" where
  "answer_round env v = bindM (getM (\<lambda>m. map fst (waiting m))) (\<lambda>ps.
     forM ps (\<lambda>p. bindM (on_response env p (v p)) (\<lambda>_. returnM ())))"

primrec answer_rounds ::
  "('w, 'm) node_env_scheme \<Rightarrow> (peer_id \<Rightarrow> snowball_message) list \<Rightarrow> (unit, 'w machine) comp" where
  "answer_rounds env [] = returnM ()"
| "answer_rounds env (v # vs) = thenM (answer_round env v) (answer_rounds env vs)"

definition votes_cast :: "(peer_id \<Rightarrow> snowball_message) \<Rightarrow> bool \<Rightarrow> peer_id list \<Rightarrow> nat" where
  "votes_cast v yes ps = length (filter (\<lambda>p. (sm_vote (v p) = 1) = yes) ps)"

lemma votes_cast_snoc:
  "votes_cast v yes [] = 0"
  "votes_cast v yes (ps @ [p]) = votes_cast v yes ps + (if (sm_vote (v p) = 1) = yes then 1 else 0)"
  by (simp_all add: votes_cast_def)

lemma votes_cast_all: "votes_cast v False ps + votes_cast v True ps = length ps"
  by (induction ps) (auto simp: votes_cast_def)

text \<open>The machine when the first \<open>i\<close> of the awaited peers have answered.\<close>

definition answered :: "(peer_id \<Rightarrow> snowball_message) \<Rightarrow> nat \<Rightarrow> 'w machine \<Rightarrow> 'w machine" where
  "answered v i m = (let ps = take i (map fst (waiting m)) in
     with_state (\<lambda>st. st\<lparr>ss_waiting_response_map := drop i (ss_waiting_response_map st),
       ss_response_buffer := (of_nat (votes_cast v False ps), of_nat (votes_cast v True ps))\<rparr>) m)"

lemma delete_front:
  assumes "distinct (map fst al)" and "i < length al"
  shows "AList.delete (fst (al ! i)) (drop i al) = drop (Suc i) al"
proof -
  have d: "drop i al = al ! i # drop (Suc i) al" using assms(2) by (simp add: Cons_nth_drop_Suc)
  have "distinct (map fst (drop i al))" using assms(1) by (simp add: drop_map [symmetric])
  then have "fst (al ! i) \<notin> fst ` set (drop (Suc i) al)" by (simp add: d)
  then have "AList.delete (fst (al ! i)) (drop (Suc i) al) = drop (Suc i) al" by simp
  then show ?thesis by (cases "al ! i") (simp add: d)
qed

lemma answered_next:
  assumes "keys_distinct (waiting m)" and "i < length (waiting m)"
    and "sm_vote (v (map fst (waiting m) ! i)) = 0 \<or> sm_vote (v (map fst (waiting m) ! i)) = 1"
  shows "with_state (count_vote (sm_vote (v (map fst (waiting m) ! i))))
      (with_state (no_longer_awaited (map fst (waiting m) ! i)) (answered v i m)) = answered v (Suc i) m"
  using assms delete_front [of "waiting m" i]
  by (auto simp: answered_def count_vote_def no_longer_awaited_def keys_distinct_def with_state_def Let_def
      take_Suc_conv_app_nth votes_cast_snoc)

lemma answered_buffered:
  assumes "i \<le> length (waiting m)" and "i < 2 ^ 64"
  shows "buffered (mc_state (answered v i m)) = i"
proof -
  let ?ps = "take i (map fst (waiting m))"
  have "votes_cast v False ?ps + votes_cast v True ?ps = i" using assms(1) by (simp add: votes_cast_all)
  then have "votes_cast v False ?ps < 2 ^ 64" "votes_cast v True ?ps < 2 ^ 64"
    "votes_cast v False ?ps + votes_cast v True ?ps = i"
    using assms(2) by linarith+
  then show ?thesis by (simp add: answered_def buffered_def Let_def unat_of_nat)
qed

lemma answer_round_wpx:
  assumes ok: "env_ok False never env" and s: "stays False never m" and l: "ss_phase (mc_state m) = Listening"
    and b: "ss_response_buffer (mc_state m) = (0, 0)" and k: "length (waiting m) = unat (ss_k (mc_state m))"
    and v: "\<forall>p. sm_vote (v p) = 0 \<or> sm_vote (v p) = 1"
  shows "wp (answer_round env v) (\<lambda>_ m'. evaluating False never (answered v (length (waiting m)) m)
    \<and> round_evaluated env (answered v (length (waiting m)) m) m') m"
proof -
  let ?ps = "map fst (waiting m)" and ?k = "length (waiting m)"
  let ?I = "\<lambda>i m'. if i < ?k then m' = answered v i m \<and> stays False never m'
    else evaluating False never (answered v ?k m) \<and> round_evaluated env (answered v ?k m) m'"
  have kd: "keys_distinct (waiting m)" using s by (simp add: inv_defs)
  have pos: "0 < ?k" using s k by (simp add: inv_defs)
  have zero: "answered v 0 m = m" using b by (simp add: answered_def with_state_def votes_cast_snoc)
  have step: "wp (bindM (on_response env (?ps ! i) (v (?ps ! i))) (\<lambda>_. returnM ())) (\<lambda>_. ?I (Suc i)) m'"
    if i: "i < length ?ps" and "?I i m'" for i m'
  proof -
    let ?p = "?ps ! i"
    have m': "m' = answered v i m" and st: "stays False never m'" using that by auto
    have inv: "node_inv m'" using st by (simp add: stays_def)
    have x: "expects (mc_state m') ?p"
      using i l by (simp add: m' expects_def answered_def awaits_def Let_def Cons_nth_drop_Suc [symmetric])
    have vp: "sm_vote (v ?p) = 0 \<or> sm_vote (v ?p) = 1" using v by blast
    have m2: "answered v (Suc i) m = with_state (count_vote (sm_vote (v ?p))) (with_state (no_longer_awaited ?p) m')"
      using answered_next [of m i v] kd vp i m' by simp
    note counted = count_vote_buffered [OF inv x vp m2] and next_inv = count_vote_inv [OF st x vp m2]
    have "unat (ss_k (mc_state m)) < 2 ^ 64" using unsigned_less [of "ss_k (mc_state m)"] by simp
    then have "buffered (mc_state m') = i" using i k by (simp add: m' answered_buffered)
    moreover have "ss_k (mc_state m') = ss_k (mc_state m)" by (simp add: m' answered_def Let_def)
    ultimately have last: "round_complete (mc_state (answered v (Suc i) m)) \<longleftrightarrow> Suc i = ?k"
      using counted k by simp
    have "wp (on_response env ?p (v ?p)) (\<lambda>_. ?I (Suc i)) m'"
    proof (rule on_response_wpx [OF ok])
      fix m2'
      assume "m2' = with_state (count_vote (sm_vote (v ?p))) (with_state (no_longer_awaited ?p) m')"
        "round_complete (mc_state m2')"
      then show "evaluable False never m2'" using next_inv(1) m2 by simp
    next
      fix again m''
      assume "response_handled env ?p (v ?p) m' again m''"
      then have r: "if Suc i = ?k then round_evaluated env (answered v (Suc i) m) m'' else m'' = answered v (Suc i) m"
        using x vp last unfolding response_handled_def Let_def m2 [symmetric] by (simp split: if_splits)
      show "?I (Suc i) m''"
      proof (cases "Suc i = ?k")
        case True
        then show ?thesis using r next_inv(1) last by simp
      next
        case False
        then show ?thesis using r next_inv(2) last i by simp
      qed
    qed
    then show ?thesis unfolding wpx_bindM wpx_returnM_fun .
  qed
  have "wp (forM ?ps (\<lambda>p. bindM (on_response env p (v p)) (\<lambda>_. returnM ()))) (\<lambda>_. ?I (length ?ps)) m"
    by (rule wpx_forM [where I = ?I]) (use zero s pos step in auto)
  then show ?thesis by (simp add: answer_round_def wp_simps)
qed

section \<open>A round is won against a few peers\<close>

definition vote_of :: "decision_state \<Rightarrow> u8" where
  "vote_of c = (if c = OK then 1 else 0)"

text \<open>Answers that are votes, and that are for \<open>c\<close> unless a peer of \<open>F\<close> gives them.\<close>

definition answers_for :: "decision_state \<Rightarrow> peer_id set \<Rightarrow> (peer_id \<Rightarrow> snowball_message) \<Rightarrow> bool" where
  "answers_for c F v \<longleftrightarrow> (\<forall>p. (sm_vote (v p) = 0 \<or> sm_vote (v p) = 1) \<and> (p \<notin> F \<longrightarrow> sm_vote (v p) = vote_of c))"

lemma few_against:
  assumes "finite F" and "distinct ps" and "answers_for c F v"
  shows "votes_cast v (c \<noteq> OK) ps \<le> card F"
proof -
  let ?qs = "filter (\<lambda>p. (sm_vote (v p) = 1) = (c \<noteq> OK)) ps"
  have "set ?qs \<subseteq> F" using assms(3) by (auto simp: answers_for_def vote_of_def)
  then have "card (set ?qs) \<le> card F" by (rule card_mono [OF assms(1)])
  then show ?thesis using distinct_card [of ?qs] assms(2) by (simp add: votes_cast_def)
qed

lemma round_won:
  assumes "finite F" and "distinct ps" and "answers_for c F v" and "c \<in> {OK, KO}"
    and "card F + \<alpha> \<le> length ps" and "length ps < 2 * \<alpha>"
  shows "round_winner \<alpha> (votes_cast v False ps, votes_cast v True ps) = Some c"
proof -
  have "votes_cast v (c \<noteq> OK) ps \<le> card F" by (rule few_against [OF assms(1-3)])
  moreover have "votes_cast v False ps + votes_cast v True ps = length ps" by (rule votes_cast_all)
  ultimately show ?thesis using assms(4-6) by (auto simp: round_winner_def)
qed

section \<open>All rounds\<close>

lemma unanimous_Suc: "c \<in> {OK, KO} \<Longrightarrow> majority_for c (unanimous c n) = unanimous c (Suc n)"
  by (auto simp: majority_for_def unanimous_def fresh_vote_def fun_eq_iff Let_def)

text \<open>A vote in which every round so far was won by \<open>c\<close>, at the start of a round.\<close>

definition unanimous_so_far ::
  "decision_state \<Rightarrow> peer_id set \<Rightarrow> block_id \<Rightarrow> u64 \<Rightarrow> block_id list \<Rightarrow> nat \<Rightarrow> 'w machine \<Rightarrow> bool" where
  "unanimous_so_far c F b seq cs n m \<longleftrightarrow> stays False never m \<and> ss_phase (mc_state m) = Listening
     \<and> ss_response_buffer (mc_state m) = (0, 0) \<and> length (waiting m) = unat (ss_k (mc_state m))
     \<and> card F + unat (ss_alfa (mc_state m)) \<le> unat (ss_k (mc_state m))
     \<and> ss_decision_block (mc_state m) = b \<and> ss_seq_num (mc_state m) = seq
     \<and> commits_of (io_trace (mc_io m)) = cs
     \<and> n < unat (ss_beta (mc_state m)) \<and> abs_vote (mc_state m) = unanimous c n"

text \<open>The vote is over with \<open>c\<close>.\<close>

definition vote_over :: "decision_state \<Rightarrow> block_id \<Rightarrow> u64 \<Rightarrow> block_id list \<Rightarrow> 'w machine \<Rightarrow> bool" where
  "vote_over c b seq cs m \<longleftrightarrow> ss_phase (mc_state m) = Idle \<and> ss_decision_map (mc_state m) seq = Some c
     \<and> commits_of (io_trace (mc_io m)) = cs @ (if c = OK then [b] else [])
     \<and> (c = KO \<longrightarrow> FailBlock b \<in> set (io_trace (mc_io m)))"

lemma round_evaluated_keeps_vote:
  assumes r: "round_evaluated env m m'" and v: "voting (mc_state m)" and l: "ss_phase (mc_state m) = Listening"
    and l': "ss_phase (mc_state m') = Listening"
  shows "ss_decision_block (mc_state m') = ss_decision_block (mc_state m) \<and> ss_seq_num (mc_state m') = ss_seq_num (mc_state m)
    \<and> commits_of (io_trace (mc_io m')) = commits_of (io_trace (mc_io m))"
  using round_evaluated_step [OF r v l] l l'
  by (auto elim!: protocol_stepE simp: protocol_view_def vote_defs protocol.ext_inject)

lemma round_evaluated_parameters:
  assumes r: "round_evaluated env m m'" and w: "waiting m = []"
  shows "ss_alfa (mc_state m') = ss_alfa (mc_state m) \<and> ss_beta (mc_state m') = ss_beta (mc_state m)
    \<and> ss_k (mc_state m') = ss_k (mc_state m)"
proof -
  have n: "ss_alfa (mc_state m') = ss_alfa (mc_state m1) \<and> ss_beta (mc_state m') = ss_beta (mc_state m1)
      \<and> ss_k (mc_state m') = ss_k (mc_state m1)" if "new_round_from env m1 m'" "waiting m1 = []" for m1
    using queriedD [OF new_round_fromD(1) [OF that]] by (simp add: clear_buffer_def)
  show ?thesis
    using r w
    by (auto simp: round_evaluated_def Let_def decided_def dest!: n split: option.splits if_splits)
qed

lemma round_evaluated_commits:
  assumes r: "round_evaluated env m m'" and v: "voting (mc_state m)" and l: "ss_phase (mc_state m) = Listening"
    and d: "ss_decision_map (mc_state m') (ss_seq_num (mc_state m)) = Some c" "ss_phase (mc_state m') = Idle"
  shows "commits_of (io_trace (mc_io m')) = commits_of (io_trace (mc_io m))
    @ (if c = OK then [ss_decision_block (mc_state m)] else [])"
  using round_evaluated_step [OF r v l] l d
  by (auto elim!: protocol_stepE simp: protocol_view_def vote_defs protocol.ext_inject)

text \<open>When all have answered, the counters have room and the round is won by \<open>c\<close>.\<close>

lemma answered_state:
  "mc_state (answered v (length (waiting m)) m) = (mc_state m)\<lparr>ss_waiting_response_map := [],
      ss_response_buffer := (of_nat (votes_cast v False (map fst (waiting m))), of_nat (votes_cast v True (map fst (waiting m))))\<rparr>"
  "mc_io (answered v (length (waiting m)) m) = mc_io m"
  by (simp_all add: answered_def Let_def)

lemma answered_round:
  assumes u: "unanimous_so_far c F b seq cs n m" and f: "finite F" and v: "answers_for c F v" and c: "c \<in> {OK, KO}"
  shows "counters_fit (mc_state (answered v (length (waiting m)) m))"
    and "let st = mc_state (answered v (length (waiting m)) m) in
      snowball_round (unat (ss_alfa st)) (unat (ss_beta st))
        (unat (fst (ss_response_buffer st)), unat (snd (ss_response_buffer st))) (abs_vote st)
      = (unanimous c (Suc n), if Suc n < unat (ss_beta (mc_state m)) then None else Some c)"
proof -
  have s: "stays False never m" and k: "length (waiting m) = unat (ss_k (mc_state m))"
    and a: "card F + unat (ss_alfa (mc_state m)) \<le> unat (ss_k (mc_state m))" and nb: "n < unat (ss_beta (mc_state m))"
    and av: "abs_vote (mc_state m) = unanimous c n"
    using u by (simp_all add: unanimous_so_far_def)
  let ?mk = "answered v (length (waiting m)) m" and ?ps = "map fst (waiting m)"
  have "unat (ss_k (mc_state m)) < 2 ^ 64" using unsigned_less [of "ss_k (mc_state m)"] by simp
  then have votes: "votes_cast v False ?ps < 2 ^ 64" "votes_cast v True ?ps < 2 ^ 64"
    using votes_cast_all [of v ?ps] k by simp_all
  have "unat (ss_beta (mc_state m)) < 2 ^ 64" using unsigned_less [of "ss_beta (mc_state m)"] by simp
  then have "n < 2 ^ 64 - 1" using nb by simp
  moreover have "abs_support (ss_decision_array (mc_state m)) OK \<le> n" "abs_support (ss_decision_array (mc_state m)) KO \<le> n"
    "unat (ss_confidence_counter (mc_state m)) = n"
    using av by (simp_all add: abs_vote_def unanimous_def fresh_vote_def split: if_splits)
  ultimately show "counters_fit (mc_state ?mk)" by (simp add: counters_fit_def answered_state abs_support_def)
  have "round_winner (unat (ss_alfa (mc_state m))) (votes_cast v False ?ps, votes_cast v True ?ps) = Some c"
    using s a k by (intro round_won [OF f _ v c]) (auto simp: inv_defs keys_distinct_def)
  moreover have "abs_vote (mc_state ?mk) = unanimous c n" using av by (simp add: answered_state abs_vote_def)
  ultimately show "let st = mc_state ?mk in
      snowball_round (unat (ss_alfa st)) (unat (ss_beta st))
        (unat (fst (ss_response_buffer st)), unat (snd (ss_response_buffer st))) (abs_vote st)
      = (unanimous c (Suc n), if Suc n < unat (ss_beta (mc_state m)) then None else Some c)"
    using votes by (simp add: answered_state snowball_round_def unat_of_nat unanimous_Suc [OF c]) (simp add: unanimous_def)
qed

text \<open>A round of answers for \<open>c\<close>, but for the peers of \<open>F\<close>, is won by \<open>c\<close>.\<close>

lemma unanimous_round:
  assumes ok: "env_ok False never env" and u: "unanimous_so_far c F b seq cs n m"
    and f: "finite F" and v: "answers_for c F v" and c: "c \<in> {OK, KO}"
  shows "wp (answer_round env v) (\<lambda>_ m'.
    if Suc n < unat (ss_beta (mc_state m))
    then unanimous_so_far c F b seq cs (Suc n) m' \<and> ss_beta (mc_state m') = ss_beta (mc_state m)
    else vote_over c b seq cs m') m"
proof -
  have l: "ss_phase (mc_state m) = Listening" and s: "stays False never m"
    and buf: "ss_response_buffer (mc_state m) = (0, 0)" and k: "length (waiting m) = unat (ss_k (mc_state m))"
    and a: "card F + unat (ss_alfa (mc_state m)) \<le> unat (ss_k (mc_state m))" and cs: "commits_of (io_trace (mc_io m)) = cs"
    and bs: "ss_decision_block (mc_state m) = b" "ss_seq_num (mc_state m) = seq"
    using u by (simp_all add: unanimous_so_far_def)
  let ?mk = "answered v (length (waiting m)) m"
  note st = answered_state(1) [of v m] and io = answered_state(2) [of v m]
  note fit = answered_round(1) [OF u f v c] and sr = answered_round(2) [OF u f v c, unfolded Let_def]
  have valid: "\<forall>p. sm_vote (v p) = 0 \<or> sm_vote (v p) = 1" using v by (simp add: answers_for_def)
  show ?thesis
  proof (rule wpx_conseq [OF answer_round_wpx [OF ok s l buf k valid]], elim conjE)
    fix m'
    assume e: "evaluating False never ?mk" and r: "round_evaluated env ?mk m'"
    have ew: "waiting ?mk = []" "ss_phase (mc_state ?mk) = Listening" "voting (mc_state ?mk)"
      using e by (simp_all add: evaluating_def)
    note refines = round_evaluated_refines [OF r ew fit sr]
    show "if Suc n < unat (ss_beta (mc_state m))
      then unanimous_so_far c F b seq cs (Suc n) m' \<and> ss_beta (mc_state m') = ss_beta (mc_state m)
      else vote_over c b seq cs m'"
    proof (cases "Suc n < unat (ss_beta (mc_state m))")
      case True
      then have l': "ss_phase (mc_state m') = Listening" using refines(2) by simp
      show ?thesis
        using True l' refines(1) round_evaluated_inv [OF r e] evaluated_round_asks [OF r ew(1,2) l']
          round_evaluated_keeps_vote [OF r ew(3,2) l'] round_evaluated_parameters [OF r ew(1)] a bs cs io
        by (simp add: unanimous_so_far_def st)
    next
      case False
      then have over: "ss_phase (mc_state m') = Idle \<and> ss_decision_map (mc_state m') seq = Some c
          \<and> (c = KO \<longrightarrow> FailBlock b \<in> set (io_trace (mc_io m')))"
        using refines(3) [of c] bs by (auto simp: st)
      then have "commits_of (io_trace (mc_io m')) = cs @ (if c = OK then [b] else [])"
        using round_evaluated_commits [OF r ew(3,2)] bs cs io by (simp add: st)
      with over False show ?thesis by (auto simp: vote_over_def)
    qed
  qed
qed

lemma unanimous_rounds:
  assumes ok: "env_ok False never env" and f: "finite F" and c: "c \<in> {OK, KO}"
    and "\<forall>v\<in>set vs. answers_for c F v"
    and "unanimous_so_far c F b seq cs n m" and "n + length vs = unat (ss_beta (mc_state m))"
  shows "wp (answer_rounds env vs) (\<lambda>_. vote_over c b seq cs) m"
  using assms(4,5,6)
proof (induction vs arbitrary: n m)
  case Nil
  then show ?case by (simp add: unanimous_so_far_def)
next
  case (Cons v vs)
  have v: "answers_for c F v" using Cons.prems(1) by simp
  note round = unanimous_round [OF ok Cons.prems(2) f v c]
  show ?case
  proof (cases vs)
    case Nil
    then show ?thesis using round Cons.prems(3) by (simp add: wpx_thenM wpx_returnM_fun)
  next
    case (Cons v' vs')
    then have "Suc n < unat (ss_beta (mc_state m))" using Cons.prems(3) by simp
    then have "wp (answer_round env v) (\<lambda>_ m'. unanimous_so_far c F b seq cs (Suc n) m' \<and> ss_beta (mc_state m') = ss_beta (mc_state m)) m"
      using round by simp
    then show ?thesis
      unfolding answer_rounds.simps wpx_thenM
      by (rule wpx_conseq) (use Cons.IH Cons.prems(1,3) in auto)
  qed
qed

text \<open>The first round of the vote, from \<open>handle_queue\<close>.\<close>

lemma vote_begins:
  assumes "env_ok False never env" and "stays False never m"
    and "mc_block_queue m = b # bs" and "block_id b \<noteq> ss_decision_block (mc_state m)"
    and "fst (ev_get_chain_head env (io_world (mc_io m))) = Inr head" and "block_num head \<le> block_num b"
    and "card F + unat (ss_alfa (mc_state m)) \<le> unat (ss_k (mc_state m))"
  shows "wp (handle_queue env) (\<lambda>_ m1.
    unanimous_so_far c F (block_id b) (ss_seq_num (mc_state m) + 1) (commits_of (io_trace (mc_io m))) 0 m1
    \<and> ss_beta (mc_state m1) = ss_beta (mc_state m)) m"
proof -
  have i: "node_inv m" using assms(2) by (simp add: stays_def)
  have nl: "ss_phase (mc_state m) \<noteq> Listening"
    using assms(2-4) by (auto simp: stays_def node_inv_def phase_ok_def round_ok_def)
  then have idle: "ss_phase (mc_state m) = Idle" "waiting m = []"
    using assms(2) by (cases "ss_phase (mc_state m)"; simp add: stays_def node_inv_def phase_ok_def)+
  have beta: "0 < unat (ss_beta (mc_state m))" using assms(2) by (simp add: inv_defs)
  have "wp (handle_queue env) (\<lambda>_ m1. queue_handled env m m1) m"
    by (rule handle_queue_wpx [OF assms(1)]) (use idle_ready [OF assms(2) nl] in simp_all)
  moreover have "wlp (handle_queue env) (\<lambda>_ m1. stays False never m1) m"
    using handle_queue_inv [OF assms(1,2)] by (rule wpx_mono) simp_all
  ultimately have "wp (handle_queue env) (\<lambda>_ m1. queue_handled env m m1 \<and> stays False never m1) m"
    by (rule wpx_conj)
  then show ?thesis
  proof (rule wpx_conseq, elim conjE)
    fix m1
    assume h: "queue_handled env m m1" and s1: "stays False never m1"
    then obtain m0 where a0: "acted [GetChainHead, CheckBlocks [block_id b]] m m0"
      and vs: "vote_started env (block_id b) m0 m1"
      using assms(3-6) by (auto simp: queue_handled_def block_examined_def split: if_splits)
    have m0: "mc_state m0 = mc_state m" using a0 by (simp add: acted_def)
    have i0: "waiting m0 = []" "ss_phase (mc_state m0) = Idle" using idle m0 by simp_all
    obtain m2 where n2: "new_round_from env (with_state (start_vote (block_id b)) m0) m2" and m1: "m1 = with_state switch_phase m2"
      using vs by (auto simp: vote_started_def)
    note q = queriedD [OF new_round_fromD(1) [OF n2]]
    have par: "ss_alfa (mc_state m1) = ss_alfa (mc_state m)" "ss_beta (mc_state m1) = ss_beta (mc_state m)"
      "ss_k (mc_state m1) = ss_k (mc_state m)" "ss_response_buffer (mc_state m1) = (0, 0)"
      using q i0 m0 m1 new_round_fromD(4) [OF n2] by (simp_all add: clear_buffer_def)
    have "commits_of (io_trace (mc_io m1)) = commits_of (io_trace (mc_io m))"
      using queue_handled_step [OF h i] nl
      by (auto elim!: protocol_stepE simp: protocol_view_def vote_defs protocol.ext_inject)
    then show "unanimous_so_far c F (block_id b) (ss_seq_num (mc_state m) + 1) (commits_of (io_trace (mc_io m))) 0 m1
        \<and> ss_beta (mc_state m1) = ss_beta (mc_state m)"
      using vote_begun [OF vs i0] par s1 assms(7) m0 beta
      by (simp add: unanimous_so_far_def unanimous_def)
  qed
qed

lemma vote_runs:
  assumes "env_ok False never env" and "stays False never m"
    and "mc_block_queue m = b # bs" and "block_id b \<noteq> ss_decision_block (mc_state m)"
    and "fst (ev_get_chain_head env (io_world (mc_io m))) = Inr head" and "block_num head \<le> block_num b"
    and "finite F" and "card F + unat (ss_alfa (mc_state m)) \<le> unat (ss_k (mc_state m))"
    and "c \<in> {OK, KO}" and "length vs = unat (ss_beta (mc_state m))" and "\<forall>v\<in>set vs. answers_for c F v"
  shows "\<exists>m'. thenM (handle_queue env) (answer_rounds env vs) m = Some (Return () m')
    \<and> vote_over c (block_id b) (ss_seq_num (mc_state m) + 1) (commits_of (io_trace (mc_io m))) m'"
proof -
  have "wp (thenM (handle_queue env) (answer_rounds env vs))
      (\<lambda>_. vote_over c (block_id b) (ss_seq_num (mc_state m) + 1) (commits_of (io_trace (mc_io m)))) m"
    unfolding wpx_thenM
    by (rule wpx_conseq [OF vote_begins [OF assms(1-6,8), of c]])
      (use unanimous_rounds [OF assms(1,7,9,11)] assms(10) in fastforce)
  then show ?thesis by (auto simp: wp_iff)
qed

text \<open>
  C8: A vote ends, and with the right decision, although some peers answer as they like. An idle
  node with a new block at the front of its queue starts the vote in \<open>handle_queue\<close>. When every peer
  it then asks answers with a vote, round after round, and all but the peers of a set \<open>F\<close> of at most
  \<open>k - alfa\<close> members answer for the same colour \<open>c\<close>, the vote is over after \<open>beta\<close> rounds: all of it
  returns, the decision recorded under the vote's sequence number is \<open>c\<close>, the node is idle again,
  and exactly for \<open>c = OK\<close> the block is committed; for \<open>KO\<close> it is failed.
\<close>

theorem vote_tolerates_faulty_peers:
  assumes "env_ok False never env" and "stays False never m"
    and "mc_block_queue m = b # bs" and "block_id b \<noteq> ss_decision_block (mc_state m)"
    and "fst (ev_get_chain_head env (io_world (mc_io m))) = Inr head" and "block_num head \<le> block_num b"
    and "finite F" and "card F + unat (ss_alfa (mc_state m)) \<le> unat (ss_k (mc_state m))"
    and "c \<in> {OK, KO}" and "length vs = unat (ss_beta (mc_state m))" and "\<forall>v\<in>set vs. answers_for c F v"
  shows "\<exists>m'. thenM (handle_queue env) (answer_rounds env vs) m = Some (Return () m')
    \<and> ss_phase (mc_state m') = Idle \<and> ss_decision_map (mc_state m') (ss_seq_num (mc_state m) + 1) = Some c
    \<and> commits_of (io_trace (mc_io m')) = commits_of (io_trace (mc_io m)) @ (if c = OK then [block_id b] else [])
    \<and> (c = KO \<longrightarrow> FailBlock (block_id b) \<in> set (io_trace (mc_io m')))"
  using vote_runs [OF assms] unfolding vote_over_def .

text \<open>
  Four members, three of them asked, and a majority of two: one peer may answer as it likes. It
  answers for the block, the others against it.
\<close>

definition four_members :: "world machine" where
  "four_members = with_state (\<lambda>st. st\<lparr>ss_member_ids := [[1], [2], [3], [4]], ss_k := 3\<rparr>) (idle_machine new_block)"

lemma four_stays: "stays D E four_members"
proof -
  have "Suc (card (others four_members)) = length (members four_members)"
    using card_others [of four_members] by (simp add: order_valid_def four_members_def sample_defs)
  then show ?thesis
    by (simp add: stays_def provided_def delay_ok_def four_members_def sample_defs
        node_inv_def parameters_ok_def place_ok_def keys_distinct_def phase_ok_def)
qed

theorem vote_tolerates_faulty_peers_witness:
  "\<exists>m'. thenM (handle_queue sample_env)
      (answer_rounds sample_env (replicate 3 (\<lambda>p. vote_for (if p = [3] then 1 else 0)))) four_members = Some (Return () m')
    \<and> ss_phase (mc_state m') = Idle \<and> ss_decision_map (mc_state m') 7 = Some KO \<and> FailBlock [6] \<in> set (io_trace (mc_io m'))"
proof -
  let ?m = four_members
  have q: "mc_block_queue ?m = [new_block]" "block_id new_block \<noteq> ss_decision_block (mc_state ?m)"
    "fst (ev_get_chain_head sample_env (io_world (mc_io ?m))) = Inr genesis" "block_num genesis \<le> block_num new_block"
    by (simp_all add: four_members_def sample_defs) (simp add: sample_env_def sample_defs)
  have f: "finite {[3 :: u8]}" "card {[3 :: u8]} + unat (ss_alfa (mc_state ?m)) \<le> unat (ss_k (mc_state ?m))" "KO \<in> {OK, KO}"
    by (simp_all add: four_members_def sample_defs)
  let ?vs = "replicate 3 (\<lambda>p :: peer_id. vote_for (if p = [3] then 1 else 0))"
  have v: "length ?vs = unat (ss_beta (mc_state ?m))" "\<forall>v\<in>set ?vs. answers_for KO {[3]} v"
    by (simp_all add: four_members_def sample_defs answers_for_def vote_of_def vote_for_def)
  have n: "ss_seq_num (mc_state ?m) + 1 = 7" "block_id new_block = [6]"
    by (simp_all add: four_members_def sample_defs)
  from vote_tolerates_faulty_peers [OF sample_env_ok four_stays q f v] show ?thesis
    unfolding n by blast
qed

text \<open>When everybody asked is for the block, it is committed.\<close>

lemma unanimous_votes_commit:
  assumes "env_ok False never env" and "stays False never m" and "sm_vote v = 1"
    and "mc_block_queue m = b # bs" and "block_id b \<noteq> ss_decision_block (mc_state m)"
    and "fst (ev_get_chain_head env (io_world (mc_io m))) = Inr head" and "block_num head \<le> block_num b"
    and "ss_alfa (mc_state m) \<le> ss_k (mc_state m)"
  shows "\<exists>m'. thenM (handle_queue env) (answer_rounds env (replicate (unat (ss_beta (mc_state m))) (\<lambda>_. v))) m
      = Some (Return () m')
    \<and> ss_phase (mc_state m') = Idle \<and> ss_decision_map (mc_state m') (ss_seq_num (mc_state m) + 1) = Some OK
    \<and> block_id b \<in> set (commits_of (io_trace (mc_io m')))"
proof -
  let ?vs = "replicate (unat (ss_beta (mc_state m))) (\<lambda>_ :: peer_id. v)"
  have v: "\<forall>w\<in>set ?vs. answers_for OK {} w"
    using assms(3) by (simp add: answers_for_def vote_of_def)
  have "\<exists>m'. thenM (handle_queue env) (answer_rounds env ?vs) m = Some (Return () m')
      \<and> vote_over OK (block_id b) (ss_seq_num (mc_state m) + 1) (commits_of (io_trace (mc_io m))) m'"
    by (rule vote_runs [OF assms(1,2,4-7) _ _ _ _ v]) (use assms(8) in \<open>simp_all add: word_le_nat_alt\<close>)
  then show ?thesis by (auto simp: vote_over_def)
qed

end
