(* ===== verification/Node_Exchange.thy ===== *)
theory Node_Exchange
  imports Node_Properties
begin

text \<open>
  Two nodes and the network between them: the bytes one node sends reach the other as an update,
  and the bytes of its answer come back. What the asking node counts is what the asked node has
  recorded. And what an answer can be: late, or the second one of its sender in the same round.
\<close>

section \<open>A message as it is sent and received\<close>

definition honest :: "snowball_state \<Rightarrow> bool" where
  "honest st \<longleftrightarrow> \<not> bz_enabled (ss_byzantine_test st)"

text \<open>A peer message as the validator hands it to the engine.\<close>

definition delivered :: "string \<Rightarrow> bytes \<Rightarrow> peer_id \<Rightarrow> incoming" where
  "delivered t content sender = Update (PeerMessage \<lparr>pm_message_type = t, pm_content = content\<rparr> sender)"

lemma sent_honest:
  assumes "sent env p t v n m m'" and "honest (mc_state m)"
  obtains content payload where "io_trace (mc_io m') = io_trace (mc_io m) @ [SendTo p t content]"
    and "encode_payload env payload = Some content" and "sm_vote payload = v" and "sm_seq_num payload = n"
    and "queried m m'" and "waiting m' = waiting m"
proof -
  have "\<not> byzantine f (mc_state m)" for f using assms(2) by (simp add: byzantine_def honest_def)
  then show ?thesis using assms(1) that by (auto simp: sent_def message_bytes_def repetitions_def)
qed

lemma handle_delivered:
  assumes "lawful_message_json env" and "encode_payload env payload = Some content"
    and "on_peer_message env t sender payload m = Some (Return again m')"
  shows "handle_update env (delivered t content sender) m = Some (Return True m')"
  using assms(3) decode_encode [OF assms(1,2), of m]
  by (simp add: handle_update_def delivered_def bindM_def returnM_def)

text \<open>The votes of a round with one more for the colour \<open>c\<close>.\<close>

fun one_more :: "decision_state \<Rightarrow> u64x2 \<Rightarrow> u64x2" where
  "one_more OK (ko, ok) = (ko, ok + 1)"
| "one_more _ (ko, ok) = (ko + 1, ok)"

lemma counted_one_more:
  "ss_response_buffer (count_vote (if c = OK then 1 else 0) st) = one_more c (ss_response_buffer st)"
  by (cases "ss_response_buffer st"; cases c) (simp_all add: count_vote_def)

lemma answer_counted:
  assumes "node_inv m" and "expects (mc_state m) q" and "Suc (buffered (mc_state m)) \<noteq> unat (ss_k (mc_state m))"
  defines "m' \<equiv> \<lambda>c. with_state (count_vote (if c = OK then 1 else 0)) (with_state (no_longer_awaited q) m)"
  shows "sm_vote payload = (if c = OK then 1 else 0) \<Longrightarrow> on_response env q payload m = Some (Return True (m' c))"
    and "ss_response_buffer (mc_state (m' c)) = one_more c (ss_response_buffer (mc_state m))"
    and "waiting (m' c) = AList.delete q (waiting m)"
proof -
  show "ss_response_buffer (mc_state (m' c)) = one_more c (ss_response_buffer (mc_state m))"
    "waiting (m' c) = AList.delete q (waiting m)"
    by (simp_all add: m'_def counted_one_more no_longer_awaited_def) (simp add: count_vote_def)
  assume v: "sm_vote payload = (if c = OK then 1 else 0)"
  then have v': "sm_vote payload = 0 \<or> sm_vote payload = 1" by simp
  have "\<not> round_complete (mc_state (m' c))"
    using count_vote_buffered [OF assms(1,2) v', of "m' c"] assms(3) v by (simp add: m'_def)
  then have "wpx False never (on_response env q payload) (\<lambda>r x. r \<and> x = m' c) m"
    using assms(2) v v'
    by (auto simp: on_response_def expects_def wp_simps m'_def count_vote_def no_longer_awaited_def
        round_complete_def with_state_def add2_def split: option.splits if_splits)
  then show "on_response env q payload m = Some (Return True (m' c))" by (auto simp: wp_iff)
qed

lemma on_peer_message_response: "on_peer_message env ''response'' q payload = on_response env q payload"
  by (simp add: on_peer_message_def)

section \<open>A question and its answer\<close>

text \<open>
  C9: A question and its answer between two nodes, through the bytes on the network. A listening
  node asks a peer it awaits for its opinion on the current vote; the peer, when it has begun
  that vote (it may be votes ahead), handles the request with one message back; handling that one,
  the asking node counts exactly one vote, for the decision the peer has recorded for the vote,
  and awaits the peer no longer and everybody else as before. The peer's own votes, awaited peers
  and decisions are as they were. No update panics, and both messages decode to what was meant.
\<close>

theorem question_and_answer:
  fixes a b :: "'w machine"
  assumes "env_ok False never env" and "stays False never a" and "stays False never b"
    and "honest (mc_state a)" and "honest (mc_state b)" and "expects (mc_state a) q"
    and "ss_seq_num (mc_state a) \<le> ss_seq_num (mc_state b)"
    and "ss_decision_map (mc_state b) (ss_seq_num (mc_state a)) = Some c"
    and "Suc (buffered (mc_state a)) \<noteq> unat (ss_k (mc_state a))"
  shows "\<exists>a1 b1 a2 request response.
    send_peer_notification env q ''request'' (ss_seq_num (mc_state a)) a = Some (Return () a1)
    \<and> io_trace (mc_io a1) = io_trace (mc_io a) @ [SendTo q ''request'' request]
    \<and> handle_update env (delivered ''request'' request p) b = Some (Return True b1)
    \<and> io_trace (mc_io b1) = io_trace (mc_io b) @ [SendTo p ''response'' response]
    \<and> waiting b1 = waiting b \<and> ss_response_buffer (mc_state b1) = ss_response_buffer (mc_state b)
    \<and> ss_decision_map (mc_state b1) = ss_decision_map (mc_state b)
    \<and> handle_update env (delivered ''response'' response q) a1 = Some (Return True a2)
    \<and> ss_response_buffer (mc_state a2) = one_more c (ss_response_buffer (mc_state a))
    \<and> (\<forall>x. awaits (waiting a2) x \<longleftrightarrow> x \<noteq> q \<and> awaits (waiting a) x)"
proof -
  have js: "lawful_message_json env" using env_okD(6) [OF assms(1)] by simp
  have da: "delay_ok (never :: panic \<Rightarrow> 'w machine \<Rightarrow> bool) (mc_state a)"
    and db: "delay_ok (never :: panic \<Rightarrow> 'w machine \<Rightarrow> bool) (mc_state b)"
    using assms(2,3) by (simp_all add: stays_def provided_def)
  let ?n = "ss_seq_num (mc_state a)"
  have "wp (send_peer_notification env q ''request'' ?n) (\<lambda>_ a1. sent env q ''request'' 0 ?n a a1) a"
    by (rule send_peer_notification_wpx [OF assms(1) da])
  then obtain a1 where run: "send_peer_notification env q ''request'' ?n a = Some (Return () a1)"
    and asent: "sent env q ''request'' 0 ?n a a1"
    by (auto simp: wp_iff)
  obtain request pa where a1: "io_trace (mc_io a1) = io_trace (mc_io a) @ [SendTo q ''request'' request]"
    "encode_payload env pa = Some request" "sm_seq_num pa = ?n" "queried a a1" "waiting a1 = waiting a"
    by (rule sent_honest [OF asent assms(4)])
  have "wp (on_request env p pa) (request_answered env p pa b) b"
    by (rule on_request_wpx [OF assms(1) db])
  then obtain b1 where brun: "on_request env p pa b = Some (Return True b1)"
    and bsent: "sent env p ''response'' (if c = OK then 1 else 0) (ss_seq_num (mc_state b)) b b1"
    using a1(3) assms(7,8) by (auto simp: wp_iff request_answered_def Let_def split: if_splits)
  obtain response pb where b1: "io_trace (mc_io b1) = io_trace (mc_io b) @ [SendTo p ''response'' response]"
    "encode_payload env pb = Some response" "sm_vote pb = (if c = OK then 1 else 0)" "queried b b1" "waiting b1 = waiting b"
    by (rule sent_honest [OF bsent assms(5)])
  have bh: "handle_update env (delivered ''request'' request p) b = Some (Return True b1)"
    using brun by (intro handle_delivered [OF js a1(2)]) (simp add: on_peer_message_def)
  have s1: "stays False never a1" by (rule queried_inv [OF a1(4) assms(2)]) (use a1(5) assms(2) in \<open>simp_all add: inv_defs\<close>)
  note qa = queriedD [OF a1(4)]
  have x: "expects (mc_state a1) q" using assms(6) qa a1(5) by (simp add: expects_def)
  have i1: "node_inv a1" using s1 by (simp add: stays_def)
  have nc: "Suc (buffered (mc_state a1)) \<noteq> unat (ss_k (mc_state a1))"
    using assms(9) qa by (simp add: buffered_def)
  note counted = answer_counted [OF i1 x nc, where c = c]
  define a2 where "a2 = with_state (count_vote (if c = OK then 1 else 0)) (with_state (no_longer_awaited q) a1)"
  have ah: "handle_update env (delivered ''response'' response q) a1 = Some (Return True a2)"
    unfolding a2_def
    by (rule handle_delivered [OF js b1(2)]) (unfold on_peer_message_response, rule counted(1) [OF b1(3)])
  have a2: "ss_response_buffer (mc_state a2) = one_more c (ss_response_buffer (mc_state a))"
    "waiting a2 = AList.delete q (waiting a)"
    using counted(2,3) qa a1(5) unfolding a2_def by simp_all
  then have "\<forall>x. awaits (waiting a2) x \<longleftrightarrow> x \<noteq> q \<and> awaits (waiting a) x"
    by (simp add: wm.awaited_unawait)
  with run a1(1) bh b1 ah a2(1) queriedD [OF b1(4)] show ?thesis by blast
qed

text \<open>One node in the middle of its vote asks another, which prefers the block, for its opinion.\<close>

theorem question_and_answer_witness:
  "\<exists>a1 b1 a2 request response.
    handle_update sample_env (delivered ''request'' request [1]) (voting_machine [[3]] (0, 0)) = Some (Return True b1)
    \<and> io_trace (mc_io b1) = [SendTo [1] ''response'' response]
    \<and> handle_update sample_env (delivered ''response'' response [2]) a1 = Some (Return True a2)
    \<and> ss_response_buffer (mc_state a2) = (0, 1)"
proof -
  let ?a = "voting_machine [[2], [3]] (0, 0)" and ?b = "voting_machine [[3]] (0, 0)"
  have s: "stays False never ?a" "stays False never ?b" by (rule voting_stays, auto)+
  have h: "honest (mc_state ?a)" "honest (mc_state ?b)" by (simp_all add: honest_def sample_defs)
  have x: "expects (mc_state ?a) [2]" by (simp add: sample_expects)
  have n: "ss_seq_num (mc_state ?a) \<le> ss_seq_num (mc_state ?b)"
    "ss_decision_map (mc_state ?b) (ss_seq_num (mc_state ?a)) = Some OK"
    "Suc (buffered (mc_state ?a)) \<noteq> unat (ss_k (mc_state ?a))"
    by (simp_all add: sample_buffered) (simp_all add: sample_defs)
  have z: "io_trace (mc_io ?b) = []" "one_more OK (ss_response_buffer (mc_state ?a)) = (0, 1)"
    by (simp_all add: sample_defs)
  from question_and_answer [OF sample_env_ok s h x n, of "[1]"] show ?thesis
    unfolding z append_Nil by blast
qed

text \<open>
  C10: Which question an answer is to is not looked at. For a node that awaits a peer, every
  response of that peer with the same vote has the same effect, whatever the sequence number,
  nonce and type inside it: it is counted for the vote in progress, and the peer is no longer
  awaited. So a late answer, about an earlier block, decides on the current one.
\<close>

theorem late_answer_counts:
  assumes "lawful_message_json env" and "node_inv m" and "expects (mc_state m) q"
    and "Suc (buffered (mc_state m)) \<noteq> unat (ss_k (mc_state m))"
  shows "\<exists>m'. ss_response_buffer (mc_state m') = one_more c (ss_response_buffer (mc_state m))
    \<and> \<not> expects (mc_state m') q
    \<and> (\<forall>payload content. encode_payload env payload = Some content
        \<and> sm_vote payload = (if c = OK then 1 else 0) \<longrightarrow>
        handle_update env (delivered ''response'' content q) m = Some (Return True m'))"
proof -
  note counted = answer_counted [OF assms(2-4), where c = c]
  have h: "handle_update env (delivered ''response'' content q) m = Some (Return True
      (with_state (count_vote (if c = OK then 1 else 0)) (with_state (no_longer_awaited q) m)))"
    if "encode_payload env payload = Some content" "sm_vote payload = (if c = OK then 1 else 0)" for payload content
    by (rule handle_delivered [OF assms(1) that(1)]) (unfold on_peer_message_response, rule counted(1) [OF that(2)])
  have "\<not> expects (mc_state (with_state (count_vote (if c = OK then 1 else 0)) (with_state (no_longer_awaited q) m))) q"
    using counted(3) by (simp add: expects_def wm.awaited_unawait)
  with counted(2) h show ?thesis by blast
qed

text \<open>An answer about the vote 3 and one about the vote 7, at a node in its vote 7.\<close>

theorem late_answer_counts_witness:
  "\<exists>m'. ss_response_buffer (mc_state m') = (0, 1)
    \<and> (\<forall>n\<in>{3, 7}. handle_update sample_env
          (delivered ''response'' (as_bytes (message_text (vote_for 1\<lparr>sm_seq_num := n\<rparr>))) [2])
          (voting_machine [[2], [3]] (0, 0)) = Some (Return True m'))"
proof -
  let ?m = "voting_machine [[2], [3]] (0, 0)"
  have i: "node_inv ?m" by (rule voting_inv) auto
  have x: "expects (mc_state ?m) [2]" "Suc (buffered (mc_state ?m)) \<noteq> unat (ss_k (mc_state ?m))"
    by (simp_all add: sample_expects sample_buffered sample_k)
  have e: "encode_payload sample_env p = Some (as_bytes (message_text p))" for p
    by (simp add: encode_payload_def sample_env_def)
  have "one_more OK (ss_response_buffer (mc_state ?m)) = (0, 1)" by (simp add: sample_defs)
  with late_answer_counts [OF sample_message_json i x, of OK] show ?thesis
    by (fastforce simp: e vote_for_def)
qed

section \<open>Two votes of one peer\<close>

text \<open>The peer that the generator draws first is asked instead of an unavailable one, if it is not awaited.\<close>

lemma drawn_peer_asked:
  fixes m :: "'w machine"
  assumes "env_ok False never env" and "delay_ok (never :: panic \<Rightarrow> 'w machine \<Rightarrow> bool) (mc_state m)"
    and kd: "keys_distinct (waiting m)" and x: "expects (mc_state m) q"
    and draw: "ev_uniform env (length (members m)) (io_world (mc_io m)) = Some (i, w)"
    and i: "i < length (members m)" "i \<noteq> unat (ss_order (mc_state m))" "\<not> awaits (waiting m) (members m ! i)"
  shows "\<exists>m'. on_unavailable env q m = Some (Return True m') \<and> queried m m'
    \<and> (\<forall>r. awaits (waiting m') r \<longleftrightarrow> r = members m ! i \<or> r \<noteq> q \<and> awaits (waiting m) r)
    \<and> keys_distinct (waiting m') \<and> length (waiting m') = length (waiting m)"
proof -
  let ?m1 = "with_state (no_longer_awaited q) m" and ?p = "members m ! i"
  let ?m3 = "await_at env ?p (with_world w ?m1)"
  have q1: "queried m ?m1" by (rule no_longer_awaited_queried)
  have q3: "queried (with_world w ?m1) ?m3" by (intro same_but_waiting_queried await_at_frame)
  have "queried ?m1 (with_world w ?m1)" by (intro same_but_world_queried) (simp add: same_but_world_def with_world_def)
  with q1 q3 have q: "queried m ?m3" by (blast intro: queried_trans)
  have kd1: "keys_distinct (waiting (with_world w ?m1))" using kd by (simp add: with_world_def wm.wf_unawait no_longer_awaited_def)
  have "select_node_sample env 1 ?m1 = Some (Return [i] (with_world w ?m1))"
    using sample_loop_step [of "[]" 1 env ?m1 i w] draw i(2) queriedD(4,17) [OF q1]
    by (simp add: select_node_sample_def sample_loop_done)
  then have "replace_loop env (Suc (length (waiting ?m1))) [] ?m1
      = replace_loop env (Suc (length (waiting ?m1))) ?p ?m3"
    using replace_loop_step [of ?m1 "Suc (length (waiting ?m1))" env i "with_world w ?m1" "[]"]
      env_okD(2) [OF assms(1)] i(1) by (simp add: with_world_def no_longer_awaited_def)
  also have "\<dots> = Some (Return ?p ?m3)"
    using await_at_length [OF kd1, of env ?p] i(3)
    by (intro replace_loop_done) (simp add: with_world_def no_longer_awaited_def wm.awaited_unawait)
  finally have loop: "replace_loop env (Suc (length (waiting ?m1))) [] ?m1 = Some (Return ?p ?m3)" .
  have "delay_ok (never :: panic \<Rightarrow> 'w machine \<Rightarrow> bool) (mc_state ?m3)"
    using assms(2) queried_derived(3) [OF q, of "never :: panic \<Rightarrow> 'w machine \<Rightarrow> bool"] by simp
  then have "wp (send_peer_notification env ?p ''request'' n) (\<lambda>_ m'. sent env ?p ''request'' 0 n ?m3 m') ?m3" for n
    by (intro send_peer_notification_wpx [OF assms(1)])
  then obtain m' where "send_peer_notification env ?p ''request'' (ss_seq_num (mc_state ?m3)) ?m3 = Some (Return () m')"
    and s: "sent env ?p ''request'' 0 (ss_seq_num (mc_state ?m3)) ?m3 m'"
    by (auto simp: wp_iff)
  with loop x have run: "on_unavailable env q m = Some (Return True m')"
    by (simp add: on_unavailable_def request_other_peer_def bindM_def thenM_def getM_def returnM_def upd_state_def
        modifyM_def expects_def with_state_def no_longer_awaited_def)
  have "waiting m' = waiting ?m3" using sent_queried [OF s] by simp
  then show ?thesis
    using run queried_trans [OF q conjunct1 [OF sent_queried [OF s]]] await_at_keys [OF kd1] await_at_length [OF kd1, of env ?p]
      wm.size_unawait [OF kd, of q] x i(3)
    by (intro exI [of _ m']) (auto simp: with_world_def no_longer_awaited_def wm.awaited_unawait expects_def)
qed

text \<open>
  C14: A peer can vote twice in a round. When an awaited peer has answered and another one is
  unavailable, the generator may choose for its replacement the peer that has answered, which is
  not awaited any more; it is asked again, and its second answer is counted beside the first one.
  So one dishonest peer can have more than one vote in a sample.
\<close>

theorem answered_peer_votes_again:
  fixes m :: "'w machine"
  assumes "env_ok False never env" and "stays False never m" and "expects (mc_state m) (members m ! i)"
    and "expects (mc_state m) q" and "q \<noteq> members m ! i"
    and "ev_uniform env (length (members m)) (io_world (mc_io m)) = Some (i, w)"
    and "i < length (members m)" and "i \<noteq> unat (ss_order (mc_state m))"
    and "Suc (Suc (buffered (mc_state m))) \<noteq> unat (ss_k (mc_state m))"
    and "sm_vote v = (if c = OK then 1 else 0)" and "sm_vote v' = (if c' = OK then 1 else 0)"
  shows "\<exists>m1 m2 m3. on_response env (members m ! i) v m = Some (Return True m1)
    \<and> on_unavailable env q m1 = Some (Return True m2)
    \<and> on_response env (members m ! i) v' m2 = Some (Return True m3)
    \<and> ss_response_buffer (mc_state m3) = one_more c' (one_more c (ss_response_buffer (mc_state m)))"
proof -
  let ?p = "members m ! i"
  let ?m1 = "with_state (count_vote (if c = OK then 1 else 0)) (with_state (no_longer_awaited ?p) m)"
  have i: "node_inv m" and kd: "keys_distinct (waiting m)" and dl: "delay_ok (never :: panic \<Rightarrow> 'w machine \<Rightarrow> bool) (mc_state m)"
    using assms(2) by (auto simp: stays_def provided_def inv_defs)
  have a: "awaits (waiting m) ?p" "awaits (waiting m) q" "ss_phase (mc_state m) = Listening"
    using assms(3,4) by (simp_all add: expects_def)
  have "awaits (AList.delete ?p (waiting m)) q" using a(2) assms(5) by (simp add: wm.awaited_unawait)
  then have two: "2 \<le> length (waiting m)"
    using wm.size_unawait [OF kd a(1)] wm.size_unawait [OF wm.wf_unawait [OF kd]] by fastforce
  have bound: "buffered (mc_state m) + length (waiting m) \<le> unat (ss_k (mc_state m))"
    using i a(3) by (auto simp: inv_defs round_ok_def)
  then have n1: "Suc (buffered (mc_state m)) \<noteq> unat (ss_k (mc_state m))" using two by simp
  note first = answer_counted [OF i assms(3) n1, where c = c]
  have w1: "waiting ?m1 = AList.delete ?p (waiting m)" by (rule first(3))
  have x1: "expects (mc_state ?m1) q"
    using a assms(5) w1 by (simp add: expects_def wm.awaited_unawait count_vote_def no_longer_awaited_def)
  have same: "members ?m1 = members m" "ss_order (mc_state ?m1) = ss_order (mc_state m)" "mc_io ?m1 = mc_io m"
    "delay_ok (never :: panic \<Rightarrow> 'w machine \<Rightarrow> bool) (mc_state ?m1)" "keys_distinct (waiting ?m1)"
    using dl wm.wf_unawait [OF kd] by (simp_all add: count_vote_def no_longer_awaited_def delay_ok_def)
  obtain m2 where run: "on_unavailable env q ?m1 = Some (Return True m2)" and q2: "queried ?m1 m2"
    and aw: "awaits (waiting m2) ?p"
    using drawn_peer_asked [OF assms(1) same(4,5) x1, of i w] assms(6-8) same(1-3) w1
    by (auto simp: wm.awaited_unawait)
  have v: "sm_vote v = 0 \<or> sm_vote v = 1" using assms(10) by simp
  have s1: "stays False never ?m1"
    using count_vote_inv(2) [OF assms(2,3) v refl] count_vote_buffered [OF i assms(3) v refl] n1 assms(10) by simp
  have s2: "stays False never m2"
    using on_unavailable_inv [OF assms(1) s1, of q] run by (auto simp: wp_iff)
  have b2: "ss_response_buffer (mc_state m2) = one_more c (ss_response_buffer (mc_state m))"
    "ss_k (mc_state m2) = ss_k (mc_state m)" "ss_phase (mc_state m2) = Listening"
    using queriedD(8,12,16) [OF q2] first(2) a(3) by (simp_all add: count_vote_def no_longer_awaited_def)
  have "buffered (mc_state m2) = Suc (buffered (mc_state m))"
    using count_vote_buffered(1) [OF i assms(3) v refl] queriedD(12) [OF q2] assms(10) by (simp add: buffered_def)
  then have n2: "Suc (buffered (mc_state m2)) \<noteq> unat (ss_k (mc_state m2))" using assms(9) b2 by simp
  have x2: "expects (mc_state m2) ?p" using aw b2(3) by (simp add: expects_def)
  have i2: "node_inv m2" using s2 by (simp add: stays_def)
  note second = answer_counted [OF i2 x2 n2, where c = c']
  from first(1) [OF assms(10)] run second(1) [OF assms(11)] second(2) b2(1) show ?thesis
    by (metis (no_types, lifting))
qed

text \<open>Four members; the first peer asked votes against the block, twice, as the second one is unavailable.\<close>

definition busy_machine :: "world machine" where
  "busy_machine = with_state (\<lambda>st. st\<lparr>ss_member_ids := [[1], [2], [3], [4]], ss_k := 3\<rparr>)
     (voting_machine [[2], [3], [4]] (0, 0))\<lparr>mc_io := sample_io\<lparr>io_world := (io_world sample_io)\<lparr>wd_draws := 1\<rparr>\<rparr>\<rparr>"

lemma busy_stays: "stays D E busy_machine"
proof -
  have "Suc (card (others busy_machine)) = length (members busy_machine)"
    using card_others [of busy_machine] by (simp add: order_valid_def busy_machine_def sample_defs)
  then show ?thesis
    by (simp add: stays_def provided_def delay_ok_def busy_machine_def sample_defs comp_def voting_def buffered_def
        node_inv_def parameters_ok_def place_ok_def keys_distinct_def phase_ok_def round_ok_def)
qed

theorem answered_peer_votes_again_witness:
  "\<exists>m1 m2 m3. on_response sample_env [2] (vote_for 0) busy_machine = Some (Return True m1)
    \<and> on_unavailable sample_env [3] m1 = Some (Return True m2)
    \<and> on_response sample_env [2] (vote_for 0) m2 = Some (Return True m3)
    \<and> ss_response_buffer (mc_state m3) = (2, 0)"
proof -
  let ?m = busy_machine
  have p: "members ?m ! 1 = [2]" "length (members ?m) = 4" "ss_order (mc_state ?m) = 0"
    "ss_response_buffer (mc_state ?m) = (0, 0)" "buffered (mc_state ?m) = 0" "ss_k (mc_state ?m) = 3"
    by (simp_all add: busy_machine_def sample_defs buffered_def)
  have x: "expects (mc_state ?m) [2]" "expects (mc_state ?m) [3]"
    by (simp_all add: expects_def awaits_def busy_machine_def voting_machine_def asked_at_def)
  have d: "ev_uniform sample_env 4 (io_world (mc_io ?m)) = Some (1, (io_world (mc_io ?m))\<lparr>wd_draws := 2\<rparr>)"
    by (simp add: busy_machine_def sample_env_def sample_io_def)
  have v: "sm_vote (vote_for 0) = (if KO = OK then 1 else 0)" by (simp add: vote_for_def)
  show ?thesis
    using answered_peer_votes_again [OF sample_env_ok busy_stays, of 1 "[3]" _ "vote_for 0" KO "vote_for 0" KO] x d v
    by (simp add: p p(1) [unfolded One_nat_def])
qed

end
