(* ===== verification/Node_Order.thy ===== *)
theory Node_Order
  imports Node_Stalls "HOL-Library.Sublist"
begin

text \<open>
  The order of the votes. Blocks wait in the node's queue; a vote is on the block at its front,
  which leaves it when the vote is over. So votes begin in the order in which the blocks arrived,
  a block that is announced again while it is voted on and nothing else waits stays at the front for
  good, and so does a block that comes to the front below the validator's chain head.
\<close>

section \<open>Votes in the order of arrival\<close>

definition in_order :: "block list \<Rightarrow> 'w machine \<Rightarrow> bool" where
  "in_order bs m \<longleftrightarrow> (\<exists>gone. map block_id bs = gone @ map block_id (mc_block_queue m)
     \<and> checks_of (io_trace (mc_io m))
        = gone @ (if ss_phase (mc_state m) = Listening then [ss_decision_block (mc_state m)] else []))"

lemma in_order_quietly:
  assumes "in_order bs m" and "quietly m m'" and "mc_block_queue m' = mc_block_queue m"
  shows "in_order bs m'"
  using assms by (auto simp: in_order_def quietly_def view_state_def quiet_view)

text \<open>What leaves the queue alone and makes no call about a block.\<close>

definition apart :: "'w machine \<Rightarrow> 'w machine \<Rightarrow> bool" where
  "apart m m' \<longleftrightarrow> quietly m m' \<and> mc_block_queue m' = mc_block_queue m"

lemma apart_refl [simp]: "apart m m"
  by (simp add: apart_def)

lemma apart_trans: "apart a b \<Longrightarrow> apart b c \<Longrightarrow> apart a c"
  by (auto simp: apart_def intro: quietly_trans)

lemma apartD:
  assumes "apart m m'"
  shows "ss_phase (mc_state m') = ss_phase (mc_state m)" "mc_block_queue m' = mc_block_queue m"
    "ss_decision_block (mc_state m') = ss_decision_block (mc_state m)"
    "checks_of (io_trace (mc_io m')) = checks_of (io_trace (mc_io m))"
  using assms by (auto simp: apart_def quietly_def view_state_def quiet_view)

lemma apartI: "quietly m m' \<Longrightarrow> queried m m' \<Longrightarrow> apart m m'"
  by (simp add: apart_def queriedD(2))

lemma sent_apart: "sent env p t v n m m' \<Longrightarrow> apart m m'"
  using sent_quietly sent_queried by (blast intro: apartI)

lemma no_longer_awaited_apart: "apart m (with_state (no_longer_awaited p) m)"
  by (intro apartI no_longer_awaited_quietly no_longer_awaited_queried)

lemma other_peer_apart: "other_peer_asked env m p m' \<Longrightarrow> apart m m'"
  by (intro apartI other_peer_quietly) (auto simp: other_peer_asked_def)

lemma new_round_apart: "new_round_from env m m' \<Longrightarrow> waiting m = [] \<Longrightarrow> apart m m'"
  using new_round_quietly queriedD(2) [OF new_round_fromD(1)] by (auto simp: apart_def clear_buffer_def)

text \<open>Of the actions, only the start of a vote and its end are not apart.\<close>

inductive vote_event :: "('w, 'm) node_env_scheme \<Rightarrow> 'w machine \<Rightarrow> 'w machine \<Rightarrow> bool" for env where
  starts: "mc_block_queue m = b # bs \<Longrightarrow> block_id b \<noteq> ss_decision_block (mc_state m) \<Longrightarrow>
    ss_phase (mc_state m) = Idle \<Longrightarrow> ss_phase (mc_state m') = Listening \<Longrightarrow>
    ss_decision_block (mc_state m') = block_id b \<Longrightarrow> mc_block_queue m' = mc_block_queue m \<Longrightarrow>
    checks_of (io_trace (mc_io m')) = checks_of (io_trace (mc_io m)) @ [block_id b] \<Longrightarrow> vote_event env m m'"
| stops: "ss_phase (mc_state m) = Listening \<Longrightarrow> ss_phase (mc_state m') = Idle \<Longrightarrow>
    ss_decision_block (mc_state m') = ss_decision_block (mc_state m) \<Longrightarrow>
    mc_block_queue m' = tl (mc_block_queue m) \<Longrightarrow>
    checks_of (io_trace (mc_io m')) = checks_of (io_trace (mc_io m)) \<Longrightarrow> vote_event env m m'"
| goes_on: "ss_phase (mc_state m') = ss_phase (mc_state m) \<Longrightarrow>
    ss_decision_block (mc_state m') = ss_decision_block (mc_state m) \<Longrightarrow>
    mc_block_queue m' = mc_block_queue m \<Longrightarrow>
    checks_of (io_trace (mc_io m')) = checks_of (io_trace (mc_io m)) \<Longrightarrow> vote_event env m m'"

lemma apart_goes_on: "apart m m' \<Longrightarrow> vote_event env m m'"
  by (rule goes_on) (simp_all add: apartD)

lemma queue_handled_event:
  assumes h: "queue_handled env m m'" and i: "node_inv m"
  shows "vote_event env m m'"
proof (cases "m' = m")
  case True
  then show ?thesis by (simp add: apart_goes_on)
next
  case False
  with h obtain b bs head where q: "mc_block_queue m = b # bs"
    and n: "block_id b \<noteq> ss_decision_block (mc_state m)" and x: "block_examined env b head m m'"
    by (auto simp: queue_handled_def split: list.splits if_splits)
  have idle: "ss_phase (mc_state m) = Idle" and w: "waiting m = []"
    using i q n by (auto simp: inv_defs round_ok_def split: phase.splits)
  show ?thesis
  proof (cases "block_num b < block_num head")
    case True
    then have "apart m m'"
      using x by (auto simp: block_examined_def acted_def apart_def elim!: quietly_traceI)
    then show ?thesis by (rule apart_goes_on)
  next
    case False
    with x obtain m1 where m1: "acted [GetChainHead, CheckBlocks [block_id b]] m m1"
      "vote_started env (block_id b) m1 m'" by (auto simp: block_examined_def)
    obtain m2 where n2: "new_round_from env (with_state (start_vote (block_id b)) m1) m2" and m': "m' = with_state switch_phase m2"
      using m1(2) by (auto simp: vote_started_def)
    have a: "apart (with_state (start_vote (block_id b)) m1) m2"
      using new_round_apart [OF n2] m1(1) w by (simp add: acted_def)
    have m1': "mc_state m1 = mc_state m" "mc_block_queue m1 = mc_block_queue m"
      "checks_of (io_trace (mc_io m1)) = checks_of (io_trace (mc_io m)) @ [block_id b]"
      using m1(1) by (simp_all add: acted_def checks_of_def)
    have "ss_phase (mc_state m2) = Idle" "ss_decision_block (mc_state m2) = block_id b"
      "mc_block_queue m2 = mc_block_queue m" "checks_of (io_trace (mc_io m2)) = checks_of (io_trace (mc_io m)) @ [block_id b]"
      using apartD [OF a] idle m1' by simp_all
    then show ?thesis
      by (intro starts [OF q n idle]) (simp_all add: m')
  qed
qed

lemma round_evaluated_event:
  assumes r: "round_evaluated env m m'" and w: "waiting m = []" and l: "ss_phase (mc_state m) = Listening"
  shows "vote_event env m m'"
proof -
  have round: "vote_event env m m'" if "new_round_from env m1 m'" "waiting m1 = []" "apart m m1 \<or>
      ss_phase (mc_state m1) = ss_phase (mc_state m) \<and> ss_decision_block (mc_state m1) = ss_decision_block (mc_state m)
      \<and> mc_block_queue m1 = mc_block_queue m \<and> mc_io m1 = mc_io m" for m1
    using apartD [OF new_round_apart [OF that(1,2)]] that(3) by (intro goes_on) (auto dest: apartD)
  show ?thesis
  proof (cases "winner (mc_state m)")
    case None
    with r w show ?thesis
      by (intro round [of "with_state (ss_confidence_counter_update (\<lambda>_. 0)) m"]) (auto simp: round_evaluated_def)
  next
    case (Some i)
    show ?thesis
    proof (cases "ss_beta (record_majority i (mc_state m)) \<le> ss_confidence_counter (record_majority i (mc_state m))")
      case True
      then have "decided env (with_state switch_phase (with_state (record_majority i) m)) m'"
        using r Some by (simp add: round_evaluated_def Let_def)
      then show ?thesis
        using l by (intro stops) (auto simp: decided_def Let_def checks_of_def)
    next
      case False
      then have "new_round_from env (with_state (record_majority i) m) m'"
        using r Some by (simp add: round_evaluated_def Let_def)
      then show ?thesis using w by (intro round [of "with_state (record_majority i) m"]) auto
    qed
  qed
qed

text \<open>A vote event after something apart is one of the whole.\<close>

lemma apart_vote_event:
  assumes "apart m m1" and "vote_event env m1 m'"
  shows "vote_event env m m'"
proof -
  note eq = apartD [OF assms(1)]
  show ?thesis
    using assms(2)
    by cases (auto simp: eq intro: starts stops goes_on)
qed

lemma response_handled_event:
  assumes h: "response_handled env p payload m r m'" and i: "node_inv m"
  shows "vote_event env m m'"
proof (cases "expects (mc_state m) p")
  case False
  with h show ?thesis by (simp add: response_handled_def apart_goes_on)
next
  case x: True
  let ?v = "sm_vote payload"
  let ?m1 = "with_state (no_longer_awaited p) m"
  let ?m2 = "with_state (count_vote ?v) ?m1"
  have a1: "apart m ?m1" by (rule no_longer_awaited_apart)
  have a2: "apart m ?m2"
    by (rule apart_trans [OF a1]) (auto simp: apart_def view_state_def count_vote_def intro: quietly_state)
  show ?thesis
  proof (cases "?v \<in> {0, 1} \<and> round_complete (mc_state ?m2)")
    case True
    then have v: "?v = 0 \<or> ?v = 1" and c: "round_complete (mc_state ?m2)" and r: "round_evaluated env ?m2 m'"
      using h x by (auto simp: response_handled_def Let_def)
    have "evaluating True anything ?m2"
      using count_vote_inv(1) [of True anything m p ?v] i x v c by simp
    then have "vote_event env ?m2 m'"
      using round_evaluated_event [OF r] by (simp add: evaluating_def)
    with a2 show ?thesis by (rule apart_vote_event)
  next
    case False
    with h x have "m' = ?m1 \<or> m' = ?m2" by (auto simp: response_handled_def Let_def split: if_splits)
    with a1 a2 show ?thesis by (auto intro: apart_goes_on)
  qed
qed

lemma peers_asked_queried: "peers_asked env ps m m' \<Longrightarrow> queried m m'"
  by (induction ps arbitrary: m) (auto simp: other_peer_asked_def intro: queried_trans)

lemma unresponsive_apart:
  assumes i: "node_inv m" and h: "unresponsive_handled env m m'"
  shows "apart m m'"
proof (cases "byzantine bz_hang_idx (mc_state m)")
  case True
  with h show ?thesis by (simp add: unresponsive_handled_def)
next
  case False
  with h obtain clock gone ps m1 where g: "same_but_world m m1" "peers_asked env ps (forget gone m1) m'"
    by (auto simp: unresponsive_handled_def)
  have "queried m m1" "queried m1 (forget gone m1)"
    using same_but_world_queried [OF g(1)] forget_queried by auto
  moreover have "queried (forget gone m1) m'"
    by (rule peers_asked_queried [OF g(2)])
  ultimately have "queried m m'" by (blast intro: queried_trans)
  then show ?thesis using unresponsive_quietly [OF h] by (rule apartI [rotated])
qed

lemma other_action_event:
  assumes i: "node_inv m" and a: "other_action env m m'"
  shows "vote_event env m m'"
  using a
proof cases
  case act_queue
  then show ?thesis using i by (rule queue_handled_event)
next
  case (act_members ps)
  then show ?thesis by (intro goes_on) simp_all
next
  case (act_request p payload r)
  then show ?thesis
    by (auto simp: request_answered_def Let_def intro: apart_goes_on sent_apart split: if_splits option.splits)
next
  case (act_response p payload r)
  then show ?thesis using i by (rule response_handled_event)
next
  case (act_unavailable p r)
  then show ?thesis
    using apart_trans [OF no_longer_awaited_apart other_peer_apart]
    by (auto simp: unavailable_handled_def intro!: apart_goes_on split: if_splits)
next
  case act_unresponsive
  then show ?thesis by (intro apart_goes_on unresponsive_apart [OF i])
next
  case act_publish
  then show ?thesis
    using published_quietly [of env m m']
    by (intro apart_goes_on) (auto simp: apart_def published_def finalized_def split: if_splits)
next
  case (act_outside es)
  then have "quiet es" by (auto simp: quiet_def)
  with act_outside have "quietly m m'" by (auto simp: acted_def elim!: quietly_traceI)
  with act_outside show ?thesis by (intro apart_goes_on) (simp add: apart_def acted_def)
qed

text \<open>Vote events, and the arrival of a block, keep the order.\<close>

lemma in_order_event:
  assumes o: "in_order bs m" and e: "vote_event env m m'" and i: "node_inv m"
  shows "in_order bs m'"
  using e
proof cases
  case goes_on
  with o show ?thesis by (auto simp: in_order_def)
next
  case (starts b rest)
  with o show ?thesis by (auto simp: in_order_def)
next
  case stops
  obtain b rest where q: "mc_block_queue m = b # rest" "block_id b = ss_decision_block (mc_state m)"
    using i stops(1) by (auto simp: inv_defs round_ok_def)
  obtain gone where "map block_id bs = gone @ map block_id (mc_block_queue m)"
    "checks_of (io_trace (mc_io m)) = gone @ [ss_decision_block (mc_state m)]"
    using o stops(1) by (auto simp: in_order_def)
  then show ?thesis
    using stops q unfolding in_order_def by (intro exI [of _ "gone @ [block_id b]"]) simp
qed

lemma in_order_queued: "in_order bs m \<Longrightarrow> block_queued b m m' \<Longrightarrow> in_order (bs @ [b]) m'"
  by (auto simp: in_order_def block_queued_def)

lemma in_order_prefix:
  assumes "node_inv m" and "in_order bs m"
  shows "prefix (checks_of (io_trace (mc_io m))) (map block_id bs)"
  using assms by (auto simp: in_order_def inv_defs round_ok_def)

lemma event_inv:
  assumes "lawful env" and "node_inv m" and "other_step env m m'"
  shows "node_inv m' \<and> vote_event env m m'"
  using step_invariant [OF assms(1,2) other [OF assms(3)]] other_action_event [OF assms(2) other_step_action [OF assms]]
  by simp

lemma arrival_inv:
  assumes "lawful env" and "node_inv m" and "on_block_new env b m = Some (Return r m')"
  shows "node_inv m' \<and> block_queued b m m'"
  using step_invariant [OF assms(1,2) block_new [OF assms(3)]] on_block_new_action [OF assms(1,3)] by simp

interpretation order: engine_runs env "\<lambda>bs m. lawful env \<and> node_inv m \<and> in_order bs m"
  for env :: "('w, 'm) node_env_scheme"
  by unfold_locales (use event_inv arrival_inv in_order_event in_order_queued in blast)+

section \<open>A block that is announced twice\<close>

text \<open>
  The block at the front of the queue is the one that is or was voted on last, and when the vote
  is still on, the next block has the same id.
\<close>

definition repeated :: "'w machine \<Rightarrow> bool" where
  "repeated m \<longleftrightarrow> (\<exists>b bs. mc_block_queue m = b # bs \<and> block_id b = ss_decision_block (mc_state m)
     \<and> (ss_phase (mc_state m) = Listening \<longrightarrow> (\<exists>b' bs'. bs = b' # bs' \<and> block_id b' = block_id b)))"

lemma repeated_event:
  assumes "repeated m" and "vote_event env m m'"
  shows "repeated m' \<and> checks_of (io_trace (mc_io m')) = checks_of (io_trace (mc_io m))"
  using assms(2,1) by cases (auto simp: repeated_def)

lemma repeated_queued:
  assumes "repeated m" and "block_queued b m m'"
  shows "repeated m' \<and> checks_of (io_trace (mc_io m')) = checks_of (io_trace (mc_io m))"
  using assms by (auto simp: repeated_def block_queued_def)

interpretation twice: engine_runs env
    "\<lambda>_ m. lawful env \<and> node_inv m \<and> repeated m \<and> checks_of (io_trace (mc_io m)) = cs"
  for env :: "('w, 'm) node_env_scheme" and cs
  by unfold_locales (use event_inv arrival_inv repeated_event repeated_queued in metis)+

section \<open>A block below the chain head\<close>

text \<open>
  A block at the front that is neither being nor was last voted on, with the blocks checked and
  committed so far and a bound from below on how often it was failed.
\<close>

definition chain_above :: "('w, 'm) env_scheme \<Rightarrow> block \<Rightarrow> bool" where
  "chain_above env b \<longleftrightarrow> (\<forall>w. \<exists>head. fst (ev_get_chain_head env w) = Inr head \<and> block_num b < block_num head)"

definition fails_of :: "block \<Rightarrow> 'w machine \<Rightarrow> nat" where
  "fails_of b m = count_list (io_trace (mc_io m)) (FailBlock (block_id b))"

definition old_front :: "block \<Rightarrow> block_id list \<Rightarrow> block_id list \<Rightarrow> 'w machine \<Rightarrow> bool" where
  "old_front b cs ds m \<longleftrightarrow> (\<exists>bs. mc_block_queue m = b # bs) \<and> block_id b \<noteq> ss_decision_block (mc_state m)
     \<and> checks_of (io_trace (mc_io m)) = cs \<and> commits_of (io_trace (mc_io m)) = ds"

lemma old_front_idle: "node_inv m \<Longrightarrow> old_front b cs ds m \<Longrightarrow> ss_phase (mc_state m) \<noteq> Listening"
  by (auto simp: old_front_def inv_defs round_ok_def)

text \<open>Between votes no answer is expected, and only the queue starts something.\<close>

lemma other_action_idle:
  assumes i: "node_inv m" and l: "ss_phase (mc_state m) \<noteq> Listening" and a: "other_action env m m'"
  shows "queue_handled env m m' \<or> (\<exists>ps. m' = with_state (with_members ps) m) \<or> apart m m'"
  using a
proof cases
  case (act_request p payload r)
  then show ?thesis
    by (auto simp: request_answered_def Let_def intro: sent_apart split: if_splits option.splits)
next
  case (act_response p payload r)
  with l show ?thesis by (simp add: response_handled_def expects_def)
next
  case (act_unavailable p r)
  with l show ?thesis by (simp add: unavailable_handled_def expects_def)
next
  case act_unresponsive
  with unresponsive_apart [OF i] show ?thesis by blast
next
  case act_publish
  then show ?thesis
    using published_quietly [of env m m'] by (auto simp: apart_def published_def finalized_def split: if_splits)
next
  case (act_outside es)
  then have "quiet es" by (auto simp: quiet_def)
  with act_outside have "quietly m m'" by (auto simp: acted_def elim!: quietly_traceI)
  with act_outside show ?thesis by (simp add: apart_def acted_def)
qed auto

lemma apart_old:
  assumes "apart m m'" and "old_front b cs ds m"
  shows "old_front b cs ds m' \<and> fails_of b m \<le> fails_of b m'"
  using assms by (auto simp: apart_def quietly_def view_state_def old_front_def fails_of_def quiet_view)

lemma queue_old:
  assumes c: "chain_above env b" and o: "old_front b cs ds m" and h: "queue_handled env m m'"
  shows "old_front b cs ds m' \<and> Suc (fails_of b m) = fails_of b m'"
    and "acted [GetChainHead, FailBlock (block_id b)] m m'"
proof -
  obtain bs where q: "mc_block_queue m = b # bs" "block_id b \<noteq> ss_decision_block (mc_state m)"
    using o by (auto simp: old_front_def)
  then obtain head where "fst (ev_get_chain_head env (io_world (mc_io m))) = Inr head" "block_examined env b head m m'"
    using h by (auto simp: queue_handled_def)
  moreover have "block_num b < block_num head"
    using c calculation(1) unfolding chain_above_def by (metis sum.inject(2))
  ultimately show a: "acted [GetChainHead, FailBlock (block_id b)] m m'" by (simp add: block_examined_def)
  then show "old_front b cs ds m' \<and> Suc (fails_of b m) = fails_of b m'"
    using o by (auto simp: acted_def old_front_def fails_of_def checks_of_def commits_of_def)
qed

lemma other_step_old:
  assumes l: "lawful env" and i: "node_inv m" and c: "chain_above env b" and o: "old_front b cs ds m"
    and s: "other_step env m m'"
  shows "node_inv m' \<and> old_front b cs ds m' \<and> fails_of b m \<le> fails_of b m'"
  using event_inv [OF l i s] other_action_idle [OF i old_front_idle [OF i o] other_step_action [OF l i s]]
    queue_old [OF c o] apart_old [OF _ o] o
  by (fastforce simp: old_front_def fails_of_def)

lemma arrival_old:
  assumes l: "lawful env" and i: "node_inv m" and o: "old_front b cs ds m"
    and s: "on_block_new env b' m = Some (Return r m')"
  shows "node_inv m' \<and> old_front b cs ds m' \<and> fails_of b m \<le> fails_of b m'"
  using arrival_inv [OF l i s] o by (auto simp: block_queued_def old_front_def fails_of_def)

definition stuck_on :: "('w, 'm) node_env_scheme \<Rightarrow> block \<Rightarrow> block_id list \<Rightarrow> block_id list \<Rightarrow> nat \<Rightarrow> 'w machine \<Rightarrow> bool" where
  "stuck_on env b cs ds n m \<longleftrightarrow> lawful env \<and> chain_above env b \<and> node_inv m \<and> old_front b cs ds m \<and> n \<le> fails_of b m"

lemma stuck_step: "stuck_on env b cs ds n m \<Longrightarrow> other_step env m m' \<Longrightarrow> stuck_on env b cs ds n m'"
  unfolding stuck_on_def using other_step_old [of env m b cs ds m'] by auto

lemma stuck_arrival: "stuck_on env b cs ds n m \<Longrightarrow> on_block_new env b' m = Some (Return r m') \<Longrightarrow> stuck_on env b cs ds n m'"
  unfolding stuck_on_def using arrival_old [of env m b cs ds b' r m'] by auto

lemma stuck_less: "stuck_on env b cs ds (Suc n) m \<Longrightarrow> stuck_on env b cs ds n m"
  by (simp add: stuck_on_def)

interpretation stuck: engine_runs env "\<lambda>_. stuck_on env b cs ds n"
  for env :: "('w, 'm) node_env_scheme" and b cs ds n
  by unfold_locales (erule stuck_step stuck_arrival; assumption)+

text \<open>Each turn of the loop fails the block once more.\<close>

lemma handle_queue_stuck:
  assumes "stuck_on env b cs ds n m" and "\<And>m'. stuck_on env b cs ds (Suc n) m' \<Longrightarrow> Q () m'"
  shows "wlp (handle_queue env) Q m"
proof -
  have s: "lawful env" "chain_above env b" "node_inv m" "old_front b cs ds m" "n \<le> fails_of b m"
    using assms(1) by (simp_all add: stuck_on_def)
  show ?thesis
    unfolding wlp_iff
  proof (intro allI impI)
    fix u :: unit and m'
    assume h: "handle_queue env m = Some (Return u m')"
    then have "queue_handled env m m'" using handle_queue_action [OF s(1,3)] by (auto dest: wlpD)
    from queue_old(1) [OF s(2,4) this] other_step_old [OF s(1,3,2,4) queue] h s
    have "stuck_on env b cs ds (Suc n) m'" by (simp add: stuck_on_def)
    then show "Q u m'" using assms(2) by simp
  qed
qed

lemma turn_body_stuck:
  assumes "stuck_on env b cs ds n m"
  shows "wlp (turn_body env i lv) (\<lambda>(go, _). stuck_on env b cs ds (if go then Suc n else n)) m"
proof -
  have last: "wlp (turn_end env lv) (\<lambda>(go, _). stuck_on env b cs ds (if go then Suc n else n)) m'"
    if "stuck_on env b cs ds (Suc n) m'" for lv m'
    by (rule wpx_conseq [OF stuck.heard.turn_end_kept [OF that]]) (auto intro: stuck_less)
  note update = stuck.heard.handle_update_kept [where n = "Suc n" and b = b and cs = cs and ds = ds]
    and unresponsive = stuck.heard.unresponsive_kept [where n = "Suc n" and b = b and cs = cs and ds = ds]
  show ?thesis
    unfolding turn_body_def wpx_bindM [of _ _ "churn_check env _"]
    by (rule stuck.heard.churn_check_kept [OF assms])
      (auto simp: Let_def wpx_fun wpx_if split_beta intro!: handle_queue_stuck update unresponsive,
       (rule stuck_less last, assumption)+)
qed

lemma turn_stuck:
  assumes "stuck_on env b cs ds n m"
  shows "wlp (turn env sto i lv) (\<lambda>(go, _). stuck_on env b cs ds (if go then Suc n else n)) m"
  unfolding turn_def wpx_finallyM
proof (rule wpx_mono [OF turn_body_stuck [OF assms]])
  fix r :: "bool \<times> loop_vars" and m'
  assume "(case r of (go, _) \<Rightarrow> stuck_on env b cs ds (if go then Suc n else n)) m'"
  then show "wlp (drop_state_guard env sto)
      (\<lambda>_. case r of (go, _) \<Rightarrow> stuck_on env b cs ds (if go then Suc n else n)) m'"
    by (cases r) (auto intro!: stuck.heard.drop_state_guard_kept)
qed (simp_all add: wpx_def split: option.splits outcome.splits)

lemma engine_loop_stuck:
  "stuck_on env b cs ds n m \<Longrightarrow>
    wlp (engine_loop env sto is lv) (\<lambda>go. stuck_on env b cs ds (if go then n + length is else n)) m"
proof (induction "is" arbitrary: n lv m)
  case Nil
  then show ?case by (simp add: wp_simps)
next
  case (Cons i "is")
  show ?case
    unfolding engine_loop.simps wpx_bindM
  proof (rule wpx_conseq [OF turn_stuck [OF Cons.prems]])
    fix r :: "bool \<times> loop_vars" and m'
    assume "(case r of (go, _) \<Rightarrow> stuck_on env b cs ds (if go then Suc n else n)) m'"
    then show "wlp (case r of (go, lv) \<Rightarrow> if go then engine_loop env sto is lv else returnM False)
        (\<lambda>go. stuck_on env b cs ds (if go then n + length (i # is) else n)) m'"
      by (cases r) (auto simp: wpx_returnM split: if_splits intro!: wpx_conseq [OF Cons.IH], blast intro: stuck_less)
  qed
qed

end
