(* ===== verification/Node_Votes.thy ===== *)
theory Node_Votes
  imports Node_Order Snowball_Spec
begin

text \<open>
  What a commit costs. The node commits a block only after \<open>beta\<close> rounds with \<open>alfa\<close> votes for it,
  and a vote comes from a response that has arrived. So among the updates the engine has handled
  there are at least \<open>alfa * beta\<close> responses with a vote for the block for each commit it has made.
\<close>

section \<open>Responses with a vote for the block\<close>

definition vote_for_block :: "('w, 'm) node_env_scheme \<Rightarrow> incoming \<Rightarrow> bool" where
  "vote_for_block env i = (case i of
       Update (PeerMessage message _) \<Rightarrow> pm_message_type message = ''response''
         \<and> (case Option.bind (from_utf8 (pm_content message)) (nv_message_of_json env) of
              None \<Rightarrow> False
            | Some payload \<Rightarrow> sm_vote payload = 1)
     | _ \<Rightarrow> False)"

definition votes_heard :: "('w, 'm) node_env_scheme \<Rightarrow> incoming list \<Rightarrow> nat" where
  "votes_heard env us = length (filter (vote_for_block env) us)"

lemma votes_heard_simps [simp]:
  "votes_heard env [] = 0"
  "votes_heard env (us @ [i]) = votes_heard env us + (if vote_for_block env i then 1 else 0)"
  by (simp_all add: votes_heard_def)

lemma votes_heard_take: "votes_heard env (take n us) \<le> votes_heard env us"
proof -
  have "votes_heard env us = votes_heard env (take n us) + votes_heard env (drop n us)"
    by (metis votes_heard_def append_take_drop_id filter_append length_append)
  then show ?thesis by simp
qed

section \<open>The account of a vote\<close>

text \<open>
  With \<open>N\<close> votes for a block and \<open>L\<close> updates heard: the commits made so far, the rounds won by \<open>OK\<close>
  in the vote in progress and the answers of the round in progress have all been paid for.
\<close>

definition committed :: "'w machine \<Rightarrow> nat" where
  "committed m = length (commits_of (io_trace (mc_io m)))"

definition in_credit :: "nat \<Rightarrow> nat \<Rightarrow> nat \<Rightarrow> nat \<Rightarrow> 'w machine \<Rightarrow> bool" where
  "in_credit a b N L m \<longleftrightarrow> unat (ss_alfa (mc_state m)) = a \<and> unat (ss_beta (mc_state m)) = b
     \<and> (if ss_phase (mc_state m) = Listening
        then \<exists>rs. length rs \<le> L \<and> counters_mean rs (abs_vote (mc_state m))
          \<and> a * b * committed m + a * wins OK rs + unat (snd (ss_response_buffer (mc_state m))) \<le> N
        else a * b * committed m \<le> N)"

lemma in_credit_mono: "in_credit a b N L m \<Longrightarrow> N \<le> N' \<Longrightarrow> L \<le> L' \<Longrightarrow> in_credit a b N' L' m"
  by (auto simp: in_credit_def intro: order_trans split: if_splits)

text \<open>What leaves the account as it is.\<close>

definition tallied :: "'w machine \<Rightarrow> 'w machine \<Rightarrow> bool" where
  "tallied m m' \<longleftrightarrow> quietly m m'
     \<and> ss_alfa (mc_state m') = ss_alfa (mc_state m) \<and> ss_beta (mc_state m') = ss_beta (mc_state m)
     \<and> ss_last_color (mc_state m') = ss_last_color (mc_state m)
     \<and> ss_confidence_counter (mc_state m') = ss_confidence_counter (mc_state m)
     \<and> ss_decision_array (mc_state m') = ss_decision_array (mc_state m)
     \<and> ss_response_buffer (mc_state m') = ss_response_buffer (mc_state m)"

lemma tallied_refl [simp]: "tallied m m"
  by (simp add: tallied_def)

lemma tallied_trans: "tallied a b \<Longrightarrow> tallied b c \<Longrightarrow> tallied a c"
  by (auto simp: tallied_def intro: quietly_trans)

lemma quietly_committed: "quietly m m' \<Longrightarrow> committed m' = committed m"
  by (auto simp: committed_def quietly_def quiet_view)

lemma tallied_credit:
  assumes "tallied m m'" and "in_credit a b N L m"
  shows "in_credit a b N L m'"
proof -
  have "abs_vote (mc_state m') = abs_vote (mc_state m)" "ss_phase (mc_state m') = ss_phase (mc_state m)"
    using assms(1) by (auto simp: tallied_def quietly_def view_state_def intro!: abs_vote_cong)
  moreover have "committed m' = committed m"
    using assms(1) by (simp add: tallied_def quietly_committed)
  ultimately show ?thesis using assms by (simp add: in_credit_def tallied_def)
qed

lemma talliedI: "quietly m m' \<Longrightarrow> queried m m' \<Longrightarrow> tallied m m'"
  by (auto simp: tallied_def dest: queriedD)

lemma no_longer_awaited_tallied: "tallied m (with_state (no_longer_awaited p) m)"
  by (intro talliedI no_longer_awaited_quietly no_longer_awaited_queried)

lemma acted_tallied: "acted es m m' \<Longrightarrow> quiet es \<Longrightarrow> tallied m m'"
  by (auto simp: tallied_def acted_def elim!: quietly_traceI)

section \<open>The rounds\<close>

text \<open>A decision for \<open>OK\<close> takes \<open>beta\<close> rounds won by \<open>OK\<close>.\<close>

lemma streak_le_wins: "streak c rs \<le> wins c rs"
  by (induction rs rule: rev_induct) simp_all

lemma decided_wins:
  assumes "counters_mean rs s" and "b \<le> sb_count s"
  shows "b \<le> wins (sb_preferred s) rs"
proof -
  have "b \<le> wins (sb_last s) rs"
    using assms streak_le_wins [of "sb_last s" rs] by (simp add: counters_mean_def)
  also have "\<dots> \<le> wins (sb_preferred s) rs"
    using assms(1) by (auto simp: counters_mean_def)
  finally show ?thesis .
qed

lemma new_round_tally:
  assumes n: "new_round_from env m m'" and w: "waiting m = []"
  shows "ss_response_buffer (mc_state m') = (0, 0)" "committed m' = committed m"
    "ss_alfa (mc_state m') = ss_alfa (mc_state m)" "ss_beta (mc_state m') = ss_beta (mc_state m)"
  using queriedD(6,7) [OF new_round_fromD(1) [OF n w]] new_round_fromD(4) [OF n w]
    quietly_committed [OF new_round_quietly [OF n]]
  by (simp_all add: clear_buffer_def)

text \<open>What is left to say of an evaluated round, beside what it does to the counters.\<close>

lemma round_evaluated_tally:
  assumes r: "round_evaluated env m m'" and w: "waiting m = []" and l: "ss_phase (mc_state m) = Listening"
  shows "ss_alfa (mc_state m') = ss_alfa (mc_state m)" "ss_beta (mc_state m') = ss_beta (mc_state m)"
    "ss_phase (mc_state m') = Listening \<Longrightarrow>
      ss_response_buffer (mc_state m') = (0, 0) \<and> committed m' = committed m"
    "ss_phase (mc_state m') = Idle \<Longrightarrow> committed m'
      = committed m + (if ss_decision_map (mc_state m') (ss_seq_num (mc_state m)) = Some OK then 1 else 0)"
proof -
  let ?goal = "\<lambda>m'. ss_alfa (mc_state m') = ss_alfa (mc_state m) \<and> ss_beta (mc_state m') = ss_beta (mc_state m)
    \<and> (ss_phase (mc_state m') = Listening \<longrightarrow> ss_response_buffer (mc_state m') = (0, 0) \<and> committed m' = committed m)
    \<and> (ss_phase (mc_state m') = Idle \<longrightarrow> committed m'
        = committed m + (if ss_decision_map (mc_state m') (ss_seq_num (mc_state m)) = Some OK then 1 else 0))"
  have round: "?goal m'" if "new_round_from env (with_state f m) m'" "f = ss_confidence_counter_update (\<lambda>_. 0) \<or> f = record_majority i" for f i
  proof -
    have "waiting (with_state f m) = []" using that(2) w by auto
    from new_round_tally [OF that(1) this] new_round_abs(2) [OF that(1) this]
    show ?thesis using that(2) l by (auto simp: committed_def)
  qed
  have "?goal m'"
  proof (cases "winner (mc_state m)")
    case None
    with r round show ?thesis by (auto simp: round_evaluated_def)
  next
    case (Some i)
    let ?m = "with_state (record_majority i) m"
    show ?thesis
    proof (cases "ss_beta (mc_state ?m) \<le> ss_confidence_counter (mc_state ?m)")
      case True
      then have "decided env (with_state switch_phase ?m) m'"
        using r Some by (simp add: round_evaluated_def Let_def)
      then show ?thesis
        using l by (auto simp: decided_def Let_def committed_def commits_of_def)
    next
      case False
      then have "new_round_from env ?m m'" using r Some by (simp add: round_evaluated_def Let_def)
      then show ?thesis by (rule round) blast
    qed
  qed
  then show "ss_alfa (mc_state m') = ss_alfa (mc_state m)" "ss_beta (mc_state m') = ss_beta (mc_state m)"
    "ss_phase (mc_state m') = Listening \<Longrightarrow>
      ss_response_buffer (mc_state m') = (0, 0) \<and> committed m' = committed m"
    "ss_phase (mc_state m') = Idle \<Longrightarrow> committed m'
      = committed m + (if ss_decision_map (mc_state m') (ss_seq_num (mc_state m)) = Some OK then 1 else 0)"
    by blast+
qed

lemma round_credit:
  assumes r: "round_evaluated env m m'" and w: "waiting m = []" and l: "ss_phase (mc_state m) = Listening"
    and v: "voting (mc_state m)" and c: "in_credit a b N L m" and L: "Suc L < 2 ^ 64"
  shows "in_credit a b N (Suc L) m'"
proof -
  let ?st = "mc_state m"
  let ?v = "(unat (fst (ss_response_buffer ?st)), unat (snd (ss_response_buffer ?st)))"
  obtain rs where rs: "length rs \<le> L" "counters_mean rs (abs_vote ?st)"
    and pay: "a * b * committed m + a * wins OK rs + snd ?v \<le> N"
    and ab: "unat (ss_alfa ?st) = a" "unat (ss_beta ?st) = b"
    using c l by (auto simp: in_credit_def)
  define o' where "o' = round_winner a ?v"
  define s' where "s' = after_outcome o' (abs_vote ?st)"
  define d where "d = (if o' \<noteq> None \<and> b \<le> sb_count s' then Some (sb_preferred s') else None)"
  have f: "counters_fit ?st" using rs L by (intro counters_fit_from) auto
  have sr: "snowball_round (unat (ss_alfa ?st)) (unat (ss_beta ?st)) ?v (abs_vote ?st) = (s', d)"
    by (simp add: snowball_round_def Let_def ab o'_def s'_def d_def)
  note spec = round_evaluated_refines [OF r w l v f sr] and tally = round_evaluated_tally [OF r w l]
  have mean: "counters_mean (rs @ [o']) s'"
    unfolding s'_def by (rule outcome_counters [OF rs(2)]) (auto simp: o'_def round_winner_def)
  have pay': "a * b * committed m + a * wins OK (rs @ [o']) \<le> N"
    using pay by (auto simp: o'_def round_winner_def algebra_simps)
  show ?thesis
  proof (cases d)
    case None
    then show ?thesis
      using spec(1,2) tally(1-3) ab rs(1) mean pay' by (auto simp: in_credit_def intro!: exI [of _ "rs @ [o']"])
  next
    case (Some c')
    then have p: "c' = sb_preferred s'" "b \<le> sb_count s'" by (auto simp: d_def split: if_splits)
    have i: "ss_phase (mc_state m') = Idle" "ss_decision_map (mc_state m') (ss_seq_num ?st) = Some c'"
      using spec(3) [OF Some] by auto
    have "a * b * committed m' \<le> N"
    proof (cases "c' = OK")
      case True
      then have "a * b \<le> a * wins OK (rs @ [o'])"
        using decided_wins [OF mean p(2)] p(1) by (intro mult_le_mono2) (simp del: wins_simps)
      moreover have "committed m' = Suc (committed m)" using tally(4) [OF i(1)] i(2) True by simp
      then have "a * b * committed m' = a * b + a * b * committed m" by simp
      ultimately show ?thesis using pay' by linarith
    next
      case False
      then show ?thesis using tally(4) [OF i(1)] i(2) pay' by simp
    qed
    then show ?thesis using tally(1,2) i(1) ab by (simp add: in_credit_def)
  qed
qed

section \<open>The handlers\<close>

text \<open>A response pays for itself, and completes at most one round.\<close>

lemma response_credit:
  assumes h: "response_handled env p payload m r m'" and i: "node_inv m" and c: "in_credit a b N L m"
    and L: "Suc L < 2 ^ 64"
  shows "in_credit a b (N + (if sm_vote payload = 1 then 1 else 0)) (Suc L) m'"
proof -
  let ?v = "sm_vote payload"
  let ?m1 = "with_state (no_longer_awaited p) m"
  let ?m2 = "with_state (count_vote ?v) ?m1"
  let ?N = "N + (if ?v = 1 then 1 else 0)"
  have c1: "in_credit a b N L ?m1" by (rule tallied_credit [OF no_longer_awaited_tallied c])
  have later: "in_credit a b N L m'' \<Longrightarrow> in_credit a b ?N (Suc L) m''" for m'' by (erule in_credit_mono) simp_all
  show ?thesis
  proof (cases "expects (mc_state m) p \<and> ?v \<in> {0, 1}")
    case False
    then have "m' = m \<or> m' = ?m1" using h by (auto simp: response_handled_def Let_def split: if_splits)
    then show ?thesis using c c1 later by blast
  next
    case True
    then have x: "expects (mc_state m) p" and v: "?v = 0 \<or> ?v = 1" by auto
    have l: "ss_phase (mc_state ?m2) = Listening"
      using x by (simp add: expects_def no_longer_awaited_def count_vote_def)
    have "unat (snd (ss_response_buffer (mc_state ?m2)))
        \<le> unat (snd (ss_response_buffer (mc_state ?m1))) + (if ?v = 1 then 1 else 0)"
      using v by (cases "ss_response_buffer (mc_state m)")
        (auto simp: count_vote_def no_longer_awaited_def unat_word_ariths)
    moreover have "abs_vote (mc_state ?m2) = abs_vote (mc_state ?m1)" by (simp add: abs_vote_def count_vote_def)
    ultimately have c2: "in_credit a b ?N L ?m2"
      using c1 l by (auto simp: in_credit_def committed_def count_vote_def)
    show ?thesis
    proof (cases "round_complete (mc_state ?m2)")
      case False
      then have "m' = ?m2" using h x v by (auto simp: response_handled_def Let_def)
      then show ?thesis using in_credit_mono [OF c2] by simp
    next
      case True
      then have e: "evaluating True anything ?m2" and r: "round_evaluated env ?m2 m'"
        using count_vote_inv(1) [of True anything m p ?v] h i x v by (auto simp: response_handled_def Let_def)
      from e round_credit [OF r _ l _ c2 L] show ?thesis by (simp add: evaluating_def)
    qed
  qed
qed

lemma queue_handled_credit:
  assumes h: "queue_handled env m m'" and i: "node_inv m" and c: "in_credit a b N L m"
  shows "in_credit a b N L m'"
proof (cases "m' = m")
  case False
  with h obtain blk bs head where q: "mc_block_queue m = blk # bs"
    and n: "block_id blk \<noteq> ss_decision_block (mc_state m)" and x: "block_examined env blk head m m'"
    by (auto simp: queue_handled_def split: list.splits if_splits)
  have idle: "ss_phase (mc_state m) = Idle" and w: "waiting m = []"
    using i q n by (auto simp: inv_defs round_ok_def split: phase.splits)
  show ?thesis
  proof (cases "block_num blk < block_num head")
    case True
    then have "tallied m m'" using x by (auto simp: block_examined_def intro: acted_tallied)
    then show ?thesis using c by (rule tallied_credit)
  next
    case False
    with x obtain m1 where m1: "acted [GetChainHead, CheckBlocks [block_id blk]] m m1"
      "vote_started env (block_id blk) m1 m'" by (auto simp: block_examined_def)
    obtain m2 where n2: "new_round_from env (with_state (start_vote (block_id blk)) m1) m2"
      and m': "m' = with_state switch_phase m2"
      using m1(2) by (auto simp: vote_started_def)
    have w1: "waiting (with_state (start_vote (block_id blk)) m1) = []" using m1(1) w by (simp add: acted_def)
    have "abs_vote (mc_state m') = fresh_vote"
      using new_round_abs(1) [OF n2 w1] by (simp add: m' abs_start_vote) (simp add: abs_vote_def)
    then have "counters_mean [] (abs_vote (mc_state m'))"
      using outcomes_counters [of "[]"] by simp
    moreover have "ss_phase (mc_state m') = Listening"
      using new_round_abs(2) [OF n2 w1] idle m1(1) by (simp add: m' acted_def)
    moreover have "committed m1 = committed m" using m1(1) by (simp add: acted_def committed_def commits_of_def)
    ultimately show ?thesis
      using new_round_tally [OF n2 w1] c idle m1(1)
      by (auto simp: in_credit_def m' acted_def committed_def intro!: exI [of _ "[]"])
  qed
qed (use c in simp)

lemma peers_asked_tallied: "peers_asked env ps m m' \<Longrightarrow> tallied m m'"
  by (intro talliedI peers_asked_quietly peers_asked_queried)

lemma unresponsive_tallied:
  assumes i: "node_inv m" and h: "unresponsive_handled env m m'"
  shows "tallied m m'"
proof (cases "byzantine bz_hang_idx (mc_state m)")
  case False
  with h obtain clock gone ps m1 where g: "same_but_world m m1" "peers_asked env ps (forget gone m1) m'"
    by (auto simp: unresponsive_handled_def)
  have "tallied m m1" using g(1) by (auto simp: same_but_world_def tallied_def intro: quietly_state)
  moreover have "tallied m1 (forget gone m1)" by (intro talliedI forget_quietly forget_queried)
  moreover have "tallied (forget gone m1) m'" by (rule peers_asked_tallied [OF g(2)])
  ultimately show ?thesis by (blast intro: tallied_trans)
qed (use h in \<open>simp add: unresponsive_handled_def\<close>)

text \<open>Every other message leaves the account alone.\<close>

lemma sent_tallied: "sent env p t v n m m' \<Longrightarrow> tallied m m'"
  using sent_quietly sent_queried by (blast intro: talliedI)

lemma other_message_tallied:
  assumes l: "lawful env" and i: "node_inv m" and t: "t \<noteq> ''response''"
    and s: "on_peer_message env t p payload m = Some (Return r m')"
  shows "tallied m m'"
proof -
  have "wlp (on_request env p payload) (\<lambda>_. tallied m) m"
  proof (rule wpx_conseq [OF on_request_action [OF l]])
    fix a m1
    assume "request_answered env p payload m a m1"
    then show "tallied m m1"
      by (auto simp: request_answered_def Let_def intro: sent_tallied split: if_splits option.splits)
  qed
  moreover have "wlp (on_unavailable env p) (\<lambda>_. tallied m) m"
  proof (rule wpx_conseq [OF on_unavailable_action [OF l i]])
    fix a m1
    assume "unavailable_handled env p m a m1"
    moreover have "tallied m m1" if "other_peer_asked env (with_state (no_longer_awaited p) m) q m1" for q
      using that by (intro tallied_trans [OF no_longer_awaited_tallied talliedI] other_peer_quietly)
        (auto simp: other_peer_asked_def)
    ultimately show "tallied m m1" by (auto simp: unavailable_handled_def split: if_splits)
  qed
  ultimately have "wlp (on_peer_message env t p payload) (\<lambda>_. tallied m) m"
    using t by (simp add: on_peer_message_def wp_simps)
  with s show ?thesis by (auto dest: wlpD)
qed

lemma message_credit:
  assumes l: "lawful env" and i: "node_inv m" and c: "in_credit a b N L m" and L: "Suc L < 2 ^ 64"
    and s: "on_peer_message env t p payload m = Some (Return r m')"
  shows "in_credit a b (N + (if t = ''response'' \<and> sm_vote payload = 1 then 1 else 0)) (Suc L) m'"
proof (cases "t = ''response''")
  case True
  then have "on_response env p payload m = Some (Return r m')"
    using s by (simp add: on_peer_message_def)
  then have "response_handled env p payload m r m'" using on_response_action [OF l i] by (auto dest: wlpD)
  from response_credit [OF this i c L] show ?thesis using True by simp
next
  case False
  from tallied_credit [OF other_message_tallied [OF l i False s] c] show ?thesis
    by (rule in_credit_mono) (simp_all add: False)
qed

lemma members_tallied: "tallied m (with_state (with_members ps) m)"
  by (auto simp: tallied_def view_state_def intro: quietly_state)

lemma update_credit:
  fixes m :: "'w machine"
  assumes l: "lawful env" and i: "node_inv m" and c: "in_credit a b N L m" and L: "Suc L < 2 ^ 64"
  shows "wlp (handle_update env u) (\<lambda>_. in_credit a b (N + (if vote_for_block env u then 1 else 0)) (Suc L)) m"
proof -
  define Q :: "'w machine \<Rightarrow> bool" where "Q = in_credit a b (N + (if vote_for_block env u then 1 else 0)) (Suc L)"
  have same: "Q m'" if "tallied m m'" for m'
    using tallied_credit [OF that c] unfolding Q_def by (rule in_credit_mono) simp_all
  have "wlp (handle_update env u) (\<lambda>_. Q) m"
  proof (cases u)
    case (Update v)
    show ?thesis
    proof (cases v)
      case (BlockNew blk)
      have "wlp (on_block_new env blk) (\<lambda>_. block_queued blk m) m"
        unfolding wlp_iff using on_block_new_action [OF l] by blast
      moreover have "tallied m m'" if "block_queued blk m m'" for m'
        using that by (auto simp: block_queued_def tallied_def view_state_def intro: quietly_state)
      ultimately show ?thesis
        using Update BlockNew same by (auto simp: handle_update_def wpx_fun elim!: wpx_conseq)
    next
      case (PeerMessage message p)
      have "wlp (on_peer_message env (pm_message_type message) p payload) (\<lambda>_. Q) m"
        if "Option.bind (from_utf8 (pm_content message)) (nv_message_of_json env) = Some payload" for payload
        using message_credit [OF l i c L] that by (auto simp: Q_def wlp_iff vote_for_block_def Update PeerMessage split: if_splits)
      then show ?thesis
        using Update PeerMessage
        by (auto simp: handle_update_def decode_payload_def wpx_fun wpx_unwrapM split: option.splits)
    next
      case (PeerConnected p)
      have "wlp (on_peer_connected p) (\<lambda>_. tallied m) m"
        by (auto simp: on_peer_connected_wpx intro: members_tallied)
      then show ?thesis
        using Update PeerConnected same by (auto simp: handle_update_def wpx_fun elim!: wpx_conseq)
    next
      case (PeerDisconnected p)
      have "wlp (on_peer_disconnected p) (\<lambda>_. tallied m) m"
        by (rule on_peer_disconnected_partial) (auto intro: members_tallied)
      then show ?thesis
        using Update PeerDisconnected same by (auto simp: handle_update_def wpx_fun elim!: wpx_conseq)
    qed (use Update same [OF tallied_refl] in \<open>simp_all add: handle_update_def wp_simps on_block_valid_def
        on_block_invalid_def on_block_commit_def\<close>)
  qed (use same [OF tallied_refl] in \<open>simp_all add: handle_update_def wp_simps\<close>)
  then show ?thesis by (simp only: Q_def)
qed

section \<open>The account of the engine\<close>

definition solvent :: "('w, 'm) node_env_scheme \<Rightarrow> nat \<Rightarrow> nat \<Rightarrow> incoming list \<Rightarrow> 'w machine \<Rightarrow> bool" where
  "solvent env a b us m \<longleftrightarrow> node_inv m
     \<and> (length us < 2 ^ 64 \<longrightarrow> in_credit a b (votes_heard env us) (length us) m)"

lemma solvent_tallied:
  assumes "solvent env a b us m" and "tallied m m'" and "node_inv m'"
  shows "solvent env a b us m'"
  using assms tallied_credit by (auto simp: solvent_def)

lemma solvent_update:
  assumes l: "lawful env" and s: "solvent env a b us m" and h: "handle_update env u m = Some (Return go m')"
  shows "solvent env a b (us @ [u]) m'"
proof -
  have i: "node_inv m" using s by (simp add: solvent_def)
  have "wlp (handle_update env u) (\<lambda>_. stays True anything) m"
    using i l by (intro handle_update_inv) (simp_all add: deliverable_def)
  then have i': "node_inv m'" using h by (auto dest: wlpD)
  have "in_credit a b (votes_heard env (us @ [u])) (length (us @ [u])) m'" if n: "length (us @ [u]) < 2 ^ 64"
  proof -
    have "in_credit a b (votes_heard env us) (length us) m" "Suc (length us) < 2 ^ 64"
      using s n by (simp_all add: solvent_def)
    from wlpD [OF update_credit [OF l i this] h] show ?thesis by simp
  qed
  with i' show ?thesis by (simp add: solvent_def)
qed

interpretation votes: engine_hears env "\<lambda>us m. lawful env \<and> solvent env a b us m"
  for env :: "('w, 'm) node_env_scheme" and a b
proof
  fix us i go and m m' :: "'w machine" and es
  assume s: "lawful env \<and> solvent env a b us m"
  then have l: "lawful env" and i: "node_inv m" by (simp_all add: solvent_def)
  have inv: "other_step env m m' \<Longrightarrow> node_inv m'" using event_inv [OF l i] by simp
  show "handle_queue env m = Some (Return () m') \<Longrightarrow> lawful env \<and> solvent env a b us m'"
    using inv [OF queue] s queue_handled_credit [OF _ i] wlpD [OF handle_queue_action [OF l i]]
    by (auto simp: solvent_def)
  show "handle_unresponsive_peers env m = Some (Return () m') \<Longrightarrow> lawful env \<and> solvent env a b us m'"
    using inv [OF unresponsive] s solvent_tallied unresponsive_tallied [OF i] wlpD [OF handle_unresponsive_peers_action [OF l i]]
    by blast
  show "lawful env \<and> solvent env a b us m'" if p: "try_publish env m = Some (Return () m')"
  proof -
    have "wlp (try_publish env) (\<lambda>_ m'. published env m m') m"
      by (rule try_publish_wpx) (simp_all add: publishing_ok_def)
    then have "published env m m'" using p by (auto dest: wlpD)
    then have "tallied m m'"
      using published_quietly [of env m m'] by (auto simp: tallied_def published_def finalized_def split: if_splits)
    then show ?thesis using inv [OF publish [OF p]] s solvent_tallied by blast
  qed
  show "lawful env \<and> solvent env a b us m'"
    if "acted es m m'" "\<forall>e\<in>set es. \<exists>path c. e = WroteFile path c"
  proof -
    have "quiet es" using that(2) by (auto simp: quiet_def)
    then show ?thesis using inv [OF outside [OF that]] s solvent_tallied acted_tallied [OF that(1)] by blast
  qed
  show "handle_update env i m = Some (Return go m') \<Longrightarrow> lawful env \<and> solvent env a b (us @ [i]) m'"
    using solvent_update [OF l] s by blast
qed

end
