(* ===== verification/Spec2Isabelle.thy ===== *)
theory Spec2Isabelle
  imports Support_Properties Engine_Safety Node_Liveness Node_Exchange Node_Votes
begin

text \<open>
  The Snowball consensus engine for Hyperledger Sawtooth (\<open>src/src/*.rs\<close>), modelled as it is
  written, and what can be proved of it.

  The program. A validator process drives the engine over ZMQ: it hands over blocks, the answers
  of peers and changes of the membership as updates, and it offers a service (\<open>check_blocks\<close>,
  \<open>commit_block\<close>, \<open>fail_block\<close>, \<open>send_to\<close>, ...). \<open>main.rs\<close> reads the command line and starts the
  driver; \<open>SnowballEngine::start\<close> (\<open>engine.rs\<close>) loads the on-chain settings (\<open>config.rs\<close>, retried
  by \<open>timing.rs\<close>), opens the store of the state (\<open>storage/\<close>) and loops over the updates. In each
  turn it takes a write guard on the state (\<open>state.rs\<close>), lets \<open>SnowballNode\<close> (\<open>node.rs\<close>) look at its
  queue of blocks, dispatches one update to the node's handler, replaces peers that did not
  answer, and publishes a block when the ticker says so. The node votes on one block at a time:
  it asks a random sample of \<open>k\<close> members for their opinion (\<open>message.rs\<close>), evaluates the round when
  all have answered, asks again, and commits or fails the block after \<open>beta\<close> rounds in a row with
  a majority of \<open>alfa\<close> for one colour.

  How it is modelled. A computation (\<open>comp\<close>, in \<open>Prelude\<close>) is a function from a state to
  \<open>Some (Return value state)\<close>, \<open>Some (Panicked reason state)\<close> or \<open>None\<close>; the last is a computation
  that does not return. \<open>unwrap\<close>, \<open>expect\<close>, \<open>panic!\<close> and indexing out of bounds are \<open>Panicked\<close>, with
  the text of the panic where there is one. Loops that may not end are \<open>partial_function (option)\<close>:
  \<open>retry_loop\<close>, \<open>sample_loop\<close>, \<open>replace_loop\<close> and \<open>wait_until_ready\<close>. There is no fuel: that such a
  loop returns is proved from what it needs, and that it does not return is the value \<open>None\<close>. A
  \<open>u64\<close> is \<open>64 word\<close> and wraps, as in a release build; a \<open>usize\<close> that only indexes is a \<open>nat\<close>;
  bytes are \<open>8 word list\<close>. Instants and durations are nanoseconds.
  The state of the node is the record \<open>machine\<close>: \<open>mc_state\<close> (\<open>SnowballState\<close>, behind the guard),
  \<open>mc_log_guard\<close> and \<open>mc_block_queue\<close> (fields of \<open>SnowballNode\<close>) and \<open>mc_io\<close>, the outside world
  with the trace of the calls made to it, which the code never reads.

  Theories, in the order of their imports.
  \<^item> \<open>Prelude\<close>: computations, the calculus \<open>wpx D E\<close> of weakest preconditions (readings \<open>wlp\<close>: a
    result is right; \<open>safe\<close>: and there is no panic; \<open>wp\<close>: and it returns), the locale
    \<open>transition_system\<close>, \<open>[u64; 2]\<close> arrays, lists.
  \<^item> \<open>Interfaces\<close>: the SDK's structures, the record \<open>env\<close> of everything that is not in the
    repository (service, network, clock, generator, files, codecs), the events of the trace, and
    what the code relies on as named predicates.
  \<^item> \<open>Timing\<close> (\<open>timing.rs\<close>): \<open>Ticker\<close>, \<open>Timeout\<close>, \<open>retry_until_ok\<close>; locale \<open>timer\<close>.
  \<^item> \<open>Config\<close> (\<open>config.rs\<close>): \<open>SnowballConfig\<close>, its defaults and \<open>load_settings\<close>.
  \<^item> \<open>Snowball_State\<close> (\<open>state.rs\<close>): phases, decisions, \<open>SnowballState\<close> and its operations; locale
    \<open>awaited_peers\<close>, the contract of the map of awaited responses.
  \<^item> \<open>Messages\<close> (\<open>message.rs\<close>): messages, the log record, their bytes.
  \<^item> \<open>Node\<close> (\<open>node.rs\<close>): every method of \<open>SnowballNode\<close>. The lemmas on them are in
    \<open>Node_Sampling\<close> (what a sample is, when sampling returns), \<open>Node_Replace\<close> (the replacement of a
    peer), \<open>Node_Sending\<close> (one message, Byzantine tests included), \<open>Node_Rounds\<close> (the queries of a
    round), \<open>Node_Deciding\<close> (the evaluation of a round, the decision), \<open>Node_Handlers\<close> (one relation
    per handler between the machines before and after it), \<open>Node_Invariant\<close> (the invariant, and
    that each handler keeps it) and \<open>Node_Publishing\<close> (publishing).
  \<^item> \<open>Storage\<close> (\<open>storage/\<close>): the two stores as the engine uses them; locales \<open>store\<close> and
    \<open>durable_store\<close>. \<open>Storage_Guards\<close>: every method of the stores and of their guards, one by one,
    and that they amount to the former.
  \<^item> \<open>Engine\<close> (\<open>engine.rs\<close>): \<open>handle_update\<close>, a turn with the drop of its guard, the loop, the start;
    \<open>Engine_Invariant\<close>: the invariant through turns and the loop, and when they return.
  \<^item> \<open>Program\<close> (\<open>main.rs\<close>): endpoint, log level, exit status.
  \<^item> \<open>Node_Steps\<close>: the node as a transition system, one step for one handler that returned, and the
    locale \<open>engine_hears\<close>: what every handler keeps, relative to the updates handled so far, the
    loop of the engine keeps (\<open>engine_runs\<close>: relative to the blocks that have arrived); \<open>Protocol\<close>: the abstract protocol of votes and its consequences;
    \<open>Node_Protocol\<close>: the simulation of the protocol by the node; \<open>Node_Stalls\<close>: rounds that can never
    complete; \<open>Node_Order\<close>: the order of the votes, and a block that is announced twice (both
    instances of \<open>engine_runs\<close>), and a block below the chain head; \<open>Node_Votes\<close>: what a commit costs in votes (of \<open>engine_hears\<close>).
  \<^item> \<open>Snowball_Spec\<close>: the Snowball algorithm on natural numbers, which \<open>on_values_ready\<close> refines.
  \<^item> \<open>Sample_World\<close>: a concrete outside world and concrete nodes for the witnesses.
  \<^item> \<open>Node_Properties\<close>, \<open>Node_Liveness\<close> (a vote from its start to its commit), \<open>Node_Exchange\<close> (two
    nodes and the bytes between them), \<open>Support_Properties\<close>, \<open>Engine_Safety\<close> and this theory: the
    properties.

  What is shown. Of the whole engine: the invariant holds after every turn, only checked blocks
  are committed, the commits have taken \<open>alfa * beta\<close> votes each, votes
  begin in the order in which blocks arrive, with an outside world that behaves (the conditions stand with the property) nothing hangs or
  panics, and a decision once made stays. Of the algorithm: a round of the code is a round of
  Snowball, every handler is a step of the protocol, a vote in which all but \<open>k -
  alfa\<close> peers agree ends with their decision after \<open>beta\<close> rounds, an answer
  counts for what the asked node has recorded, and what the counters mean. Of the operations:
  what each does on every branch, errors and panics included. Some properties show where the
  code does not do what it seems to mean: an answer that is not a vote stalls the node for good,
  a block below the chain head blocks the queue, and so does one that is announced again during
  its vote when no other waits, a late answer counts for another vote, a peer can vote twice in a round, a sample
  that is too large never ends, a malformed message stops the engine, and a state that cannot be
  encoded ends it with the disk store.

  What the theorems rely on, as hypotheses where they need it. \<open>lawful_uniform\<close>: a sample lies in
  its range and an empty range panics; \<open>lawful_iteration\<close>: a set is iterated once over each
  element; both together are \<open>lawful\<close>. \<open>fair_uniform\<close>: repeated samples reach every index.
  \<open>clock_independent\<close>: the clock does not change what the generator yields. \<open>reliable_service\<close>:
  the validator and the network accept the calls, the clock is past its epoch and an HTTP client
  can be made. \<open>becomes_ready\<close>: a block asked for is ready
  after finitely many attempts. \<open>lawful_message_json\<close> and \<open>lawful_log_json\<close>: the codec encodes
  messages, and decodes what it encoded. \<open>lawful_files\<close>: what was written is read;
  \<open>stable_files\<close>: reading changes no file; \<open>atomic_files\<close>: a write that fails leaves the file as it
  was; \<open>reads_back\<close>: the codec of the stored data decodes what it encoded, if it encodes them. A
  state with an entry in one of its maps keyed by byte vectors (\<open>text_keys\<close>) has no text, as
  \<open>serde_json\<close> documents; no property of the stores assumes a codec that encodes everything. Where
  the engine is to return (\<open>persists\<close>) the store is the one in memory, the default, or one that never fails to
  write, which the disk store with this codec is not once a block has arrived. \<open>env_ok D E\<close> asks only for those a reading of the calculus needs. \<open>sample_env\<close> satisfies those of the engine.

  Bounds. The invariant needs \<open>0 < k < 2 * alfa\<close>, \<open>0 < beta\<close> and different members, at most
  \<open>2 ^ 64\<close> (\<open>config_ok\<close>, \<open>parameters_ok\<close>); the code does not check any of these. The counters of a
  vote agree with natural numbers below \<open>2 ^ 64 - 1\<close> rounds, decisions are final for \<open>2 ^ 64\<close> votes.
  A sample of more than \<open>set_capacity_max\<close> indices panics, as \<open>HashSet::with_capacity\<close> does; below that
  the memory is taken to suffice. Where a theorem says that a round is asked, \<open>provided\<close> and
  \<open>round_ready\<close> ask for a \<open>k\<close> within that bound. \<open>record_majority\<close> and \<open>start_vote\<close>
  are specifications of what the loop body \<open>count_color\<close> and \<open>handle_block_new\<close> do to the state.

  Not modelled: the calls of the log macros, which only write log lines, except that one of them
  takes a write guard, whose drop is modelled (\<open>churn_timer\<close>; \<open>ev_log_info\<close> tells whether the line
  is let through); the trait objects of \<open>storage/mod.rs\<close>, whose methods only forward; the parsing
  of the command line (\<open>clap\<close>), the log configuration (\<open>log4rs\<close>) and the ZMQ driver, which are arguments of \<open>program_main\<close>; \<open>serde_json\<close>, \<open>hex\<close>, \<open>rand\<close>
  and \<open>reqwest\<close>, which are fields of \<open>env\<close>; the threads of the driver, of which the engine sees only
  the channel, modelled as the list of what \<open>recv_timeout\<close> yields; the scripts, images and the log
  collector around the program.
\<close>

section \<open>The engine as a whole\<close>

text \<open>
  C1: The invariant of a node holds for as long as the engine runs. From any state the engine can
  start from (a fresh one, or one read from disk between votes), whatever the validator, the
  network and the generator answer and whatever updates arrive, after every turn of the loop
  that is reached: the node is idle with nobody awaited or votes on the block at the front of its
  queue, the votes and the awaited peers of a round are together at most \<open>k\<close>, at most \<open>k - 1\<close>
  votes are in, the recorded decision is \<open>OK\<close> or \<open>KO\<close>, the confidence counter is below
  \<open>beta\<close>, no peer is awaited twice, members are distinct, and the node's order is its own place
  among them.
\<close>

theorem engine_keeps_invariant:
  fixes env :: "('w, 'm) node_env_scheme"
  assumes "lawful env" and "startable (storage_data sto)"
  shows "wlp (bindM (engine_enter env cfg sto startup) (engine_loop env sto updates)) (\<lambda>_. node_inv)
    (initial_machine sto io)"
  unfolding wpx_bindM
proof (rule wpx_conseq)
  show "wlp (engine_enter env cfg sto startup) (\<lambda>_. stays True anything) (initial_machine sto io)"
    using assms by (intro engine_enter_inv) (simp_all add: lawful_def persists_def provided_def delay_ok_def)
next
  fix lv and m :: "'w machine"
  assume "stays True anything m"
  then show "wlp (engine_loop env sto updates lv) (\<lambda>_. node_inv) m"
    using assms(1)
    by (intro wpx_conseq [OF engine_loop_inv [of True anything env sto m updates lv]])
      (simp_all add: publishing_ok_def persists_def harmless_def)
qed

definition sample_startup :: startup_state where
  "sample_startup = \<lparr>chain_head_block = genesis, startup_peers = [], local_peer_id = [65]\<rparr>"

lemma fresh_startable: "startable fresh_state"
  using fresh_stays [of True anything]
  by (simp add: startable_def fresh_machine_def node_inv_def) (simp add: fresh_state_def)

theorem engine_keeps_invariant_witness:
  "wlp (bindM (engine_enter sample_env sample_config (MemStorage fresh_state) sample_startup)
      (engine_loop sample_env (MemStorage fresh_state) [Update (BlockNew new_block), RecvTimeout]))
    (\<lambda>_. node_inv) (initial_machine (MemStorage fresh_state) sample_io)"
  by (rule engine_keeps_invariant [OF sample_lawful]) (simp add: fresh_startable)

text \<open>
  C2: The whole program, from \<open>start\<close> on: only blocks that the validator was asked to check are
  committed, and no more commits are made than checks. Each check begins a vote, so this is at
  most one commit for each vote. It holds for all answers of the validator and all updates, as
  long as the state the engine starts from is one between votes.
\<close>

theorem engine_commits_checked_blocks:
  assumes "lawful env" and "io_trace io = []"
    and "engine_setup env cfg startup io = Some (Return (cfg', sto) io')" and "startable (storage_data sto)"
  shows "wlp (engine_start env cfg startup updates) (\<lambda>_ end. let trace = io_trace end in
      set (commits_of trace) \<subseteq> set (checks_of trace) \<and> length (commits_of trace) \<le> length (checks_of trace)) io"
proof -
  have q: "quiet (io_trace io')"
    using wlpD [OF engine_setup_quiet assms(3)] assms(2) by simp
  have "wlp (bindM (engine_enter env cfg' sto startup) (engine_loop env sto updates)) (\<lambda>_. loop_ready)
      (initial_machine sto io')"
    by (rule engine_run_ready [OF assms(1,4) q])
  then show ?thesis
    by (auto simp: engine_start_def leave_machine_def bindM_def [of "engine_setup _ _ _"] assms(3) wpx_def Let_def
        loop_ready_def commits_ok_def protocol_view_def split: option.splits outcome.splits if_splits)
qed

lemma sample_settings_read:
  "decoded_members sample_env sample_settings = Some [[65], [66], [67]]"
  "required sample_settings ''sawtooth.consensus.algorithm.alfa'' = Some 2"
  "required sample_settings ''sawtooth.consensus.algorithm.beta'' = Some 3"
  "required sample_settings ''sawtooth.consensus.algorithm.k'' = Some 2"
  by (simp_all add: decoded_members_def required_def sample_settings_def parse_u64_def digit_value_def)
    (simp add: sample_env_def as_bytes_def)

lemma sample_apply:
  "wp (apply_settings sample_env sample_settings default_config)
    (\<lambda>cfg s'. s' = s \<and> config_ok cfg \<and> [65] \<in> set (cfg_members cfg) \<and> cfg_storage_location cfg = ''memory'') s"
  by (simp add: apply_settings_def wp_simps wpx_get_members sample_settings_read config_ok_def)
    (simp add: default_config_def)

lemma sample_setup:
  "\<exists>cfg st io'. engine_setup sample_env default_config sample_startup sample_io
      = Some (Return (cfg, MemStorage st) io') \<and> startable st"
proof -
  have load: "load_settings sample_env default_config [0] sample_io
      = apply_settings sample_env sample_settings default_config (sample_io\<lparr>io_trace := [GetSettings [0] setting_keys]\<rparr>)"
    by (simp add: load_settings_def retry_until_ok_def retry_loop_step bindM_def get_settings_def call_def)
      (simp add: sample_env_def sample_io_def)
  from sample_apply [of "sample_io\<lparr>io_trace := [GetSettings [0] setting_keys]\<rparr>"]
  obtain cfg s where run: "apply_settings sample_env sample_settings default_config
      (sample_io\<lparr>io_trace := [GetSettings [0] setting_keys]\<rparr>) = Some (Return cfg s)"
    and cfg: "config_ok cfg" "[65] \<in> set (cfg_members cfg)" "cfg_storage_location cfg = ''memory''"
    by (auto simp: wp_iff)
  have "wp (snowball_state_new [65] 5 cfg) (\<lambda>st _. startable st) s"
    using cfg(2) by (simp add: snowball_state_new_startable [OF cfg(1)])
  then obtain st s' where "snowball_state_new [65] 5 cfg s = Some (Return st s')" "startable st"
    by (auto simp: wp_iff)
  then show ?thesis
    by (auto simp: engine_setup_def sample_startup_def genesis_def Let_def bindM_def load run get_storage_def cfg(3)
        mem_storage_new_def returnM_def expectM_def)
qed

theorem engine_commits_checked_blocks_witness:
  "wlp (engine_start sample_env default_config sample_startup [Update (BlockNew new_block), RecvTimeout])
    (\<lambda>_ end. set (commits_of (io_trace end)) \<subseteq> set (checks_of (io_trace end))) sample_io"
proof -
  obtain cfg st io' where s: "engine_setup sample_env default_config sample_startup sample_io
      = Some (Return (cfg, MemStorage st) io')" "startable (storage_data (MemStorage st))"
    using sample_setup by auto
  have "io_trace sample_io = []" by (simp add: sample_io_def)
  from engine_commits_checked_blocks [OF sample_lawful this s, of "[Update (BlockNew new_block), RecvTimeout]"]
  show ?thesis by (rule wpx_conseq) (simp add: Let_def)
qed

text \<open>The loop starts with a node that keeps the invariant and has done nothing about a block.\<close>

lemma engine_enter_entered_inv:
  fixes env :: "('w, 'm) node_env_scheme"
  assumes "lawful env" and "startable (storage_data sto)" and "quiet (io_trace io)"
  shows "wlp (engine_enter env cfg sto startup) (\<lambda>_ m. node_inv m \<and> entered sto m) (initial_machine sto io)"
proof -
  have "wlp (engine_enter env cfg sto startup) (\<lambda>_. stays True anything) (initial_machine sto io)"
    using assms by (intro engine_enter_inv) (simp_all add: lawful_def persists_def provided_def delay_ok_def)
  from wpx_conj [OF this engine_enter_entered [OF assms(3)]] show ?thesis
    by (rule wpx_conseq) simp
qed

lemma entered_solvent:
  assumes "entered sto m" and "node_inv m" and "ss_phase (storage_data sto) = Idle"
  shows "solvent env (unat (ss_alfa (storage_data sto))) (unat (ss_beta (storage_data sto))) [] m"
  using assms by (simp add: solvent_def in_credit_def entered_def committed_def quiet_view)

text \<open>
  C3: A commit takes \<open>alfa * beta\<close> votes. In every run of the engine there are, among the updates
  it has received, at least \<open>alfa * beta\<close> responses that decode to a vote for the block for each
  block it has committed. Fewer dishonest answers than that never make a node commit a block,
  whatever else arrives: forged requests, late or repeated answers, changes of the membership.
\<close>

theorem commits_need_votes:
  fixes env :: "('w, 'm) node_env_scheme"
  assumes "lawful env" and "startable (storage_data sto)" and "quiet (io_trace io)" and "length updates < 2 ^ 64"
  shows "wlp (bindM (engine_enter env cfg sto startup) (engine_loop env sto updates))
    (\<lambda>_ m. unat (ss_alfa (storage_data sto)) * unat (ss_beta (storage_data sto)) * length (commits_of (io_trace (mc_io m)))
      \<le> votes_heard env updates)
    (initial_machine sto io)"
  unfolding wpx_bindM
proof (rule wpx_conseq [OF engine_enter_entered_inv [OF assms(1-3)]])
  fix lv and m :: "'w machine"
  let ?a = "unat (ss_alfa (storage_data sto))" and ?b = "unat (ss_beta (storage_data sto))"
  assume m: "node_inv m \<and> entered sto m"
  have "lawful env \<and> solvent env ?a ?b [] m"
    using assms(1,2) m entered_solvent [of sto m env] by (simp add: startable_def)
  from votes.engine_loop_kept [OF this, of sto updates lv]
  show "wlp (engine_loop env sto updates lv)
      (\<lambda>_ m. ?a * ?b * length (commits_of (io_trace (mc_io m))) \<le> votes_heard env updates) m"
  proof (rule wpx_conseq)
    fix go and m' :: "'w machine"
    assume "\<exists>n. lawful env \<and> solvent env ?a ?b ([] @ take n updates) m'"
    then obtain n where "in_credit ?a ?b (votes_heard env (take n updates)) (length (take n updates)) m'"
      using assms(4) by (auto simp: solvent_def)
    then have "?a * ?b * committed m' \<le> votes_heard env (take n updates)"
      by (auto simp: in_credit_def split: if_splits)
    also have "\<dots> \<le> votes_heard env updates" by (rule votes_heard_take)
    finally show "?a * ?b * length (commits_of (io_trace (mc_io m'))) \<le> votes_heard env updates"
      by (simp add: committed_def)
  qed
qed

text \<open>One answer for the block, which is less than two times three: nothing is committed.\<close>

theorem commits_need_votes_witness:
  "wlp (bindM (engine_enter sample_env sample_config (MemStorage fresh_state) sample_startup)
      (engine_loop sample_env (MemStorage fresh_state)
        [Update (BlockNew new_block), delivered ''response'' (as_bytes (message_text (vote_for 1))) [2]]))
    (\<lambda>_ m. commits_of (io_trace (mc_io m)) = []) (initial_machine (MemStorage fresh_state) sample_io)"
proof -
  let ?us = "[Update (BlockNew new_block), delivered ''response'' (as_bytes (message_text (vote_for 1))) [2]]"
  have st: "startable (storage_data (MemStorage fresh_state))" "quiet (io_trace sample_io)" "length ?us < 2 ^ 64"
    by (simp_all add: fresh_startable sample_io_def quiet_def)
  have "votes_heard sample_env ?us \<le> 1"
    by (simp add: votes_heard_def vote_for_block_def)
  moreover have "unat (ss_alfa fresh_state) = 2" "unat (ss_beta fresh_state) = 3" by (simp_all add: fresh_state_def)
  ultimately have "commits_of t = []"
    if "unat (ss_alfa fresh_state) * unat (ss_beta fresh_state) * length (commits_of t) \<le> votes_heard sample_env ?us" for t
    using that by (cases "commits_of t") simp_all
  then show ?thesis
    by (intro wpx_conseq [OF commits_need_votes [OF sample_lawful st]]) simp
qed

text \<open>
  C4: The engine does not hang and does not panic when what is outside it behaves. That is: the
  service, the clock and the HTTP client do not fail, the codecs encode, the generator reaches every index,
  a block that is asked for becomes ready, and the store is in memory or its codec and every write
  succeed; every message that arrives decodes, and no peer disconnects; the maximal churn
  timeout and the maximal sleep delay are positive; and there are more members than \<open>k\<close>, a number
  for which a set can be made. Then, from a state it can start from, the entry of the loop and
  every turn of it return, for any sequence of such updates, and the invariant holds in the end.
\<close>

theorem engine_loop_returns:
  fixes env :: "('w, 'm) node_env_scheme"
  assumes "env_ok False (never :: panic \<Rightarrow> 'w machine \<Rightarrow> bool) env"
    and "publishing_ok False (never :: panic \<Rightarrow> 'w machine \<Rightarrow> bool) env"
    and "persists (never :: panic \<Rightarrow> 'w machine \<Rightarrow> bool) env sto"
    and "startable (storage_data sto)" and "0 < unat (cfg_byzantine_max_churn_timeout_millis cfg)"
    and "0 < unat (bz_max_sleep_delay_millis (ss_byzantine_test (storage_data sto)))"
    and "unat (ss_k (storage_data sto)) < length (ss_member_ids (storage_data sto))"
    and "unat (ss_k (storage_data sto)) \<le> set_capacity_max"
    and "\<forall>i\<in>set updates. harmless False (never :: panic \<Rightarrow> 'w machine \<Rightarrow> bool) env i"
  shows "\<exists>go m. bindM (engine_enter env cfg sto startup) (engine_loop env sto updates) (initial_machine sto io)
    = Some (Return go m) \<and> node_inv m"
proof -
  let ?m = "initial_machine sto io"
  have "order_valid (mc_state ?m)"
    using assms(4) place_order_valid by (simp add: startable_def initial_machine_def)
  then have pr: "provided False (never :: panic \<Rightarrow> 'w machine \<Rightarrow> bool) ?m"
    using assms(6,7,8) card_others [of ?m] by (simp add: provided_def delay_ok_def capacity_ok_def initial_machine_def)
  have "wp (bindM (engine_enter env cfg sto startup) (engine_loop env sto updates)) (\<lambda>_. stays False never) ?m"
    unfolding wpx_bindM
  proof (rule wpx_conseq)
    show "wp (engine_enter env cfg sto startup) (\<lambda>_. stays False never) ?m"
      using assms(3,4,5) pr env_okD(1) [OF assms(1)] by (intro engine_enter_inv) auto
  next
    fix lv and m :: "'w machine"
    assume "stays False never m"
    then show "wp (engine_loop env sto updates lv) (\<lambda>_. stays False never) m"
      using assms by (intro engine_loop_inv) auto
  qed
  then show ?thesis by (auto simp: wp_iff stays_def)
qed

theorem engine_loop_returns_witness:
  "\<exists>go m. bindM (engine_enter sample_env sample_config (MemStorage fresh_state) sample_startup)
      (engine_loop sample_env (MemStorage fresh_state)
        [Update (BlockNew new_block), RecvTimeout, Update (PeerConnected [4]), Update Shutdown])
      (initial_machine (MemStorage fresh_state) sample_io) = Some (Return go m) \<and> node_inv m"
  by (rule engine_loop_returns [OF sample_env_ok sample_publishing_ok])
    (simp_all add: persists_def fresh_startable harmless_def, simp_all add: sample_defs set_capacity_max_def)

lemma entered_in_order:
  assumes "entered sto m" and "node_inv m"
  shows "in_order [] m"
proof -
  have "ss_phase (mc_state m) \<noteq> Listening"
    using assms by (auto simp: entered_def inv_defs round_ok_def)
  with assms(1) show ?thesis by (auto simp: in_order_def entered_def quiet_view)
qed

text \<open>
  C5: Votes begin in the order in which the blocks arrive. The blocks that the engine has the
  validator check, one for each vote, are in every turn an initial segment of the blocks that
  were announced to it: none is left out, none is voted on before one that arrived earlier, and
  none twice unless it was announced twice.
\<close>

theorem votes_in_order_of_arrival:
  fixes env :: "('w, 'm) node_env_scheme"
  assumes "lawful env" and "startable (storage_data sto)" and "quiet (io_trace io)"
  shows "wlp (bindM (engine_enter env cfg sto startup) (engine_loop env sto updates))
    (\<lambda>_ m. prefix (checks_of (io_trace (mc_io m))) (map block_id (concat (map arrivals updates))))
    (initial_machine sto io)"
  unfolding wpx_bindM
proof (rule wpx_conseq [OF engine_enter_entered_inv [OF assms]])
  fix lv and m :: "'w machine"
  assume "node_inv m \<and> entered sto m"
  then have "lawful env \<and> node_inv m \<and> in_order [] m" using assms(1) entered_in_order by auto
  from order.engine_loop_kept [OF this, of sto updates lv]
  show "wlp (engine_loop env sto updates lv)
      (\<lambda>_ m. prefix (checks_of (io_trace (mc_io m))) (map block_id (concat (map arrivals updates)))) m"
  proof (rule wpx_conseq)
    fix go and m' :: "'w machine"
    assume "\<exists>n. lawful env \<and> node_inv m' \<and> in_order ([] @ concat (map arrivals (take n updates))) m'"
    then obtain n where n: "node_inv m'" "in_order (concat (map arrivals (take n updates))) m'" by auto
    have "prefix (checks_of (io_trace (mc_io m'))) (map block_id (concat (map arrivals (take n updates))))"
      using n in_order_prefix by blast
    moreover have "prefix (concat (map arrivals (take n updates))) (concat (map arrivals updates))"
      by (metis append_take_drop_id concat_append map_append prefixI)
    ultimately show "prefix (checks_of (io_trace (mc_io m'))) (map block_id (concat (map arrivals updates)))"
      by (blast intro: prefix_order.trans map_mono_prefix)
  qed
qed

theorem votes_in_order_of_arrival_witness:
  "wlp (bindM (engine_enter sample_env sample_config (MemStorage fresh_state) sample_startup)
      (engine_loop sample_env (MemStorage fresh_state) [Update (BlockNew old_block), RecvTimeout, Update (BlockNew new_block)]))
    (\<lambda>_ m. prefix (checks_of (io_trace (mc_io m))) [[4], [6]]) (initial_machine (MemStorage fresh_state) sample_io)"
proof -
  have "startable (storage_data (MemStorage fresh_state))" "quiet (io_trace sample_io)"
    by (simp_all add: fresh_startable sample_io_def quiet_def)
  from votes_in_order_of_arrival [OF sample_lawful this]
  show ?thesis by (rule wpx_conseq) (simp add: arrivals_def old_block_def new_block_def)
qed

text \<open>
  C11: Decisions are final. Once the vote on a sequence number is over, the decision recorded for
  it does not change for as long as the engine runs, until \<open>2 ^ 64\<close> further votes have begun and
  the sequence number has come round.
\<close>

theorem decisions_are_final:
  assumes "lawful env" and "node_inv m" and "ss_phase (mc_state m) \<noteq> Listening"
  shows "wlp (engine_loop env sto updates lv) (\<lambda>_ m'.
    length (checks_of (io_trace (mc_io m'))) < length (checks_of (io_trace (mc_io m))) + 2 ^ 64 \<longrightarrow>
    ss_decision_map (mc_state m') (ss_seq_num (mc_state m)) = ss_decision_map (mc_state m) (ss_seq_num (mc_state m))) m"
proof (rule wpx_conseq [OF engine_loop_steps [OF rtranclp.rtrancl_refl]], rule impI)
  fix m'
  assume s: "(node_step env)\<^sup>*\<^sup>* m m'"
    and n: "length (checks_of (io_trace (mc_io m'))) < length (checks_of (io_trace (mc_io m))) + 2 ^ 64"
  have "protocol_step\<^sup>*\<^sup>* (protocol_view m) (protocol_view m')"
    by (rule node_steps_protocol [OF s assms(1,2)])
  from decision_final [OF this] assms(3) n
  show "ss_decision_map (mc_state m') (ss_seq_num (mc_state m)) = ss_decision_map (mc_state m) (ss_seq_num (mc_state m))"
    by (simp add: protocol_view_def)
qed

text \<open>A node that has decided \<open>OK\<close> in the vote with sequence number 6, and goes on to a new block.\<close>

theorem decisions_are_final_witness:
  "wlp (engine_loop sample_env (MemStorage fresh_state) [Update (BlockNew new_block), RecvTimeout] sample_vars) (\<lambda>_ m'.
    length (checks_of (io_trace (mc_io m'))) < 2 ^ 64 \<longrightarrow> ss_decision_map (mc_state m') 6 = Some OK)
    (fresh_machine\<lparr>mc_state := fresh_state\<lparr>ss_decision_map := [6 \<mapsto> OK]\<rparr>\<rparr>)"
proof -
  let ?m = "fresh_machine\<lparr>mc_state := fresh_state\<lparr>ss_decision_map := [6 \<mapsto> OK]\<rparr>\<rparr>"
  have i: "node_inv ?m"
    by (simp add: fresh_machine_def fresh_state_def node_inv_def parameters_ok_def place_ok_def keys_distinct_def phase_ok_def)
  have p: "ss_phase (mc_state ?m) \<noteq> Listening" by (simp add: fresh_state_def)
  from decisions_are_final [OF sample_lawful i p, of "MemStorage fresh_state" "[Update (BlockNew new_block), RecvTimeout]" sample_vars]
  show ?thesis
    by (rule wpx_conseq) (simp_all add: sample_defs)
qed



text \<open>
  C20: A block that is announced again while the vote on it is on, and while no other block waits
  in the queue, stops the engine from voting. When the vote is over, only the first of the two
  entries leaves the queue; the second has the id of the block that was decided last, which the
  node takes as voted on already, and nothing removes it. Whatever arrives afterwards, no further
  block is checked. (With another block between the two entries, that block is still voted on.)
\<close>

theorem repeated_block_stops_votes:
  fixes env :: "('w, 'm) node_env_scheme"
  assumes "lawful env" and "node_inv m" and "ss_phase (mc_state m) = Listening"
    and "mc_block_queue m = [b]" and "block_id b' = block_id b"
    and "on_block_new env b' m = Some (Return r m1)"
  shows "wlp (engine_loop env sto updates lv)
    (\<lambda>_ m'. checks_of (io_trace (mc_io m')) = checks_of (io_trace (mc_io m))) m1"
proof -
  have i: "node_inv m1" and q: "block_queued b' m m1" using arrival_inv [OF assms(1,2,6)] by auto
  have "repeated m1"
    using assms(2-5) q by (auto simp: repeated_def block_queued_def inv_defs round_ok_def)
  moreover have "checks_of (io_trace (mc_io m1)) = checks_of (io_trace (mc_io m))"
    using q by (auto simp: block_queued_def)
  ultimately have "lawful env \<and> node_inv m1 \<and> repeated m1 \<and>
      checks_of (io_trace (mc_io m1)) = checks_of (io_trace (mc_io m))"
    using assms(1) i by simp
  from twice.engine_loop_kept [OF this] show ?thesis
    by (rule wpx_conseq) simp
qed

theorem repeated_block_stops_votes_witness:
  "\<exists>r m1. on_block_new sample_env new_block (voting_machine [[2], [3]] (0, 0)) = Some (Return r m1)
    \<and> wlp (engine_loop sample_env (MemStorage fresh_state) [RecvTimeout, Update (BlockNew old_block)] sample_vars)
      (\<lambda>_ m'. checks_of (io_trace (mc_io m')) = []) m1"
proof -
  let ?m = "voting_machine [[2], [3]] (0, 0)"
  have i: "node_inv ?m" using voting_stays [of "[[2], [3]]" "(0, 0)" True anything] by (simp add: stays_def)
  have m: "ss_phase (mc_state ?m) = Listening" "mc_block_queue ?m = [new_block]"
    by (simp_all add: sample_defs)
  have "wp (on_block_new sample_env new_block) (\<lambda>r m1. True) ?m"
    by (simp add: on_block_new_wpx [where D = False and E = never, OF sample_env_ok])
  then obtain r m1 where on: "on_block_new sample_env new_block ?m = Some (Return r m1)" by (auto simp: wp_iff)
  have "checks_of (io_trace (mc_io ?m)) = []" by (simp add: sample_defs checks_of_def)
  with repeated_block_stops_votes [OF sample_lawful i m refl on, of "MemStorage fresh_state"
      "[RecvTimeout, Update (BlockNew old_block)]" sample_vars] on
  show ?thesis by auto
qed



end
